theory Spec2Isabelle
  imports Main "HOL-Library.Extended_Nat"
begin

section \<open>The abstract syntax tree\<close>

text \<open>
  The node variants of \<^verbatim>\<open>parser/parse.ts\<close>.  Optional properties of the source
  (\<^verbatim>\<open>negate?\<close>, \<^verbatim>\<open>name?\<close>, \<^verbatim>\<open>flags?\<close>) are \<open>option\<close> fields; a number that may be
  \<^verbatim>\<open>Infinity\<close> (a quantifier's \<^verbatim>\<open>max\<close>) is an \<open>enat\<close>.  Strings are ASCII character lists.
\<close>

datatype absent_kind = Repeater

datatype assertion_kind =
    grapheme_boundary | line_end | line_start | search_start
  | string_end | string_end_newline | string_start | word_boundary

datatype class_kind = union | intersection

datatype set_kind =
    any_set | digit | hex | space | word | newline | grapheme | posix | property

datatype directive_kind = keep | flags_directive

datatype lookaround_kind = lookahead | lookbehind

datatype quantifier_kind = greedy | lazy | possessive

text \<open>A reference (\<^verbatim>\<open>ref: string | number\<close>) of a backreference or subroutine.\<close>

datatype ref = RefNum int | RefName string

text \<open>
  The flag record and the flag-group modifiers are declared by the tokenizer.  The fields
  are those the data model names; both are plain data for the parser and the traverser.
\<close>

record regex_flags =
  ignoreCase :: bool
  dotAll :: bool
  extended :: bool
  digitIsAscii :: bool
  spaceIsAscii :: bool
  wordIsAscii :: bool
  posixIsAscii :: bool
  textSegmentMode :: "string option"

record flag_group_modifiers =
  enable :: "string option"
  disable :: "string option"

datatype node =
    AbsentFunction absent_kind "node list"
  | Alternative "node list"
  | Assertion assertion_kind "bool option"
  | Backreference ref bool
  | CapturingGroup nat "string option" "node list"
  | Character nat
  | CharacterClass class_kind bool "node list"
  | CharacterClassRange node node
  | CharacterSet set_kind "string option" "bool option" "bool option"
  | Directive directive_kind "flag_group_modifiers option"
  | Flags regex_flags
  | Group bool "flag_group_modifiers option" "node list"
  | LookaroundAssertion lookaround_kind bool "node list"
  | Pattern "node list"
  | Quantifier quantifier_kind nat enat node
  | Recursion
  | Regex node node
  | Subroutine ref

text \<open>
  Field order: \<open>CharacterSet kind value negate variableLength\<close>,
  \<open>CapturingGroup number name alternatives\<close>, \<open>Group atomic flags alternatives\<close>,
  \<open>LookaroundAssertion kind negate alternatives\<close>, \<open>Quantifier kind min max element\<close>,
  \<open>Regex pattern flags\<close>, \<open>Backreference ref orphan\<close>.
\<close>

datatype node_type =
    AbsentFunctionT | AlternativeT | AssertionT | BackreferenceT | CapturingGroupT
  | CharacterT | CharacterClassT | CharacterClassRangeT | CharacterSetT | DirectiveT
  | FlagsT | GroupT | LookaroundAssertionT | PatternT | QuantifierT | RecursionT
  | RegexT | SubroutineT

fun type_of :: "node \<Rightarrow> node_type" where
  "type_of (AbsentFunction _ _) = AbsentFunctionT"
| "type_of (Alternative _) = AlternativeT"
| "type_of (Assertion _ _) = AssertionT"
| "type_of (Backreference _ _) = BackreferenceT"
| "type_of (CapturingGroup _ _ _) = CapturingGroupT"
| "type_of (Character _) = CharacterT"
| "type_of (CharacterClass _ _ _) = CharacterClassT"
| "type_of (CharacterClassRange _ _) = CharacterClassRangeT"
| "type_of (CharacterSet _ _ _ _) = CharacterSetT"
| "type_of (Directive _ _) = DirectiveT"
| "type_of (Flags _) = FlagsT"
| "type_of (Group _ _ _) = GroupT"
| "type_of (LookaroundAssertion _ _ _) = LookaroundAssertionT"
| "type_of (Pattern _) = PatternT"
| "type_of (Quantifier _ _ _ _) = QuantifierT"
| "type_of Recursion = RecursionT"
| "type_of (Regex _ _) = RegexT"
| "type_of (Subroutine _) = SubroutineT"

section \<open>The traverser\<close>

text \<open>
  \<^verbatim>\<open>traverse(path, state, visitor)\<close> walks the tree in place and hands every callback a
  \<^verbatim>\<open>path\<close> object whose methods edit the tree.  The model passes the tree as a value:
  \<^item> a callback is a function of the path's data and the user state; it returns the path
    methods it calls, in order, and the new user state;
  \<^item> an array container is a list, returned updated; a node in a single-child slot is
    returned to the caller, which stores it in the slot;
  \<^item> the recursion carries fuel, one unit per nested call, because the walk of the source
    need not end (a callback may keep replacing a node by a larger one);
  \<^item> the result holds the list of callback invocations in the order they were made.
    The source keeps no such list; it is what the statements about visiting order speak of.
  Nodes handed to \<^verbatim>\<open>replaceWith\<close> are values: a visitor that relies on one object
  being reachable from two places is outside the model.
\<close>

datatype slot = pattern_slot | flags_slot | min_slot | max_slot | element_slot

datatype key = Idx nat | Slot slot

text \<open>
  Where the visited node hangs: nowhere (the root: \<^verbatim>\<open>parent\<close>, \<^verbatim>\<open>key\<close> and
  \<^verbatim>\<open>container\<close> are \<^verbatim>\<open>null\<close>), in a slot of its parent, or at an index of its parent's array.
\<close>

datatype position = AtRoot | AtSlot node slot | AtIndex node nat "node list"

datatype action =
    Remove
  | RemoveAllNextSiblings
  | RemoveAllPrevSiblings
  | ReplaceWith node
  | Skip
  | Throw string

datatype error = ContainerExpected | TypeError | SparseArray | Thrown string

datatype 'a outcome = OutOfFuel | Failed error | Done 'a

record path =
  p_node :: node
  p_parent :: "node option"
  p_key :: "key option"
  p_container :: "node list option"
  p_ast :: node

type_synonym 's callback = "path \<Rightarrow> 's \<Rightarrow> action list \<times> 's"

text \<open>
  A visitor entry is a function (an \<^verbatim>\<open>enter\<close> callback) or an object with optional
  \<^verbatim>\<open>enter\<close> and \<^verbatim>\<open>exit\<close>; a missing entry has neither.
\<close>

record 's handlers =
  enter :: "'s callback option"
  exit :: "'s callback option"

record 's visitor =
  any_type :: "'s handlers"
  this_type :: "node_type \<Rightarrow> 's handlers"

datatype phase = EnterAny | EnterThis | ExitAny | ExitThis

datatype event = Called phase node "key option"

text \<open>
  The local variables of one \<^verbatim>\<open>traverseNode\<close> call: \<open>cur\<close> is the variable
  \<^verbatim>\<open>node\<close>, \<open>path_node\<close> the object \<^verbatim>\<open>path.node\<close> (the node the call began with),
  \<open>same\<close> tells whether they are still one object, \<open>cont\<close> is the container.
\<close>

record 's tstate =
  cur :: node
  path_node :: node
  same :: bool
  keyShift :: int
  skipTraversingKidsOfPath :: bool
  cont :: "node list option"
  ustate :: 's
  calls :: "event list"

definition with_array :: "node \<Rightarrow> node list \<Rightarrow> node" where
  "with_array n xs =
     (case n of
        AbsentFunction k _ \<Rightarrow> AbsentFunction k xs
      | Alternative _ \<Rightarrow> Alternative xs
      | CapturingGroup num nm _ \<Rightarrow> CapturingGroup num nm xs
      | CharacterClass k ng _ \<Rightarrow> CharacterClass k ng xs
      | Group a f _ \<Rightarrow> Group a f xs
      | LookaroundAssertion k ng _ \<Rightarrow> LookaroundAssertion k ng xs
      | Pattern _ \<Rightarrow> Pattern xs
      | _ \<Rightarrow> n)"

definition with_slot :: "node \<Rightarrow> slot \<Rightarrow> node \<Rightarrow> node" where
  "with_slot p sl n =
     (case p of
        Regex a b \<Rightarrow>
          (case sl of pattern_slot \<Rightarrow> Regex n b | flags_slot \<Rightarrow> Regex a n | _ \<Rightarrow> p)
      | CharacterClassRange a b \<Rightarrow>
          (case sl of min_slot \<Rightarrow> CharacterClassRange n b
                    | max_slot \<Rightarrow> CharacterClassRange a n | _ \<Rightarrow> p)
      | Quantifier k a b e \<Rightarrow>
          (case sl of element_slot \<Rightarrow> Quantifier k a b n | _ \<Rightarrow> p)
      | _ \<Rightarrow> p)"

definition key_of :: "position \<Rightarrow> key option" where
  "key_of pos =
     (case pos of AtRoot \<Rightarrow> None | AtSlot p s \<Rightarrow> Some (Slot s) | AtIndex p k c \<Rightarrow> Some (Idx k))"

definition container_of :: "position \<Rightarrow> node list option" where
  "container_of pos = (case pos of AtIndex p k c \<Rightarrow> Some c | _ \<Rightarrow> None)"

text \<open>\<^verbatim>\<open>Math.max(0, key + keyShift)\<close>, for the index of an array position.\<close>

definition cursor :: "nat \<Rightarrow> int \<Rightarrow> nat" where
  "cursor k ks = nat (max 0 (int k + ks))"

text \<open>\<^verbatim>\<open>array.splice(i, 1)\<close> and the assignment \<^verbatim>\<open>array[i] = v\<close>.  An index beyond
  the length would leave holes in the array; it does not arise, since the cursor never
  exceeds the length of the container.\<close>

definition splice1 :: "nat \<Rightarrow> 'a list \<Rightarrow> 'a list" where
  "splice1 i xs = take i xs @ drop (Suc i) xs"

definition js_set :: "'a list \<Rightarrow> nat \<Rightarrow> 'a \<Rightarrow> 'a list option" where
  "js_set xs i v =
     (if i < length xs then Some (xs[i := v])
      else if i = length xs then Some (xs @ [v])
      else None)"

text \<open>What a callback sees: the parent is the live object, so it holds the current array
  or the current occupant of the slot.\<close>

definition path_view :: "position \<Rightarrow> node \<Rightarrow> 's tstate \<Rightarrow> path" where
  "path_view pos ast st =
     \<lparr>p_node = path_node st,
      p_parent = (case pos of
          AtRoot \<Rightarrow> None
        | AtSlot p s \<Rightarrow> Some (with_slot p s (cur st))
        | AtIndex p k c \<Rightarrow> Some (with_array p (case cont st of Some c' \<Rightarrow> c' | None \<Rightarrow> c))),
      p_key = key_of pos,
      p_container = cont st,
      p_ast = ast\<rparr>"

text \<open>The methods of \<^verbatim>\<open>path\<close>.  \<^verbatim>\<open>throwIfNot(container, \<dots>)\<close> fails on \<^verbatim>\<open>null\<close>;
  \<^verbatim>\<open>parent[key] = newNode\<close> fails when the parent is \<^verbatim>\<open>null\<close>.\<close>

definition remove :: "position \<Rightarrow> 's tstate \<Rightarrow> error + 's tstate" where
  "remove pos st =
     (case (pos, cont st) of
        (AtIndex p k c0, Some c) \<Rightarrow>
          Inr (st\<lparr>cont := Some (splice1 (cursor k (keyShift st)) c),
                  keyShift := keyShift st - 1,
                  skipTraversingKidsOfPath := True\<rparr>)
      | _ \<Rightarrow> Inl ContainerExpected)"

definition removeAllNextSiblings :: "position \<Rightarrow> 's tstate \<Rightarrow> error + 's tstate" where
  "removeAllNextSiblings pos st =
     (case (pos, cont st) of
        (AtIndex p k c0, Some c) \<Rightarrow> Inr (st\<lparr>cont := Some (take (k + 1) c)\<rparr>)
      | _ \<Rightarrow> Inl ContainerExpected)"

definition removeAllPrevSiblings :: "position \<Rightarrow> 's tstate \<Rightarrow> error + 's tstate" where
  "removeAllPrevSiblings pos st =
     (case (pos, cont st) of
        (AtIndex p k c0, Some c) \<Rightarrow>
          (let shifted = int k + keyShift st
           in Inr (st\<lparr>cont := Some (drop (nat (max 0 shifted)) c),
                       keyShift := keyShift st - shifted\<rparr>))
      | _ \<Rightarrow> Inl ContainerExpected)"

definition replaceWith :: "position \<Rightarrow> 's tstate \<Rightarrow> node \<Rightarrow> error + 's tstate" where
  "replaceWith pos st newNode =
     (case (pos, cont st) of
        (AtIndex p k c0, Some c) \<Rightarrow>
          (case js_set c (cursor k (keyShift st)) newNode of
             None \<Rightarrow> Inl SparseArray
           | Some c' \<Rightarrow> Inr (st\<lparr>cont := Some c', cur := newNode, same := False\<rparr>))
      | (AtRoot, _) \<Rightarrow> Inl TypeError
      | _ \<Rightarrow> Inr (st\<lparr>cur := newNode, same := False\<rparr>))"

definition skip :: "'s tstate \<Rightarrow> error + 's tstate" where
  "skip st = Inr (st\<lparr>skipTraversingKidsOfPath := True\<rparr>)"

definition apply_action :: "position \<Rightarrow> 's tstate \<Rightarrow> action \<Rightarrow> error + 's tstate" where
  "apply_action pos st a =
     (case a of
        Remove \<Rightarrow> remove pos st
      | RemoveAllNextSiblings \<Rightarrow> removeAllNextSiblings pos st
      | RemoveAllPrevSiblings \<Rightarrow> removeAllPrevSiblings pos st
      | ReplaceWith newNode \<Rightarrow> replaceWith pos st newNode
      | Skip \<Rightarrow> skip st
      | Throw msg \<Rightarrow> Inl (Thrown msg))"

primrec apply_actions :: "position \<Rightarrow> 's tstate \<Rightarrow> action list \<Rightarrow> error + 's tstate" where
  "apply_actions pos st [] = Inr st"
| "apply_actions pos st (a # as) =
     (case apply_action pos st a of
        Inl e \<Rightarrow> Inl e
      | Inr st' \<Rightarrow> apply_actions pos st' as)"

text \<open>\<^verbatim>\<open>fn?.(path, state)\<close>: the call is recorded, then the path methods it made take effect.\<close>

definition run_callback ::
  "'s callback option \<Rightarrow> phase \<Rightarrow> position \<Rightarrow> node \<Rightarrow> 's tstate \<Rightarrow> error + 's tstate" where
  "run_callback cb ph pos ast st =
     (case cb of
        None \<Rightarrow> Inr st
      | Some f \<Rightarrow>
          (case f (path_view pos ast st) (ustate st) of
             (acts, s') \<Rightarrow>
               apply_actions pos
                 (st\<lparr>ustate := s',
                     calls := calls st @ [Called ph (path_node st) (key_of pos)]\<rparr>)
                 acts))"

text \<open>Sequencing of computations that may fail or run out of fuel.\<close>

definition obind :: "'a outcome \<Rightarrow> ('a \<Rightarrow> 'b outcome) \<Rightarrow> 'b outcome" where
  "obind m f = (case m of OutOfFuel \<Rightarrow> OutOfFuel | Failed e \<Rightarrow> Failed e | Done x \<Rightarrow> f x)"

definition lift :: "error + 'a \<Rightarrow> 'a outcome" where
  "lift r = (case r of Inl e \<Rightarrow> Failed e | Inr x \<Rightarrow> Done x)"

text \<open>The calls made before a walk, put in front of the calls the walk reports.\<close>

definition prepend_calls ::
  "event list \<Rightarrow> ('a \<times> 's \<times> event list) outcome \<Rightarrow> ('a \<times> 's \<times> event list) outcome" where
  "prepend_calls evs0 m =
     (case m of
        OutOfFuel \<Rightarrow> OutOfFuel
      | Failed e \<Rightarrow> Failed e
      | Done (x, s', evs) \<Rightarrow> Done (x, s', evs0 @ evs))"

text \<open>The beginning of \<^verbatim>\<open>traverseNode\<close>: the fresh locals
  (\<^verbatim>\<open>let keyShift = 0; let skipTraversingKidsOfPath = false\<close>), then
  \<^verbatim>\<open>enterAllFn?.(path, state); enterThisFn?.(path, state)\<close>.  The callbacks are looked up
  by the type the node has on entry.\<close>

definition init_state :: "node \<Rightarrow> position \<Rightarrow> 's \<Rightarrow> 's tstate" where
  "init_state n pos s =
     \<lparr>cur = n, path_node = n, same = True, keyShift = 0,
      skipTraversingKidsOfPath = False, cont = container_of pos,
      ustate = s, calls = []\<rparr>"

definition enter_node :: "'s visitor \<Rightarrow> node \<Rightarrow> node \<Rightarrow> position \<Rightarrow> 's \<Rightarrow> error + 's tstate" where
  "enter_node v ast n pos s =
     (case run_callback (enter (any_type v)) EnterAny pos ast (init_state n pos s) of
        Inl e \<Rightarrow> Inl e
      | Inr st1 \<Rightarrow> run_callback (enter (this_type v (type_of n))) EnterThis pos ast st1)"

text \<open>The end of \<^verbatim>\<open>traverseNode\<close>:
  \<^verbatim>\<open>exitAllFn?.(path, state); exitThisFn?.(path, state); return keyShift\<close>.\<close>

definition exit_node :: "'s visitor \<Rightarrow> node \<Rightarrow> node \<Rightarrow> position \<Rightarrow> 's tstate \<Rightarrow> error + 's tstate" where
  "exit_node v ast n pos st =
     (case run_callback (exit (any_type v)) ExitAny pos ast st of
        Inl e \<Rightarrow> Inl e
      | Inr st' \<Rightarrow> run_callback (exit (this_type v (type_of n))) ExitThis pos ast st')"

text \<open>After the kids of \<open>cur\<close> were walked, the node holds them.  In the source this is the
  same object that sits in the container at the cursor (it was never removed, since
  \<^verbatim>\<open>remove\<close> sets the skip flag), so the model stores the new value there.\<close>

definition store_kids :: "position \<Rightarrow> 's tstate \<Rightarrow> node \<times> 's \<times> event list \<Rightarrow> 's tstate" where
  "store_kids pos st r =
     (case r of (n, s', evs) \<Rightarrow>
        (let st1 = st\<lparr>cur := n, path_node := (if same st then n else path_node st),
                      ustate := s', calls := calls st @ evs\<rparr>
         in case (pos, cont st) of
              (AtIndex p k c0, Some c) \<Rightarrow> st1\<lparr>cont := Some (c[cursor k (keyShift st) := n])\<rparr>
            | _ \<Rightarrow> st1))"

text \<open>The \<^verbatim>\<open>switch (node.type)\<close> of \<^verbatim>\<open>traverseNode\<close>: which kids are walked, and how.\<close>

datatype kids = NoKids | ArrayKids "node list" | SlotKids "(slot \<times> node) list"

definition kids_of :: "node \<Rightarrow> kids" where
  "kids_of n =
     (case n of
        Regex pat fl \<Rightarrow> SlotKids [(pattern_slot, pat), (flags_slot, fl)]
      | Alternative els \<Rightarrow> ArrayKids els
      | CharacterClass k ng els \<Rightarrow> ArrayKids els
      | Assertion k ng \<Rightarrow> NoKids
      | Backreference r orph \<Rightarrow> NoKids
      | Character c \<Rightarrow> NoKids
      | CharacterSet k val ng vl \<Rightarrow> NoKids
      | Directive k f \<Rightarrow> NoKids
      | Flags f \<Rightarrow> NoKids
      | Recursion \<Rightarrow> NoKids
      | Subroutine r \<Rightarrow> NoKids
      | AbsentFunction k alts \<Rightarrow> ArrayKids alts
      | CapturingGroup num nm alts \<Rightarrow> ArrayKids alts
      | Group atm f alts \<Rightarrow> ArrayKids alts
      | Pattern alts \<Rightarrow> ArrayKids alts
      | CharacterClassRange mn mx \<Rightarrow> SlotKids [(min_slot, mn), (max_slot, mx)]
      | LookaroundAssertion k ng alts \<Rightarrow> ArrayKids alts
      | Quantifier k mn mx el \<Rightarrow> SlotKids [(element_slot, el)])"

text \<open>The cursor of \<^verbatim>\<open>traverseArray\<close> after a step:
  \<^verbatim>\<open>i = Math.max(-1, i + keyShift); i++\<close>.\<close>

definition next_index :: "nat \<Rightarrow> int \<Rightarrow> nat" where
  "next_index i ks = nat (max (- 1) (int i + ks) + 1)"

fun traverseNode ::
    "nat \<Rightarrow> 's visitor \<Rightarrow> node \<Rightarrow> node \<Rightarrow> position \<Rightarrow> 's \<Rightarrow> 's tstate outcome"
and traverseSlots ::
    "nat \<Rightarrow> 's visitor \<Rightarrow> node \<Rightarrow> node \<Rightarrow> (slot \<times> node) list \<Rightarrow> 's
       \<Rightarrow> (node \<times> 's \<times> event list) outcome"
and traverseArray ::
    "nat \<Rightarrow> 's visitor \<Rightarrow> node \<Rightarrow> node \<Rightarrow> nat \<Rightarrow> node list \<Rightarrow> 's
       \<Rightarrow> (node list \<times> 's \<times> event list) outcome"
where
  "traverseNode 0 v ast n pos s = OutOfFuel"
| "traverseNode (Suc fuel) v ast n pos s =
     obind (lift (enter_node v ast n pos s)) (\<lambda>st.
     obind (if skipTraversingKidsOfPath st then Done st
            else (case kids_of (cur st) of
                    NoKids \<Rightarrow> Done st
                  | ArrayKids xs \<Rightarrow>
                      obind (traverseArray fuel v ast (cur st) 0 xs (ustate st))
                        (\<lambda>(xs', s', evs). Done (store_kids pos st (with_array (cur st) xs', s', evs)))
                  | SlotKids ks \<Rightarrow>
                      obind (traverseSlots fuel v ast (cur st) ks (ustate st))
                        (\<lambda>r. Done (store_kids pos st r))))
       (\<lambda>st'. lift (exit_node v ast n pos st')))"
| "traverseSlots 0 v ast parent ks s = OutOfFuel"
| "traverseSlots (Suc fuel) v ast parent [] s = Done (parent, s, [])"
| "traverseSlots (Suc fuel) v ast parent ((sl, kid) # ks) s =
     obind (traverseNode fuel v ast kid (AtSlot parent sl) s) (\<lambda>st.
       prepend_calls (calls st)
         (traverseSlots fuel v ast (with_slot parent sl (cur st)) ks (ustate st)))"
| "traverseArray 0 v ast parent i array s = OutOfFuel"
| "traverseArray (Suc fuel) v ast parent i array s =
     (if i < length array then
        obind (traverseNode fuel v ast (array ! i)
                 (AtIndex (with_array parent array) i array) s) (\<lambda>st.
          prepend_calls (calls st)
            (traverseArray fuel v ast parent (next_index i (keyShift st))
               (case cont st of Some c \<Rightarrow> c | None \<Rightarrow> array) (ustate st)))
      else Done (array, s, []))"

text \<open>\<^verbatim>\<open>traverse\<close>: the root of the walk is \<^verbatim>\<open>path.ast ?? path.node\<close>.\<close>

definition traverse ::
  "nat \<Rightarrow> node option \<Rightarrow> node \<Rightarrow> position \<Rightarrow> 's \<Rightarrow> 's visitor \<Rightarrow> 's tstate outcome" where
  "traverse fuel path_ast n pos s v =
     traverseNode fuel v (case path_ast of Some a \<Rightarrow> a | None \<Rightarrow> n) n pos s"

text \<open>The middle of \<^verbatim>\<open>traverseNode\<close>: \<^verbatim>\<open>if (!skipTraversingKidsOfPath) switch (node.type) \<dots>\<close>,
  with the kids walked by the functions above.\<close>

definition walk_kids ::
  "nat \<Rightarrow> 's visitor \<Rightarrow> node \<Rightarrow> position \<Rightarrow> 's tstate \<Rightarrow> 's tstate outcome" where
  "walk_kids fuel v ast pos st =
     (if skipTraversingKidsOfPath st then Done st
      else (case kids_of (cur st) of
              NoKids \<Rightarrow> Done st
            | ArrayKids xs \<Rightarrow>
                obind (traverseArray fuel v ast (cur st) 0 xs (ustate st))
                  (\<lambda>(xs', s', evs). Done (store_kids pos st (with_array (cur st) xs', s', evs)))
            | SlotKids ks \<Rightarrow>
                obind (traverseSlots fuel v ast (cur st) ks (ustate st))
                  (\<lambda>r. Done (store_kids pos st r))))"

text \<open>The callback invocations of a finished walk.\<close>

definition outcome_calls :: "'s tstate outcome \<Rightarrow> event list option" where
  "outcome_calls r = (case r of Done st \<Rightarrow> Some (calls st) | _ \<Rightarrow> None)"

text \<open>A visitor with all four callbacks, none of which touches the path.\<close>

definition noop :: "unit callback" where
  "noop p s = ([], s)"

definition noop_handlers :: "unit handlers" where
  "noop_handlers = \<lparr>enter = Some noop, exit = Some noop\<rparr>"

definition noop_visitor :: "unit visitor" where
  "noop_visitor = \<lparr>any_type = noop_handlers, this_type = (\<lambda>t. noop_handlers)\<rparr>"

text \<open>The path methods the enter callbacks of a node call between them, in order, and the
  user state they leave; the callback invocations of the enter phase.\<close>

definition enter_actions ::
  "'s visitor \<Rightarrow> node \<Rightarrow> node \<Rightarrow> position \<Rightarrow> 's \<Rightarrow> action list \<times> 's" where
  "enter_actions v ast n pos s =
     (case (case enter (any_type v) of
              None \<Rightarrow> ([], s)
            | Some f \<Rightarrow> f (path_view pos ast (init_state n pos s)) s) of
        (acts1, s1) \<Rightarrow>
          (case apply_actions pos (init_state n pos s) acts1 of
             Inl e \<Rightarrow> (acts1, s1)
           | Inr st1 \<Rightarrow>
               (case enter (this_type v (type_of n)) of
                  None \<Rightarrow> (acts1, s1)
                | Some g \<Rightarrow>
                    (case g (path_view pos ast st1) s1 of
                       (acts2, s2) \<Rightarrow> (acts1 @ acts2, s2)))))"

definition enter_events :: "'s visitor \<Rightarrow> node \<Rightarrow> position \<Rightarrow> event list" where
  "enter_events v n pos =
     (case enter (any_type v) of None \<Rightarrow> [] | Some f \<Rightarrow> [Called EnterAny n (key_of pos)])
     @ (case enter (this_type v (type_of n)) of
          None \<Rightarrow> [] | Some g \<Rightarrow> [Called EnterThis n (key_of pos)])"

text \<open>The position really holds the node: what \<^verbatim>\<open>traverseArray\<close> and the slot walks
  pass to \<^verbatim>\<open>traverseNode\<close>.\<close>

definition in_parent :: "node \<Rightarrow> position \<Rightarrow> bool" where
  "in_parent n pos =
     (case pos of
        AtRoot \<Rightarrow> False
      | AtSlot p sl \<Rightarrow> True
      | AtIndex p k c \<Rightarrow> k < length c \<and> c ! k = n)"

definition swapped_container :: "position \<Rightarrow> node \<Rightarrow> node list option" where
  "swapped_container pos newNode =
     (case pos of AtIndex p k c \<Rightarrow> Some (c[k := newNode]) | _ \<Rightarrow> None)"

definition swapped_parent :: "position \<Rightarrow> node \<Rightarrow> node option" where
  "swapped_parent pos newNode =
     (case pos of
        AtRoot \<Rightarrow> None
      | AtSlot p sl \<Rightarrow> Some (with_slot p sl newNode)
      | AtIndex p k c \<Rightarrow> Some (with_array p (c[k := newNode])))"

text \<open>The callback invocations that a finished walk of kids reports.\<close>

definition walk_events :: "('a \<times> 's \<times> event list) outcome \<Rightarrow> event list option" where
  "walk_events r = (case r of Done (x, s, evs) \<Rightarrow> Some evs | _ \<Rightarrow> None)"

text \<open>The kid that \<^verbatim>\<open>traverseNode\<close> walks first, with its key.\<close>

definition first_kid :: "node \<Rightarrow> (node \<times> key) option" where
  "first_kid n =
     (case kids_of n of
        NoKids \<Rightarrow> None
      | ArrayKids xs \<Rightarrow> (case xs of [] \<Rightarrow> None | x # rest \<Rightarrow> Some (x, Idx 0))
      | SlotKids ks \<Rightarrow> (case ks of [] \<Rightarrow> None | k # rest \<Rightarrow> Some (snd k, Slot (fst k))))"

text \<open>The parent of a position (\<^verbatim>\<open>path.parent\<close> when the walk begins).\<close>

definition position_parent :: "position \<Rightarrow> node option" where
  "position_parent pos =
     (case pos of AtRoot \<Rightarrow> None | AtSlot p sl \<Rightarrow> Some p | AtIndex p k c \<Rightarrow> Some p)"

text \<open>The node a finished walk leaves at the place of the node it began with.\<close>

definition outcome_node :: "'s tstate outcome \<Rightarrow> node option" where
  "outcome_node r = (case r of Done st \<Rightarrow> Some (cur st) | _ \<Rightarrow> None)"

subsection \<open>Concrete visitors and trees\<close>

definition no_handlers :: "unit handlers" where
  "no_handlers = \<lparr>enter = None, exit = None\<rparr>"

definition drop98 :: "unit callback" where
  "drop98 p s = (if p_node p = Character 98 then ([Remove], s) else ([], s))"

definition drop98_visitor :: "unit visitor" where
  "drop98_visitor =
     \<lparr>any_type = no_handlers,
      this_type = (\<lambda>t. if t = CharacterT then \<lparr>enter = Some drop98, exit = None\<rparr>
                        else no_handlers)\<rparr>"

definition abc :: "node list" where
  "abc = [Character 97, Character 98, Character 99]"

definition removed98 :: "unit tstate" where
  "removed98 =
     \<lparr>cur = Character 98, path_node = Character 98, same = True, keyShift = - 1,
      skipTraversingKidsOfPath = True, cont = Some [Character 97, Character 99],
      ustate = (), calls = [Called EnterThis (Character 98) (Some (Idx (Suc 0)))]\<rparr>"

definition class98 :: node where
  "class98 = CharacterClass union False [Character 98]"

definition swap97 :: "unit callback" where
  "swap97 p s = (if p_node p = Character 97 then ([ReplaceWith class98], s) else ([], s))"

definition swap97_visitor :: "unit visitor" where
  "swap97_visitor =
     \<lparr>any_type = no_handlers,
      this_type = (\<lambda>t. if t = CharacterT then \<lparr>enter = Some swap97, exit = None\<rparr>
                        else no_handlers)\<rparr>"

definition a_and_class :: node where
  "a_and_class = Alternative [Character 97, CharacterClass union False [Character 98]]"

text \<open>The callbacks of the walk of \<open>a_and_class\<close> under a visitor with all four callbacks, in
  the order of \<^verbatim>\<open>traverseNode\<close>, and the state the walk ends in.\<close>

definition a_and_class_calls :: "event list" where
  "a_and_class_calls =
     [Called EnterAny a_and_class None, Called EnterThis a_and_class None,
      Called EnterAny (Character 97) (Some (Idx 0)),
      Called EnterThis (Character 97) (Some (Idx 0)),
      Called ExitAny (Character 97) (Some (Idx 0)),
      Called ExitThis (Character 97) (Some (Idx 0)),
      Called EnterAny (CharacterClass union False [Character 98]) (Some (Idx 1)),
      Called EnterThis (CharacterClass union False [Character 98]) (Some (Idx 1)),
      Called EnterAny (Character 98) (Some (Idx 0)),
      Called EnterThis (Character 98) (Some (Idx 0)),
      Called ExitAny (Character 98) (Some (Idx 0)),
      Called ExitThis (Character 98) (Some (Idx 0)),
      Called ExitAny (CharacterClass union False [Character 98]) (Some (Idx 1)),
      Called ExitThis (CharacterClass union False [Character 98]) (Some (Idx 1)),
      Called ExitAny a_and_class None, Called ExitThis a_and_class None]"

definition a_and_class_final :: "unit tstate" where
  "a_and_class_final =
     \<lparr>cur = a_and_class, path_node = a_and_class, same = True, keyShift = 0,
      skipTraversingKidsOfPath = False, cont = None, ustate = (),
      calls = a_and_class_calls\<rparr>"

section \<open>The parser\<close>

text \<open>
  \<^verbatim>\<open>parse(pattern, options)\<close> of \<^verbatim>\<open>parser/parse.ts\<close>.  The tokenizer is not among the
  sources, so the parser is modelled from the token stream on: \<open>parse\<close> takes what
  \<^verbatim>\<open>tokenize\<close> returns.  A token carries the properties the parser reads.  The cursor
  \<^verbatim>\<open>context.current\<close> into the token array is the list of tokens not yet consumed.
\<close>

datatype group_kind =
    tk_absent_repeater | tk_atomic | tk_capturing | tk_group | tk_lookahead | tk_lookbehind

record group_open =
  g_flags :: "flag_group_modifiers option"
  g_kind :: group_kind
  g_name :: "string option"
  g_negate :: "bool option"
  g_number :: "nat option"

datatype token =
    AlternatorTok
  | AssertionTok string
  | BackreferenceTok string
  | CharacterTok nat
  | CharacterClassCloseTok
  | CharacterClassHyphenTok
  | CharacterClassIntersectorTok
  | CharacterClassOpenTok bool
  | CharacterSetTok set_kind "bool option" "string option"
  | DirectiveTok directive_kind "flag_group_modifiers option"
  | GroupCloseTok
  | GroupOpenTok group_open
  | QuantifierTok nat enat quantifier_kind
  | SubroutineTok string

text \<open>
  Arguments: \<open>AssertionTok kind\<close>, \<open>BackreferenceTok raw\<close>, \<open>CharacterTok value\<close>,
  \<open>CharacterClassOpenTok negate\<close>, \<open>CharacterSetTok kind negate value\<close>,
  \<open>DirectiveTok kind flags\<close>, \<open>QuantifierTok min max kind\<close>, \<open>SubroutineTok raw\<close>.
\<close>

record tokenized =
  tokens :: "token list"
  tk_flags :: regex_flags

text \<open>One constructor for each \<^verbatim>\<open>throw new Error(\<dots>)\<close> of the parser, and
  \<open>MalformedToken\<close> for a token that lacks a property the parser reads.\<close>

datatype parse_error =
    UnexpectedTokenType
  | NumberedRefWithNamedCapture
  | SubroutineNumberNotDefined
  | SubroutineNameNotDefined
  | SubroutineDuplicateName
  | NotEnoughCapturingGroups
  | InvalidBackrefName
  | GroupNameNotDefined
  | InvalidCharacterClassRange
  | NestedAbsentFunction
  | LookbehindNotAllowed
  | QuantifierRequiresRepeatable
  | InvalidSubroutineNumber
  | UnexpectedAssertionKind
  | GroupNameInvalid
  | CodePointOutOfRange
  | CodePointOutOfRangeInJS
  | CharacterClassRangeOutOfOrder
  | ValueExpected
  | InvalidPosixClass
  | InvalidUnicodeProperty
  | UnclosedCharacterClass
  | EmptyCharacterClass
  | UnclosedGroup
  | MalformedToken

datatype 'a parsed = NoFuel | Threw parse_error | Parsed 'a

text \<open>The options of \<^verbatim>\<open>parse\<close> that the parser itself reads (\<^verbatim>\<open>flags\<close> and
  \<^verbatim>\<open>rules.singleline\<close> only go to the tokenizer), and the table \<^verbatim>\<open>PosixClassNames\<close> of
  \<^verbatim>\<open>utils.js\<close>, which is not among the sources.\<close>

record options =
  normalizeUnknownPropertyNames :: bool
  captureGroup :: bool
  skipBackrefValidation :: bool
  skipLookbehindValidation :: bool
  skipPropertyNameValidation :: bool
  unicodePropertyMap :: "(string \<Rightarrow> string option) option"
  PosixClassNames :: "string list"

text \<open>The data shared by the parser functions that changes while parsing.  A capturing
  group is recorded as the node it was when it was opened; only the number of groups and
  their names are read.\<close>

record parse_context =
  capturingGroups :: "node list"
  hasNumberedRef :: bool
  namedGroupsByName :: "(string \<times> node list) list"
  subroutines :: "node list"

record walk_state =
  isCheckingRangeEnd :: bool
  isInAbsentFunction :: bool
  isInLookbehind :: bool
  isInNegLookbehind :: bool

subsection \<open>Strings\<close>

definition backslash :: char where
  "backslash = CHR 0x5C"

definition is_digit :: "char \<Rightarrow> bool" where
  "is_digit c = (48 \<le> (of_char c :: nat) \<and> (of_char c :: nat) \<le> 57)"

definition is_upper :: "char \<Rightarrow> bool" where
  "is_upper c = (65 \<le> (of_char c :: nat) \<and> (of_char c :: nat) \<le> 90)"

definition is_lower :: "char \<Rightarrow> bool" where
  "is_lower c = (97 \<le> (of_char c :: nat) \<and> (of_char c :: nat) \<le> 122)"

definition is_letter :: "char \<Rightarrow> bool" where
  "is_letter c = (is_upper c \<or> is_lower c)"

definition toLowerCase :: "string \<Rightarrow> string" where
  "toLowerCase s = map (\<lambda>c. if is_upper c then char_of ((of_char c :: nat) + 32) else c) s"

definition toUpperCase :: "string \<Rightarrow> string" where
  "toUpperCase s = map (\<lambda>c. if is_lower c then char_of ((of_char c :: nat) - 32) else c) s"

text \<open>The value of a string of decimal digits (\<^verbatim>\<open>+str\<close>).\<close>

definition digits_value :: "string \<Rightarrow> nat" where
  "digits_value s = foldl (\<lambda>acc c. 10 * acc + ((of_char c :: nat) - 48)) 0 s"

text \<open>\<^verbatim>\<open>str.slice(3, -1)\<close> and \<^verbatim>\<open>str.slice(1)\<close>.\<close>

definition slice_3_m1 :: "string \<Rightarrow> string" where
  "slice_3_m1 s = butlast (drop 3 s)"

text \<open>\<^verbatim>\<open>/^(?<sign>[-+]?)0*(?<num>[1-9]\d*)$/.exec(ref)\<close>; with \<open>allow_plus = False\<close> the sign is
  \<^verbatim>\<open>-?\<close>.  The result is the sign (if any) and the number.\<close>

definition numbered_ref :: "bool \<Rightarrow> string \<Rightarrow> (char option \<times> nat) option" where
  "numbered_ref allow_plus r =
     (let signed = (case r of
                      [] \<Rightarrow> False
                    | c # cs \<Rightarrow> c = CHR ''-'' \<or> (allow_plus \<and> c = CHR ''+''));
          sign = (if signed then Some (hd r) else None);
          body = dropWhile (\<lambda>c. c = CHR ''0'') (if signed then tl r else r)
      in if body \<noteq> [] \<and> list_all is_digit body then Some (sign, digits_value body)
         else None)"

text \<open>\<^verbatim>\<open>name.replace(/[- _]+/g, '').toLowerCase()\<close>\<close>

definition slug :: "string \<Rightarrow> string" where
  "slug name = toLowerCase (filter (\<lambda>c. c \<noteq> CHR ''-'' \<and> c \<noteq> CHR '' '' \<and> c \<noteq> CHR ''_'') name)"

text \<open>\<^verbatim>\<open>/^[\p{Alpha}\p{Pc}][^)]*$/u.test(name)\<close>, on ASCII: a letter or an underscore, then
  anything but a closing parenthesis.\<close>

definition isValidGroupName :: "string \<Rightarrow> bool" where
  "isValidGroupName name =
     (case name of
        [] \<Rightarrow> False
      | c # cs \<Rightarrow> (is_letter c \<or> c = CHR ''_'') \<and> CHR '')'' \<notin> set cs)"

text \<open>The three replacements of \<^verbatim>\<open>normalizeUnicodePropertyName\<close>, after \<^verbatim>\<open>trim()\<close>:
  runs of \<^verbatim>\<open>[- _]\<close> become one underscore; an upper-case letter with the lower-case
  letters after it gets an underscore when an upper-case letter follows; every run of letters
  is capitalised.\<close>

definition is_space :: "char \<Rightarrow> bool" where
  "is_space c = ((of_char c :: nat) = 32 \<or> (9 \<le> (of_char c :: nat) \<and> (of_char c :: nat) \<le> 13))"

definition trim :: "string \<Rightarrow> string" where
  "trim s = rev (dropWhile is_space (rev (dropWhile is_space s)))"

definition is_sep :: "char \<Rightarrow> bool" where
  "is_sep c = (c = CHR ''-'' \<or> c = CHR '' '' \<or> c = CHR ''_'')"

primrec collapse_seps :: "bool \<Rightarrow> string \<Rightarrow> string" where
  "collapse_seps in_run [] = []"
| "collapse_seps in_run (c # cs) =
     (if is_sep c then (if in_run then [] else [CHR ''_'']) @ collapse_seps True cs
      else c # collapse_seps False cs)"

text \<open>\<^verbatim>\<open>replace(/[A-Z][a-z]+(?=[A-Z])/g, '$&_')\<close>, read from left to right: \<open>seen\<close> tells
  whether the text just read is an upper-case letter followed by lower-case letters.\<close>

datatype camel = Other | Upper | UpperLower

primrec split_camel :: "camel \<Rightarrow> string \<Rightarrow> string" where
  "split_camel seen [] = []"
| "split_camel seen (c # cs) =
     (if is_upper c then (if seen = UpperLower then [CHR ''_''] else []) @ c # split_camel Upper cs
      else if is_lower c then c # split_camel (if seen = Other then Other else UpperLower) cs
      else c # split_camel Other cs)"

text \<open>\<^verbatim>\<open>replace(/[A-Za-z]+/g, m => m[0].toUpperCase() + m.slice(1).toLowerCase())\<close>\<close>

primrec capitalise :: "bool \<Rightarrow> string \<Rightarrow> string" where
  "capitalise in_run [] = []"
| "capitalise in_run (c # cs) =
     (if is_letter c
      then (if in_run then toLowerCase [c] else toUpperCase [c]) @ capitalise True cs
      else c # capitalise False cs)"

definition normalizeUnicodePropertyName :: "string \<Rightarrow> string" where
  "normalizeUnicodePropertyName name =
     capitalise False (split_camel Other (collapse_seps False (trim name)))"

subsection \<open>Node factories\<close>

text \<open>\<^verbatim>\<open>!!options?.negate\<close>\<close>

definition truthy :: "bool option \<Rightarrow> bool" where
  "truthy b = (b = Some True)"

definition createAlternative :: node where
  "createAlternative = Alternative []"

definition createAbsentFunction :: "absent_kind \<Rightarrow> node" where
  "createAbsentFunction kind = AbsentFunction kind [createAlternative]"

definition createAssertion :: "assertion_kind \<Rightarrow> bool option \<Rightarrow> node" where
  "createAssertion kind negate =
     Assertion kind
       (if kind = word_boundary \<or> kind = grapheme_boundary then Some (truthy negate) else None)"

definition assertion_kinds :: "(string \<times> assertion_kind) list" where
  "assertion_kinds =
     [(''^'', line_start), (''$'', line_end), ([backslash, CHR ''A''], string_start),
      ([backslash, CHR ''b''], word_boundary), ([backslash, CHR ''B''], word_boundary),
      ([backslash, CHR ''G''], search_start), ([backslash, CHR ''y''], grapheme_boundary),
      ([backslash, CHR ''Y''], grapheme_boundary), ([backslash, CHR ''z''], string_end),
      ([backslash, CHR ''Z''], string_end_newline)]"

definition createAssertionFromToken :: "string \<Rightarrow> parse_error + node" where
  "createAssertionFromToken kind =
     (case map_of assertion_kinds kind of
        None \<Rightarrow> Inl UnexpectedAssertionKind
      | Some k \<Rightarrow>
          Inr (createAssertion k
                 (Some (kind = [backslash, CHR ''B''] \<or> kind = [backslash, CHR ''Y'']))))"

definition createBackreference :: "ref \<Rightarrow> bool \<Rightarrow> node" where
  "createBackreference r orphan = Backreference r orphan"

definition createCapturingGroup :: "nat \<Rightarrow> string option \<Rightarrow> parse_error + node" where
  "createCapturingGroup number name =
     (case name of
        None \<Rightarrow> Inr (CapturingGroup number None [createAlternative])
      | Some nm \<Rightarrow>
          (if \<not> isValidGroupName nm then Inl GroupNameInvalid
           else Inr (CapturingGroup number (Some nm) [createAlternative])))"

definition createCharacter :: "nat \<Rightarrow> bool \<Rightarrow> parse_error + node" where
  "createCharacter charCode useLastValid =
     (if charCode > 0x10FFFF then
        (if useLastValid then Inr (Character 0x10FFFF)
         else if charCode > 0x13FFFF then Inl CodePointOutOfRange
         else Inl CodePointOutOfRangeInJS)
      else Inr (Character charCode))"

definition createCharacterClass :: "class_kind \<Rightarrow> bool \<Rightarrow> node" where
  "createCharacterClass kind negate = CharacterClass kind negate []"

definition createCharacterClassRange :: "node \<Rightarrow> node \<Rightarrow> parse_error + node" where
  "createCharacterClassRange mn mx =
     (case (mn, mx) of
        (Character a, Character b) \<Rightarrow>
          (if b < a then Inl CharacterClassRangeOutOfOrder
           else Inr (CharacterClassRange mn mx))
      | _ \<Rightarrow> Inr (CharacterClassRange mn mx))"

definition createCharacterSet :: "set_kind \<Rightarrow> bool option \<Rightarrow> node" where
  "createCharacterSet kind negate =
     CharacterSet kind None
       (if kind = digit \<or> kind = hex \<or> kind = newline \<or> kind = space \<or> kind = word
        then Some (truthy negate) else None)
       (if kind = grapheme \<or> (kind = newline \<and> \<not> truthy negate) then Some True else None)"

definition createDirective ::
  "directive_kind \<Rightarrow> flag_group_modifiers option \<Rightarrow> parse_error + node" where
  "createDirective kind fl =
     (case kind of
        keep \<Rightarrow> Inr (Directive keep None)
      | flags_directive \<Rightarrow>
          (case fl of
             None \<Rightarrow> Inl ValueExpected
           | Some f \<Rightarrow> Inr (Directive flags_directive (Some f))))"

definition createFlags :: "regex_flags \<Rightarrow> node" where
  "createFlags fl = Flags fl"

definition createGroup :: "bool option \<Rightarrow> flag_group_modifiers option \<Rightarrow> node" where
  "createGroup atomic fl = Group (truthy atomic) fl [createAlternative]"

definition createLookaroundAssertion :: "bool \<Rightarrow> bool option \<Rightarrow> node" where
  "createLookaroundAssertion behind negate =
     LookaroundAssertion (if behind then lookbehind else lookahead) (truthy negate)
       [createAlternative]"

definition createPattern :: node where
  "createPattern = Pattern [createAlternative]"

definition createPosixClass :: "options \<Rightarrow> string \<Rightarrow> bool option \<Rightarrow> parse_error + node" where
  "createPosixClass opts name negate =
     (if name \<notin> set (PosixClassNames opts) then Inl InvalidPosixClass
      else Inr (CharacterSet posix (Some name) (Some (truthy negate)) None))"

text \<open>\<^verbatim>\<open>if (max < min)\<close> swaps the bounds; \<open>max\<close> is then a finite number.\<close>

definition createQuantifier :: "node \<Rightarrow> nat \<Rightarrow> enat \<Rightarrow> quantifier_kind \<Rightarrow> node" where
  "createQuantifier element mn mx kind =
     (case mx of
        enat m \<Rightarrow>
          (if m < mn then Quantifier possessive m (enat mn) element
           else Quantifier kind mn mx element)
      | \<infinity> \<Rightarrow> Quantifier kind mn mx element)"

definition createRegex :: "node \<Rightarrow> node \<Rightarrow> node" where
  "createRegex pat fl = Regex pat fl"

definition createSubroutine :: "ref \<Rightarrow> node" where
  "createSubroutine r = Subroutine r"

text \<open>\<^verbatim>\<open>createUnicodeProperty(name, options)\<close>; \<^verbatim>\<open>!normalized\<close> holds for a missing entry
  and for the empty string.\<close>

definition createUnicodeProperty ::
  "string \<Rightarrow> bool option \<Rightarrow> bool \<Rightarrow> bool \<Rightarrow> (string \<Rightarrow> string option) option
     \<Rightarrow> parse_error + node" where
  "createUnicodeProperty name negate normalizeUnknown skipValidation propertyMap =
     (let found = (case propertyMap of None \<Rightarrow> None | Some m \<Rightarrow> m (slug name));
          known = (case found of None \<Rightarrow> None | Some n \<Rightarrow> if n = [] then None else Some n)
      in case known of
           Some n \<Rightarrow> Inr (CharacterSet property (Some n) negate None)
         | None \<Rightarrow>
             (if normalizeUnknown
              then Inr (CharacterSet property (Some (normalizeUnicodePropertyName name)) negate None)
              else if propertyMap \<noteq> None \<and> \<not> skipValidation then Inl InvalidUnicodeProperty
              else Inr (CharacterSet property
                          (Some (case found of Some n \<Rightarrow> n | None \<Rightarrow> name)) negate None)))"

definition isLookahead :: "node \<Rightarrow> bool" where
  "isLookahead n = (case n of LookaroundAssertion k ng alts \<Rightarrow> k = lookahead | _ \<Rightarrow> False)"

definition isLookbehind :: "node \<Rightarrow> bool" where
  "isLookbehind n = (case n of LookaroundAssertion k ng alts \<Rightarrow> k = lookbehind | _ \<Rightarrow> False)"

text \<open>\<^verbatim>\<open>node.negate\<close> of a lookaround.\<close>

definition lookaround_negate :: "node \<Rightarrow> bool" where
  "lookaround_negate n = (case n of LookaroundAssertion k ng alts \<Rightarrow> ng | _ \<Rightarrow> False)"

text \<open>\<^verbatim>\<open>createByGroupKind\<close>.  A capturing token carries its number
  (\<^verbatim>\<open>number!\<close>); one without is not a token of the tokenizer.\<close>

definition createByGroupKind :: "group_open \<Rightarrow> parse_error + node" where
  "createByGroupKind tok =
     (case g_kind tok of
        tk_absent_repeater \<Rightarrow> Inr (createAbsentFunction Repeater)
      | tk_atomic \<Rightarrow> Inr (createGroup (Some True) None)
      | tk_capturing \<Rightarrow>
          (case g_number tok of
             None \<Rightarrow> Inl MalformedToken
           | Some n \<Rightarrow> createCapturingGroup n (g_name tok))
      | tk_group \<Rightarrow> Inr (createGroup None (g_flags tok))
      | tk_lookahead \<Rightarrow> Inr (createLookaroundAssertion False (g_negate tok))
      | tk_lookbehind \<Rightarrow> Inr (createLookaroundAssertion True (g_negate tok)))"

subsection \<open>Parsing one token\<close>

definition pbind :: "'a parsed \<Rightarrow> ('a \<Rightarrow> 'b parsed) \<Rightarrow> 'b parsed" where
  "pbind m f = (case m of NoFuel \<Rightarrow> NoFuel | Threw e \<Rightarrow> Threw e | Parsed x \<Rightarrow> f x)"

definition plift :: "parse_error + 'a \<Rightarrow> 'a parsed" where
  "plift r = (case r of Inl e \<Rightarrow> Threw e | Inr x \<Rightarrow> Parsed x)"

text \<open>\<^verbatim>\<open>getOrInsert(namedGroupsByName, node.name, []).push(node)\<close>\<close>

primrec add_named :: "string \<Rightarrow> node \<Rightarrow> (string \<times> node list) list \<Rightarrow> (string \<times> node list) list" where
  "add_named nm n [] = [(nm, [n])]"
| "add_named nm n (e # es) =
     (if fst e = nm then (nm, snd e @ [n]) # es else e # add_named nm n es)"

text \<open>The local function \<^verbatim>\<open>fromNum\<close> of \<^verbatim>\<open>parseBackreference\<close>.\<close>

definition fromNum ::
  "options \<Rightarrow> parse_context \<Rightarrow> nat \<Rightarrow> bool \<Rightarrow> parse_error + (node \<times> parse_context)" where
  "fromNum opts ctx num isRelative =
     (let numCapturesToLeft = length (capturingGroups ctx)
      in if num > numCapturesToLeft \<and> \<not> skipBackrefValidation opts
         then Inl NotEnoughCapturingGroups
         else Inr (createBackreference
                     (RefNum (if isRelative then int numCapturesToLeft + 1 - int num
                              else int num))
                     (num > numCapturesToLeft),
                   ctx\<lparr>hasNumberedRef := True\<rparr>))"

text \<open>\<^verbatim>\<open>parseBackreference\<close>.  A token without the \<^verbatim>\<open>\k\<close> wrapper is a backslash and
  decimal digits; anything else is not a token of the tokenizer.\<close>

definition parseBackreference ::
  "options \<Rightarrow> parse_context \<Rightarrow> string \<Rightarrow> parse_error + (node \<times> parse_context)" where
  "parseBackreference opts ctx raw =
     (let hasKWrapper =
            (case raw of
               c1 # c2 # c3 # cs \<Rightarrow>
                 c1 = backslash \<and> c2 = CHR ''k'' \<and> (c3 = CHR ''<'' \<or> c3 = CHR 0x27)
             | _ \<Rightarrow> False);
          r = (if hasKWrapper then slice_3_m1 raw else drop 1 raw)
      in if hasKWrapper then
           (case numbered_ref False r of
              Some (sign, num) \<Rightarrow> fromNum opts ctx num (sign \<noteq> None)
            | None \<Rightarrow>
                (if CHR ''-'' \<in> set r \<or> CHR ''+'' \<in> set r then Inl InvalidBackrefName
                 else if map_of (namedGroupsByName ctx) r = None then Inl GroupNameNotDefined
                 else Inr (createBackreference (RefName r) False, ctx)))
         else if r \<noteq> [] \<and> list_all is_digit r then fromNum opts ctx (digits_value r) False
         else Inl MalformedToken)"

definition parseSubroutine ::
  "parse_context \<Rightarrow> string \<Rightarrow> parse_error + (node \<times> parse_context)" where
  "parseSubroutine ctx raw =
     (let r = slice_3_m1 raw;
          numCapturesToLeft = int (length (capturingGroups ctx))
      in case numbered_ref True r of
           Some (sign, num) \<Rightarrow>
             (let n = (case sign of
                         None \<Rightarrow> int num
                       | Some c \<Rightarrow> if c = CHR ''+'' then numCapturesToLeft + int num
                                   else numCapturesToLeft + 1 - int num)
              in if n < 1 then Inl InvalidSubroutineNumber
                 else Inr (createSubroutine (RefNum n),
                           ctx\<lparr>hasNumberedRef := True,
                               subroutines := subroutines ctx @ [createSubroutine (RefNum n)]\<rparr>))
         | None \<Rightarrow>
             (let rf = (if r = ''0'' then RefNum 0 else RefName r)
              in Inr (createSubroutine rf,
                      ctx\<lparr>subroutines := subroutines ctx @ [createSubroutine rf]\<rparr>)))"

definition parseCharacterSet ::
  "options \<Rightarrow> set_kind \<Rightarrow> bool option \<Rightarrow> string option \<Rightarrow> parse_error + node" where
  "parseCharacterSet opts kind negate val =
     (if kind = property then
        (case val of
           None \<Rightarrow> Inl MalformedToken
         | Some v \<Rightarrow>
             (let normalized = slug v
              in if normalized \<in> set (PosixClassNames opts)
                    \<and> \<not> (case unicodePropertyMap opts of
                           None \<Rightarrow> False
                         | Some m \<Rightarrow> m normalized \<noteq> None)
                 then createPosixClass opts normalized negate
                 else createUnicodeProperty v negate (normalizeUnknownPropertyNames opts)
                        (skipPropertyNameValidation opts) (unicodePropertyMap opts)))
      else if kind = posix then
        (case val of
           None \<Rightarrow> Inl InvalidPosixClass
         | Some v \<Rightarrow> createPosixClass opts v negate)
      else Inr (createCharacterSet kind negate))"

text \<open>\<^verbatim>\<open>parseQuantifier\<close>: \<open>elems\<close> are the elements of the parent; the quantified node is
  taken off them.\<close>

definition parseQuantifier ::
  "node list \<Rightarrow> nat \<Rightarrow> enat \<Rightarrow> quantifier_kind \<Rightarrow> parse_error + (node \<times> node list)" where
  "parseQuantifier elems mn mx kind =
     (if elems = []
         \<or> type_of (last elems) = AssertionT
         \<or> type_of (last elems) = DirectiveT
         \<or> type_of (last elems) = LookaroundAssertionT
      then Inl QuantifierRequiresRepeatable
      else Inr (createQuantifier (last elems) mn mx kind, butlast elems))"

text \<open>The tokens \<^verbatim>\<open>walk\<close> handles without walking further.  The result is the node, the
  elements of the parent, the tokens left and the context.\<close>

definition walk_token ::
  "options \<Rightarrow> parse_context \<Rightarrow> walk_state \<Rightarrow> node list \<Rightarrow> token \<Rightarrow> token list
     \<Rightarrow> (node \<times> node list \<times> token list \<times> parse_context) parsed" where
  "walk_token opts ctx st elems t ts =
     (case t of
        AlternatorTok \<Rightarrow> Parsed (createAlternative, elems, ts, ctx)
      | AssertionTok kind \<Rightarrow>
          pbind (plift (createAssertionFromToken kind)) (\<lambda>n. Parsed (n, elems, ts, ctx))
      | BackreferenceTok raw \<Rightarrow>
          pbind (plift (parseBackreference opts ctx raw)) (\<lambda>(n, ctx'). Parsed (n, elems, ts, ctx'))
      | CharacterTok v \<Rightarrow>
          pbind (plift (createCharacter v (isCheckingRangeEnd st)))
            (\<lambda>n. Parsed (n, elems, ts, ctx))
      | CharacterSetTok kind negate val \<Rightarrow>
          pbind (plift (parseCharacterSet opts kind negate val))
            (\<lambda>n. Parsed (n, elems, ts, ctx))
      | DirectiveTok kind fl \<Rightarrow>
          pbind (plift (createDirective kind fl)) (\<lambda>n. Parsed (n, elems, ts, ctx))
      | QuantifierTok mn mx kind \<Rightarrow>
          pbind (plift (parseQuantifier elems mn mx kind))
            (\<lambda>(n, elems'). Parsed (n, elems', ts, ctx))
      | SubroutineTok raw \<Rightarrow>
          pbind (plift (parseSubroutine ctx raw)) (\<lambda>(n, ctx'). Parsed (n, elems, ts, ctx'))
      | _ \<Rightarrow> Threw UnexpectedTokenType)"

text \<open>The test of \<^verbatim>\<open>parseCharacterClassHyphen\<close> on the previous sibling and the next
  token.\<close>

definition hyphen_is_range :: "walk_state \<Rightarrow> node list \<Rightarrow> token list \<Rightarrow> bool" where
  "hyphen_is_range st elems ts =
     (\<not> isCheckingRangeEnd st
      \<and> elems \<noteq> []
      \<and> type_of (last elems) \<noteq> CharacterClassT
      \<and> type_of (last elems) \<noteq> CharacterClassRangeT
      \<and> (case ts of
            [] \<Rightarrow> False
          | CharacterClassOpenTok ng # rest \<Rightarrow> False
          | CharacterClassCloseTok # rest \<Rightarrow> False
          | CharacterClassIntersectorTok # rest \<Rightarrow> False
          | _ \<Rightarrow> True))"

text \<open>The end of \<^verbatim>\<open>parseCharacterClassHyphen\<close>, after the node behind the hyphen was
  walked.\<close>

definition finish_range ::
  "node list \<Rightarrow> node \<times> node list \<times> token list \<times> parse_context
     \<Rightarrow> (node \<times> node list \<times> token list \<times> parse_context) parsed" where
  "finish_range elems r =
     (case r of (nextNode, elems', rest, ctx') \<Rightarrow>
        (if type_of (last elems) = CharacterT \<and> type_of nextNode = CharacterT
         then pbind (plift (createCharacterClassRange (last elems) nextNode))
                (\<lambda>n. Parsed (n, butlast elems', rest, ctx'))
         else Threw InvalidCharacterClassRange))"

text \<open>The end of \<^verbatim>\<open>parseCharacterClassOpen\<close>: the class built from the intersection
  segments, each given by its elements.\<close>

definition finish_class :: "bool \<Rightarrow> node list list \<Rightarrow> node" where
  "finish_class negate inters =
     (if length inters = 1 then CharacterClass union negate (hd inters)
      else CharacterClass intersection negate
             (map (\<lambda>els. if length els = 1 then hd els else CharacterClass union False els)
                inters))"

text \<open>\<^verbatim>\<open>throwIfUnclosedCharacterClass(token, firstClassToken)\<close> on a missing token.\<close>

definition unclosed_class :: "token \<Rightarrow> parse_error" where
  "unclosed_class firstClassToken =
     (if firstClassToken = CharacterTok 93 then EmptyCharacterClass else UnclosedCharacterClass)"

text \<open>The beginning of \<^verbatim>\<open>parseGroupOpen\<close>: the node, the registration of a capturing
  group, the test for nested absent functions.\<close>

definition open_group ::
  "parse_context \<Rightarrow> walk_state \<Rightarrow> group_open \<Rightarrow> parse_error + (node \<times> parse_context)" where
  "open_group ctx st tok =
     (case createByGroupKind tok of
        Inl e \<Rightarrow> Inl e
      | Inr n \<Rightarrow>
          (let ctx' =
                 (case n of
                    CapturingGroup num nm alts \<Rightarrow>
                      ctx\<lparr>capturingGroups := capturingGroups ctx @ [n],
                          namedGroupsByName :=
                            (case nm of
                               None \<Rightarrow> namedGroupsByName ctx
                             | Some name \<Rightarrow>
                                 if name = [] then namedGroupsByName ctx
                                 else add_named name n (namedGroupsByName ctx))\<rparr>
                  | _ \<Rightarrow> ctx)
           in if type_of n = AbsentFunctionT \<and> isInAbsentFunction st
              then Inl NestedAbsentFunction
              else Inr (n, ctx')))"

text \<open>The state handed to the walk of a child of a group.\<close>

definition child_state :: "walk_state \<Rightarrow> node \<Rightarrow> walk_state" where
  "child_state st n =
     st\<lparr>isInAbsentFunction := isInAbsentFunction st \<or> type_of n = AbsentFunctionT,
        isInLookbehind := isInLookbehind st \<or> isLookbehind n,
        isInNegLookbehind := isInNegLookbehind st \<or> (isLookbehind n \<and> lookaround_negate n)\<rparr>"

text \<open>The centralized validation of lookbehind contents: whether \<^verbatim>\<open>parseGroupOpen\<close>, for
  the group \<open>n\<close> entered in state \<open>st\<close>, throws on the child just parsed.\<close>

definition lookbehind_violation :: "options \<Rightarrow> walk_state \<Rightarrow> node \<Rightarrow> node \<Rightarrow> bool" where
  "lookbehind_violation opts st n child =
     ((isLookbehind n \<or> isInLookbehind st) \<and> \<not> skipLookbehindValidation opts
      \<and> (if (isLookbehind n \<and> lookaround_negate n) \<or> isInNegLookbehind st
         then isLookahead child \<or> type_of child = CapturingGroupT
         else isLookahead child \<or> (isLookbehind child \<and> lookaround_negate child)))"

subsection \<open>The walk\<close>

text \<open>
  \<^verbatim>\<open>walk\<close> with the loops of \<^verbatim>\<open>parseCharacterClassOpen\<close> and \<^verbatim>\<open>parseGroupOpen\<close>.  A class
  under construction is the list of its intersection segments, a group the list of its
  alternatives, each given by its elements; the last one is the one being filled.  The
  recursion carries fuel, one unit per call; \<open>parse\<close> below provides enough of it.
\<close>

fun walk ::
    "nat \<Rightarrow> options \<Rightarrow> parse_context \<Rightarrow> walk_state \<Rightarrow> node list \<Rightarrow> token list
       \<Rightarrow> (node \<times> node list \<times> token list \<times> parse_context) parsed"
and classLoop ::
    "nat \<Rightarrow> options \<Rightarrow> parse_context \<Rightarrow> walk_state \<Rightarrow> token \<Rightarrow> node list list \<Rightarrow> token list
       \<Rightarrow> (node list list \<times> token list \<times> parse_context) parsed"
and groupLoop ::
    "nat \<Rightarrow> options \<Rightarrow> parse_context \<Rightarrow> walk_state \<Rightarrow> node \<Rightarrow> node list list \<Rightarrow> token list
       \<Rightarrow> (node list list \<times> token list \<times> parse_context) parsed"
where
  "walk 0 opts ctx st elems ts = NoFuel"
| "walk (Suc fuel) opts ctx st elems [] = Threw MalformedToken"
| "walk (Suc fuel) opts ctx st elems (t # ts) =
     (case t of
        CharacterClassHyphenTok \<Rightarrow>
          (if hyphen_is_range st elems ts
           then pbind (walk fuel opts ctx (st\<lparr>isCheckingRangeEnd := True\<rparr>) elems ts)
                  (finish_range elems)
           else pbind (plift (createCharacter 45 False)) (\<lambda>n. Parsed (n, elems, ts, ctx)))
      | CharacterClassOpenTok negate \<Rightarrow>
          (case ts of
             [] \<Rightarrow> Threw UnclosedCharacterClass
           | firstClassToken # rest \<Rightarrow>
               pbind (classLoop fuel opts ctx st firstClassToken [[]] ts)
                 (\<lambda>(inters, rest', ctx'). Parsed (finish_class negate inters, elems, rest', ctx')))
      | GroupOpenTok tok \<Rightarrow>
          pbind (plift (open_group ctx st tok)) (\<lambda>(n, ctx1).
          pbind (groupLoop fuel opts ctx1 st n [[]] ts)
            (\<lambda>(alts, rest', ctx'). Parsed (with_array n (map Alternative alts), elems, rest', ctx')))
      | _ \<Rightarrow> walk_token opts ctx st elems t ts)"
| "classLoop 0 opts ctx st firstClassToken inters ts = NoFuel"
| "classLoop (Suc fuel) opts ctx st firstClassToken inters [] =
     Threw (unclosed_class firstClassToken)"
| "classLoop (Suc fuel) opts ctx st firstClassToken inters (nextToken # rest) =
     (if nextToken = CharacterClassCloseTok then Parsed (inters, rest, ctx)
      else if nextToken = CharacterClassIntersectorTok
      then classLoop fuel opts ctx st firstClassToken (inters @ [[]]) rest
      else pbind (walk fuel opts ctx st (last inters) (nextToken # rest))
             (\<lambda>(n, elems', rest', ctx').
                 classLoop fuel opts ctx' st firstClassToken
                   (butlast inters @ [elems' @ [n]]) rest'))"
| "groupLoop 0 opts ctx st n alts ts = NoFuel"
| "groupLoop (Suc fuel) opts ctx st n alts [] = Threw UnclosedGroup"
| "groupLoop (Suc fuel) opts ctx st n alts (nextToken # rest) =
     (if nextToken = GroupCloseTok then Parsed (alts, rest, ctx)
      else if nextToken = AlternatorTok
      then groupLoop fuel opts ctx st n (alts @ [[]]) rest
      else pbind (walk fuel opts ctx (child_state st n) (last alts) (nextToken # rest))
             (\<lambda>(child, elems', rest', ctx').
                 if lookbehind_violation opts st n child then Threw LookbehindNotAllowed
                 else groupLoop fuel opts ctx' st n (butlast alts @ [elems' @ [child]]) rest'))"

subsection \<open>The whole pattern\<close>

text \<open>The loop of \<^verbatim>\<open>parse\<close> over the top-level tokens; \<open>alts\<close> are the alternatives of
  the pattern, the last one being \<^verbatim>\<open>top\<close>.\<close>

definition empty_state :: walk_state where
  "empty_state = \<lparr>isCheckingRangeEnd = False, isInAbsentFunction = False,
                  isInLookbehind = False, isInNegLookbehind = False\<rparr>"

fun topLoop ::
  "nat \<Rightarrow> options \<Rightarrow> parse_context \<Rightarrow> node list list \<Rightarrow> token list
     \<Rightarrow> (node list list \<times> parse_context) parsed" where
  "topLoop 0 opts ctx alts ts = NoFuel"
| "topLoop (Suc fuel) opts ctx alts [] = Parsed (alts, ctx)"
| "topLoop (Suc fuel) opts ctx alts (t # ts) =
     pbind (walk fuel opts ctx empty_state (last alts) (t # ts))
       (\<lambda>(n, elems', rest, ctx').
           (case n of
              Alternative els \<Rightarrow> topLoop fuel opts ctx' (butlast alts @ [elems'] @ [els]) rest
            | _ \<Rightarrow> topLoop fuel opts ctx' (butlast alts @ [elems' @ [n]]) rest))"

text \<open>The validation that needs the whole pattern: the first error it finds, if any.\<close>

definition check_subroutine :: "parse_context \<Rightarrow> node \<Rightarrow> parse_error option" where
  "check_subroutine ctx n =
     (case n of
        Subroutine (RefNum r) \<Rightarrow>
          (if r > int (length (capturingGroups ctx)) then Some SubroutineNumberNotDefined
           else None)
      | Subroutine (RefName nm) \<Rightarrow>
          (case map_of (namedGroupsByName ctx) nm of
             None \<Rightarrow> Some SubroutineNameNotDefined
           | Some gs \<Rightarrow> if length gs > 1 then Some SubroutineDuplicateName else None)
      | _ \<Rightarrow> None)"

definition validate :: "options \<Rightarrow> parse_context \<Rightarrow> parse_error option" where
  "validate opts ctx =
     (if hasNumberedRef ctx \<and> namedGroupsByName ctx \<noteq> [] \<and> \<not> captureGroup opts
      then Some NumberedRefWithNamedCapture
      else (case List.map_filter (check_subroutine ctx) (subroutines ctx) of
              [] \<Rightarrow> None
            | e # es \<Rightarrow> Some e))"

definition initial_context :: parse_context where
  "initial_context = \<lparr>capturingGroups = [], hasNumberedRef = False,
                      namedGroupsByName = [], subroutines = []\<rparr>"

text \<open>\<^verbatim>\<open>parse\<close>, from the result of the tokenizer on.  Two units of fuel per token and two
  more are enough for every token list (\<open>parse_returns\<close> below).\<close>

definition parse :: "options \<Rightarrow> tokenized \<Rightarrow> node parsed" where
  "parse opts tokenized =
     pbind (topLoop (2 * length (tokens tokenized) + 2) opts initial_context [[]]
              (tokens tokenized))
       (\<lambda>(alts, ctx).
           (case validate opts ctx of
              Some e \<Rightarrow> Threw e
            | None \<Rightarrow>
                Parsed (createRegex (with_array createPattern (map Alternative alts))
                          (createFlags (tk_flags tokenized)))))"

section \<open>Optimizer transforms\<close>

text \<open>
  A transform is a visitor.  Its callback is modelled by the function that computes the node
  handed to \<^verbatim>\<open>replaceWith\<close>, if any, from the data of the path the callback reads; the
  visitor wraps it.
\<close>

subsection \<open>use-shorthands\<close>





definition no_callbacks :: "'s handlers" where
  "no_callbacks = \<lparr>enter = None, exit = None\<rparr>"



subsection \<open>unwrap-negation-wrappers\<close>

text \<open>\<^verbatim>\<open>kid.negate = !kid.negate\<close> on a character set.\<close>

definition flip_negate :: "node \<Rightarrow> node" where
  "flip_negate n =
     (case n of
        CharacterSet kind val negate vl \<Rightarrow> CharacterSet kind val (Some (\<not> truthy negate)) vl
      | _ \<Rightarrow> n)"

text \<open>\<^verbatim>\<open>parent.kind\<close> of a quantifier.\<close>

definition is_lazy_quantifier :: "node \<Rightarrow> bool" where
  "is_lazy_quantifier n = (case n of Quantifier kind mn mx el \<Rightarrow> kind = lazy | _ \<Rightarrow> False)"

text \<open>
  The \<^verbatim>\<open>CharacterClass\<close> callback of \<^verbatim>\<open>unwrapNegationWrappers\<close>: the node handed to
  \<^verbatim>\<open>replaceWith\<close>, if any.  Reading \<^verbatim>\<open>parent!.type\<close> fails when there is no parent.
\<close>

definition unwrapNegationWrappers_CharacterClass ::
  "node option \<Rightarrow> node \<Rightarrow> error + node option" where
  "unwrapNegationWrappers_CharacterClass parent n =
     (case n of
        CharacterClass kind negate elements \<Rightarrow>
          (if \<not> negate \<or> kind \<noteq> union \<or> length elements \<noteq> 1 then Inr None
           else (let kid = hd elements
                 in if type_of kid = CharacterSetT then Inr (Some (flip_negate kid))
                    else (case parent of
                            None \<Rightarrow> Inl TypeError
                          | Some par \<Rightarrow>
                              (if type_of par \<noteq> CharacterClassT \<and> kid = Character 10
                               then (if type_of par = QuantifierT \<and> \<not> is_lazy_quantifier par
                                     then Inr None
                                     else Inr (Some (createCharacterSet newline (Some True))))
                               else Inr None))))
      | _ \<Rightarrow> Inr None)"

definition unwrapNegationWrappers_callback :: "'s callback" where
  "unwrapNegationWrappers_callback p s =
     (case unwrapNegationWrappers_CharacterClass (p_parent p) (p_node p) of
        Inl e \<Rightarrow> ([Throw ''TypeError''], s)
      | Inr None \<Rightarrow> ([], s)
      | Inr (Some newNode) \<Rightarrow> ([ReplaceWith newNode], s))"

definition unwrapNegationWrappers :: "'s visitor" where
  "unwrapNegationWrappers =
     \<lparr>any_type = no_callbacks,
      this_type = (\<lambda>t. if t = CharacterClassT
                        then \<lparr>enter = Some unwrapNegationWrappers_callback, exit = None\<rparr>
                        else no_callbacks)\<rparr>"

subsection \<open>Concrete options and token streams\<close>

definition default_flags :: regex_flags where
  "default_flags = \<lparr>ignoreCase = False, dotAll = False, extended = False,
      digitIsAscii = False, spaceIsAscii = False, wordIsAscii = False,
      posixIsAscii = False, textSegmentMode = None\<rparr>"

text \<open>The defaults of \<^verbatim>\<open>parse\<close>, with the POSIX class names of Oniguruma.\<close>

definition default_options :: options where
  "default_options = \<lparr>normalizeUnknownPropertyNames = False, captureGroup = False,
      skipBackrefValidation = False, skipLookbehindValidation = False,
      skipPropertyNameValidation = False, unicodePropertyMap = None,
      PosixClassNames = [''alnum'', ''alpha'', ''ascii'', ''blank'', ''cntrl'', ''digit'',
        ''graph'', ''lower'', ''print'', ''punct'', ''space'', ''upper'', ''word'', ''xdigit'']\<rparr>"

text \<open>The tokens of \<^verbatim>\<open>a{3,1}\<close>.\<close>

definition a_3_1 :: tokenized where
  "a_3_1 = \<lparr>tokens = [CharacterTok 97, QuantifierTok 3 (enat 1) greedy],
            tk_flags = default_flags\<rparr>"

text \<open>The token of \<^verbatim>\<open>\p{Digit}\<close> and the one of \<^verbatim>\<open>[:digit:]\<close> inside a class.\<close>

definition p_digit :: token where
  "p_digit = CharacterSetTok property (Some False) (Some ''Digit'')"

definition posix_digit :: token where
  "posix_digit = CharacterSetTok posix (Some False) (Some ''digit'')"

definition not_newline :: node where
  "not_newline = CharacterClass union True [Character 10]"

definition not_newline_set :: node where
  "not_newline_set = CharacterSet newline None (Some True) None"

text \<open>\<^verbatim>\<open>a[^\n][^\n]{2}[^\n]*?\<close> and what unwrap-negation-wrappers makes of it.\<close>

definition newline_classes :: node where
  "newline_classes =
     Regex (Pattern [Alternative
              [Character 97, not_newline, Quantifier greedy 2 (enat 2) not_newline,
               Quantifier lazy 0 \<infinity> not_newline]])
       (Flags default_flags)"

definition newline_classes_unwrapped :: node where
  "newline_classes_unwrapped =
     Regex (Pattern [Alternative
              [Character 97, not_newline_set, Quantifier greedy 2 (enat 2) not_newline,
               Quantifier lazy 0 \<infinity> not_newline_set]])
       (Flags default_flags)"




text \<open>Group tokens: \<^verbatim>\<open>(?<=\<close> and \<^verbatim>\<open>(?<!\<close>, \<^verbatim>\<open>(?=\<close> and \<^verbatim>\<open>(?!\<close>, a capturing \<^verbatim>\<open>(\<close> with its
  number, \<^verbatim>\<open>(?:\<close>.\<close>

definition lb_open :: "bool \<Rightarrow> token" where
  "lb_open neg = GroupOpenTok \<lparr>g_flags = None, g_kind = tk_lookbehind, g_name = None,
                               g_negate = Some neg, g_number = None\<rparr>"

definition la_open :: "bool \<Rightarrow> token" where
  "la_open neg = GroupOpenTok \<lparr>g_flags = None, g_kind = tk_lookahead, g_name = None,
                               g_negate = Some neg, g_number = None\<rparr>"

definition cap_open :: "nat \<Rightarrow> token" where
  "cap_open n = GroupOpenTok \<lparr>g_flags = None, g_kind = tk_capturing, g_name = None,
                              g_negate = None, g_number = Some n\<rparr>"

definition grp_open :: token where
  "grp_open = GroupOpenTok \<lparr>g_flags = None, g_kind = tk_group, g_name = None,
                            g_negate = None, g_number = None\<rparr>"

definition tokens_of :: "token list \<Rightarrow> tokenized" where
  "tokens_of ts = \<lparr>tokens = ts, tk_flags = default_flags\<rparr>"

definition skipping_options :: options where
  "skipping_options = default_options\<lparr>skipLookbehindValidation := True\<rparr>"

text \<open>\<^verbatim>\<open>(a|b)\<close>\<close>

definition a_or_b :: tokenized where
  "a_or_b = tokens_of [cap_open 1, CharacterTok 97, AlternatorTok, CharacterTok 98,
                       GroupCloseTok]"

definition a_or_b_ast :: node where
  "a_or_b_ast =
     Regex (Pattern [Alternative
              [CapturingGroup 1 None [Alternative [Character 97], Alternative [Character 98]]]])
       (Flags default_flags)"

text \<open>\<^verbatim>\<open>(?<=(?=a))\<close>, \<^verbatim>\<open>(?<=(?<!a))\<close>, \<^verbatim>\<open>(?<!(?=a))\<close>, \<^verbatim>\<open>(?<!(a))\<close> and, one group deeper,
  \<^verbatim>\<open>(?<!(?:(a)))\<close>\<close>

definition pos_lb_la :: tokenized where
  "pos_lb_la = tokens_of [lb_open False, la_open False, CharacterTok 97,
                          GroupCloseTok, GroupCloseTok]"

definition pos_lb_neg_lb :: tokenized where
  "pos_lb_neg_lb = tokens_of [lb_open False, lb_open True, CharacterTok 97,
                              GroupCloseTok, GroupCloseTok]"

definition neg_lb_la :: tokenized where
  "neg_lb_la = tokens_of [lb_open True, la_open False, CharacterTok 97,
                          GroupCloseTok, GroupCloseTok]"

definition neg_lb_cap :: tokenized where
  "neg_lb_cap = tokens_of [lb_open True, cap_open 1, CharacterTok 97,
                           GroupCloseTok, GroupCloseTok]"

definition neg_lb_deep_cap :: tokenized where
  "neg_lb_deep_cap = tokens_of [lb_open True, grp_open, cap_open 1, CharacterTok 97,
                                GroupCloseTok, GroupCloseTok, GroupCloseTok]"

text \<open>\<^verbatim>\<open>(?<!(?<=(?<!a)))\<close>: a negative lookbehind directly inside a positive lookbehind that
  lies in a negative lookbehind.\<close>

definition neg_pos_neg :: tokenized where
  "neg_pos_neg = tokens_of [lb_open True, lb_open False, lb_open True, CharacterTok 97,
                            GroupCloseTok, GroupCloseTok, GroupCloseTok]"

definition neg_pos_neg_ast :: node where
  "neg_pos_neg_ast =
     Regex (Pattern [Alternative
              [LookaroundAssertion lookbehind True [Alternative
                 [LookaroundAssertion lookbehind False [Alternative
                    [LookaroundAssertion lookbehind True [Alternative [Character 97]]]]]]]])
       (Flags default_flags)"

text \<open>\<^verbatim>\<open>(?<=a)\<close>\<close>

definition pos_lb_a :: tokenized where
  "pos_lb_a = tokens_of [lb_open False, CharacterTok 97, GroupCloseTok]"

definition pos_lb_a_ast :: node where
  "pos_lb_a_ast =
     Regex (Pattern [Alternative
              [LookaroundAssertion lookbehind False [Alternative [Character 97]]]])
       (Flags default_flags)"

text \<open>\<^verbatim>\<open>(?<=(?=a))\1\<close>: a lookahead in a lookbehind, and a backreference to a group that
  does not exist.\<close>

definition pos_lb_la_backref :: tokenized where
  "pos_lb_la_backref = tokens_of [lb_open False, la_open False, CharacterTok 97,
                                  GroupCloseTok, GroupCloseTok,
                                  BackreferenceTok [backslash, CHR ''1'']]"

section \<open>Predicates on syntax trees\<close>

text \<open>Every alternative container of the tree has at least one alternative.\<close>

fun alternatives_nonempty :: "node \<Rightarrow> bool" where
  "alternatives_nonempty (AbsentFunction k alts) =
     (alts \<noteq> [] \<and> list_all alternatives_nonempty alts)"
| "alternatives_nonempty (Alternative els) = list_all alternatives_nonempty els"
| "alternatives_nonempty (CapturingGroup num nm alts) =
     (alts \<noteq> [] \<and> list_all alternatives_nonempty alts)"
| "alternatives_nonempty (CharacterClass k ng els) = list_all alternatives_nonempty els"
| "alternatives_nonempty (CharacterClassRange mn mx) =
     (alternatives_nonempty mn \<and> alternatives_nonempty mx)"
| "alternatives_nonempty (Group atm fl alts) =
     (alts \<noteq> [] \<and> list_all alternatives_nonempty alts)"
| "alternatives_nonempty (LookaroundAssertion k ng alts) =
     (alts \<noteq> [] \<and> list_all alternatives_nonempty alts)"
| "alternatives_nonempty (Pattern alts) =
     (alts \<noteq> [] \<and> list_all alternatives_nonempty alts)"
| "alternatives_nonempty (Quantifier k mn mx el) = alternatives_nonempty el"
| "alternatives_nonempty (Regex pat fl) =
     (alternatives_nonempty pat \<and> alternatives_nonempty fl)"
| "alternatives_nonempty (Assertion k ng) = True"
| "alternatives_nonempty (Backreference r orphan) = True"
| "alternatives_nonempty (Character c) = True"
| "alternatives_nonempty (CharacterSet k val ng vl) = True"
| "alternatives_nonempty (Directive k fl) = True"
| "alternatives_nonempty (Flags fl) = True"
| "alternatives_nonempty Recursion = True"
| "alternatives_nonempty (Subroutine r) = True"

text \<open>
  What the validation of lookbehind contents rejects as a child of a group: \<open>lb\<close> tells
  whether the group is, or lies in, a lookbehind, \<open>neg\<close> whether it is, or lies in, a negative
  one.  A tree is allowed when no element of an alternative is rejected; an element under
  quantifiers counts, as the quantifier wraps it after it was checked.
\<close>

definition forbidden_in_lookbehind :: "bool \<Rightarrow> bool \<Rightarrow> node \<Rightarrow> bool" where
  "forbidden_in_lookbehind lb neg child =
     (lb \<and> (if neg then isLookahead child \<or> type_of child = CapturingGroupT
             else isLookahead child \<or> (isLookbehind child \<and> lookaround_negate child)))"

fun strip_quantifiers :: "node \<Rightarrow> node" where
  "strip_quantifiers (Quantifier k mn mx el) = strip_quantifiers el"
| "strip_quantifiers n = n"

fun lookbehind_allowed :: "bool \<Rightarrow> bool \<Rightarrow> node \<Rightarrow> bool" where
  "lookbehind_allowed lb neg (AbsentFunction k alts) = list_all (lookbehind_allowed lb neg) alts"
| "lookbehind_allowed lb neg (Alternative els) =
     list_all (\<lambda>e. \<not> forbidden_in_lookbehind lb neg (strip_quantifiers e)
                  \<and> lookbehind_allowed lb neg e) els"
| "lookbehind_allowed lb neg (CapturingGroup num nm alts) =
     list_all (lookbehind_allowed lb neg) alts"
| "lookbehind_allowed lb neg (CharacterClass k ng els) = list_all (lookbehind_allowed lb neg) els"
| "lookbehind_allowed lb neg (CharacterClassRange mn mx) =
     (lookbehind_allowed lb neg mn \<and> lookbehind_allowed lb neg mx)"
| "lookbehind_allowed lb neg (Group atm fl alts) = list_all (lookbehind_allowed lb neg) alts"
| "lookbehind_allowed lb neg (LookaroundAssertion k ng alts) =
     list_all (lookbehind_allowed (lb \<or> k = lookbehind) (neg \<or> (k = lookbehind \<and> ng))) alts"
| "lookbehind_allowed lb neg (Pattern alts) = list_all (lookbehind_allowed lb neg) alts"
| "lookbehind_allowed lb neg (Quantifier k mn mx el) = lookbehind_allowed lb neg el"
| "lookbehind_allowed lb neg (Regex pat fl) = lookbehind_allowed lb neg pat"
| "lookbehind_allowed lb neg (Assertion k ng) = True"
| "lookbehind_allowed lb neg (Backreference r orphan) = True"
| "lookbehind_allowed lb neg (Character c) = True"
| "lookbehind_allowed lb neg (CharacterSet k val ng vl) = True"
| "lookbehind_allowed lb neg (Directive k fl) = True"
| "lookbehind_allowed lb neg (Flags fl) = True"
| "lookbehind_allowed lb neg Recursion = True"
| "lookbehind_allowed lb neg (Subroutine r) = True"

abbreviation "allowed_in st \<equiv> lookbehind_allowed (isInLookbehind st) (isInNegLookbehind st)"

text \<open>The alternatives of a group under construction, as the validation leaves them.\<close>

definition checked_alternative :: "walk_state \<Rightarrow> node \<Rightarrow> node list \<Rightarrow> bool" where
  "checked_alternative st g els = lookbehind_allowed (isInLookbehind (child_state st g))
                  (isInNegLookbehind (child_state st g)) (Alternative els)"

subsection \<open>What a token stream contains\<close>

text \<open>
  The pairs of the lookbehind validation, read off the tokens.  A scope is the group or the
  class whose tokens are being read: \<open>in_group\<close> tells that it is a group (its tokens open
  elements of an alternative), \<open>in_lb\<close> that it is, or lies in, a lookbehind, \<open>in_neg_lb\<close>
  that it is, or lies in, a negative lookbehind.  \<open>opens_forbidden\<close> tells whether a group
  token opens a forbidden child: a lookahead of either sign; a capturing group where a
  negative lookbehind is around; a negative lookbehind where only positive ones are.
  \<open>contains_forbidden\<close> reads the tokens from left to right with the stack of the scopes
  that are open, and tells whether some group token opens a forbidden child directly in a
  group that is, or lies in, a lookbehind.
\<close>

record scope =
  in_group :: bool
  in_lb :: bool
  in_neg_lb :: bool

definition opens_forbidden :: "bool \<Rightarrow> bool \<Rightarrow> group_open \<Rightarrow> bool" where
  "opens_forbidden lb neg g =
     (lb \<and> (if neg then g_kind g = tk_lookahead \<or> g_kind g = tk_capturing
             else g_kind g = tk_lookahead
                  \<or> (g_kind g = tk_lookbehind \<and> truthy (g_negate g))))"

definition group_scope :: "scope \<Rightarrow> group_open \<Rightarrow> scope" where
  "group_scope sc g =
     \<lparr>in_group = True,
      in_lb = (in_lb sc \<or> g_kind g = tk_lookbehind),
      in_neg_lb = (in_neg_lb sc \<or> (g_kind g = tk_lookbehind \<and> truthy (g_negate g)))\<rparr>"

definition class_scope :: "scope \<Rightarrow> scope" where
  "class_scope sc = sc\<lparr>in_group := False\<rparr>"

definition top_scope :: scope where
  "top_scope = \<lparr>in_group = False, in_lb = False, in_neg_lb = False\<rparr>"

fun contains_forbidden :: "scope \<Rightarrow> scope list \<Rightarrow> token list \<Rightarrow> bool" where
  "contains_forbidden sc stack [] = False"
| "contains_forbidden sc stack (GroupOpenTok g # ts) =
     ((in_group sc \<and> opens_forbidden (in_lb sc) (in_neg_lb sc) g)
      \<or> contains_forbidden (group_scope sc g) (sc # stack) ts)"
| "contains_forbidden sc stack (CharacterClassOpenTok ng # ts) =
     contains_forbidden (class_scope sc) (sc # stack) ts"
| "contains_forbidden sc [] (GroupCloseTok # ts) = contains_forbidden sc [] ts"
| "contains_forbidden sc (outer # stack) (GroupCloseTok # ts) = contains_forbidden outer stack ts"
| "contains_forbidden sc [] (CharacterClassCloseTok # ts) = contains_forbidden sc [] ts"
| "contains_forbidden sc (outer # stack) (CharacterClassCloseTok # ts) =
     contains_forbidden outer stack ts"
| "contains_forbidden sc stack (t # ts) = contains_forbidden sc stack ts"

definition tok_forbidden :: "bool \<Rightarrow> bool \<Rightarrow> token \<Rightarrow> bool" where
  "tok_forbidden lb neg t = (case t of GroupOpenTok g \<Rightarrow> opens_forbidden lb neg g | _ \<Rightarrow> False)"

definition scope_of :: "scope \<Rightarrow> walk_state \<Rightarrow> bool" where
  "scope_of sc st \<longleftrightarrow> in_lb sc = isInLookbehind st \<and> in_neg_lb sc = isInNegLookbehind st"

section \<open>The traverser with \<^verbatim>\<open>replaceWithMultiple\<close>\<close>

text \<open>
  Modelled from the spec: the path method \<^verbatim>\<open>replaceWithMultiple(nodes, {traverse})\<close>, which
  the tests and the transforms of the repository call and which the \<^verbatim>\<open>traverse\<close> of the
  repository does not have.  The specification says of it: replace with an array slice; it
  shifts the enclosing iteration cursor so following siblings are visited exactly once; when
  \<^verbatim>\<open>traverse = true\<close>, walk the inserted nodes with the active visitor, each itself subject
  to full visitor dispatch, immediately before the cursor advances past them; the traverser
  maintains a cursor index and a per-step shift, and after a visitor returns the cursor
  advances by \<open>1 + shift\<close>.  The replaced node leaves the tree, so, as after \<^verbatim>\<open>remove\<close>, its
  kids are not walked.  Everything else is the traverser above: the same path methods, the
  same order of callbacks, the same loop over arrays.
\<close>

datatype xaction = Plain action | ReplaceWithMultiple "node list" bool

type_synonym 's xcallback = "path \<Rightarrow> 's \<Rightarrow> xaction list \<times> 's"

record 's xhandlers =
  x_enter :: "'s xcallback option"
  x_exit :: "'s xcallback option"

record 's xvisitor =
  x_any_type :: "'s xhandlers"
  x_this_type :: "node_type \<Rightarrow> 's xhandlers"

type_synonym 's node_walker = "node \<Rightarrow> position \<Rightarrow> 's \<Rightarrow> 's tstate outcome"

type_synonym 's array_walker =
  "node \<Rightarrow> nat \<Rightarrow> node list \<Rightarrow> 's \<Rightarrow> (node list \<times> 's \<times> event list) outcome"

text \<open>Modelled from the spec: \<^verbatim>\<open>array.splice(i, 1, ...nodes)\<close>, the replacement by an array
  slice.\<close>

definition splice_in :: "nat \<Rightarrow> 'a list \<Rightarrow> 'a list \<Rightarrow> 'a list" where
  "splice_in i ns xs = take i xs @ ns @ drop (Suc i) xs"

text \<open>Modelled from the spec: the walk of the inserted nodes, in order, by the walk \<open>rec\<close> of
  the active visitor.  \<open>at_index\<close> is the index of the next inserted node; the shift a walk
  returns moves the nodes behind it and adds to the shift of the step.\<close>

primrec walk_inserted ::
  "'s node_walker \<Rightarrow> node \<Rightarrow> nat \<Rightarrow> node list \<Rightarrow> 's tstate \<Rightarrow> 's tstate outcome" where
  "walk_inserted rec parent at_index [] st = Done st"
| "walk_inserted rec parent at_index (m # ms) st =
     (case cont st of
        None \<Rightarrow> Failed ContainerExpected
      | Some c \<Rightarrow>
          obind (rec m (AtIndex (with_array parent c) at_index c) (ustate st)) (\<lambda>r.
            walk_inserted rec parent (nat (int at_index + 1 + keyShift r)) ms
              (st\<lparr>cont := cont r, ustate := ustate r, calls := calls st @ calls r,
                  keyShift := keyShift st + keyShift r\<rparr>)))"

text \<open>Modelled from the spec: \<^verbatim>\<open>replaceWithMultiple(nodes, {traverse})\<close>.  The slice takes
  the place of the node at the cursor, the shift grows by the number of nodes less one.\<close>

definition replaceWithMultiple ::
  "'s node_walker \<Rightarrow> position \<Rightarrow> 's tstate \<Rightarrow> node list \<Rightarrow> bool \<Rightarrow> 's tstate outcome" where
  "replaceWithMultiple rec pos st ns trav =
     (case (pos, cont st) of
        (AtIndex p k c0, Some c) \<Rightarrow>
          (let i = cursor k (keyShift st);
               st1 = st\<lparr>cont := Some (splice_in i ns c),
                        keyShift := keyShift st + int (length ns) - 1,
                        skipTraversingKidsOfPath := True\<rparr>
           in if trav then walk_inserted rec p i ns st1 else Done st1)
      | _ \<Rightarrow> Failed ContainerExpected)"

primrec apply_xactions ::
  "'s node_walker \<Rightarrow> position \<Rightarrow> 's tstate \<Rightarrow> xaction list \<Rightarrow> 's tstate outcome" where
  "apply_xactions rec pos st [] = Done st"
| "apply_xactions rec pos st (a # as) =
     obind (case a of
              Plain b \<Rightarrow> lift (apply_action pos st b)
            | ReplaceWithMultiple ns trav \<Rightarrow> replaceWithMultiple rec pos st ns trav)
       (\<lambda>st'. apply_xactions rec pos st' as)"

definition run_xcallback ::
  "'s node_walker \<Rightarrow> 's xcallback option \<Rightarrow> phase \<Rightarrow> position \<Rightarrow> node \<Rightarrow> 's tstate
     \<Rightarrow> 's tstate outcome" where
  "run_xcallback rec cb ph pos ast st =
     (case cb of
        None \<Rightarrow> Done st
      | Some f \<Rightarrow>
          (case f (path_view pos ast st) (ustate st) of
             (acts, s') \<Rightarrow>
               apply_xactions rec pos
                 (st\<lparr>ustate := s',
                     calls := calls st @ [Called ph (path_node st) (key_of pos)]\<rparr>)
                 acts))"

primrec walk_slots ::
  "'s node_walker \<Rightarrow> node \<Rightarrow> (slot \<times> node) list \<Rightarrow> 's \<Rightarrow> (node \<times> 's \<times> event list) outcome" where
  "walk_slots rec parent [] s = Done (parent, s, [])"
| "walk_slots rec parent (k # ks) s =
     obind (rec (snd k) (AtSlot parent (fst k)) s) (\<lambda>st.
       prepend_calls (calls st)
         (walk_slots rec (with_slot parent (fst k) (cur st)) ks (ustate st)))"

text \<open>One call of \<^verbatim>\<open>traverseNode\<close>, given the walks of nodes and arrays it calls: the
  enter callbacks, the walk of the kids, the exit callbacks.\<close>

definition x_enter_node ::
  "'s node_walker \<Rightarrow> 's xvisitor \<Rightarrow> node \<Rightarrow> node \<Rightarrow> position \<Rightarrow> 's \<Rightarrow> 's tstate outcome" where
  "x_enter_node rec v ast n pos s =
     obind (run_xcallback rec (x_enter (x_any_type v)) EnterAny pos ast (init_state n pos s))
       (\<lambda>st1. run_xcallback rec (x_enter (x_this_type v (type_of n))) EnterThis pos ast st1)"

definition x_walk_kids ::
  "'s node_walker \<Rightarrow> 's array_walker \<Rightarrow> position \<Rightarrow> 's tstate \<Rightarrow> 's tstate outcome" where
  "x_walk_kids rec rec_array pos st =
     (if skipTraversingKidsOfPath st then Done st
      else (case kids_of (cur st) of
              NoKids \<Rightarrow> Done st
            | ArrayKids xs \<Rightarrow>
                obind (rec_array (cur st) 0 xs (ustate st))
                  (\<lambda>(xs', s', evs). Done (store_kids pos st (with_array (cur st) xs', s', evs)))
            | SlotKids ks \<Rightarrow>
                obind (walk_slots rec (cur st) ks (ustate st))
                  (\<lambda>r. Done (store_kids pos st r))))"

definition x_exit_node ::
  "'s node_walker \<Rightarrow> 's xvisitor \<Rightarrow> node \<Rightarrow> node \<Rightarrow> position \<Rightarrow> 's tstate
     \<Rightarrow> 's tstate outcome" where
  "x_exit_node rec v ast n pos st =
     obind (run_xcallback rec (x_exit (x_any_type v)) ExitAny pos ast st)
       (\<lambda>st4. run_xcallback rec (x_exit (x_this_type v (type_of n))) ExitThis pos ast st4)"

definition visit_node ::
  "'s node_walker \<Rightarrow> 's array_walker \<Rightarrow> 's xvisitor \<Rightarrow> node \<Rightarrow> node \<Rightarrow> position \<Rightarrow> 's
     \<Rightarrow> 's tstate outcome" where
  "visit_node rec rec_array v ast n pos s =
     obind (x_enter_node rec v ast n pos s) (\<lambda>st.
     obind (x_walk_kids rec rec_array pos st) (\<lambda>st3.
       x_exit_node rec v ast n pos st3))"

fun traverseNodeX ::
    "nat \<Rightarrow> 's xvisitor \<Rightarrow> node \<Rightarrow> node \<Rightarrow> position \<Rightarrow> 's \<Rightarrow> 's tstate outcome"
and traverseArrayX ::
    "nat \<Rightarrow> 's xvisitor \<Rightarrow> node \<Rightarrow> node \<Rightarrow> nat \<Rightarrow> node list \<Rightarrow> 's
       \<Rightarrow> (node list \<times> 's \<times> event list) outcome"
where
  "traverseNodeX 0 v ast n pos s = OutOfFuel"
| "traverseNodeX (Suc fuel) v ast n pos s =
     visit_node (traverseNodeX fuel v ast) (traverseArrayX fuel v ast) v ast n pos s"
| "traverseArrayX 0 v ast parent i array s = OutOfFuel"
| "traverseArrayX (Suc fuel) v ast parent i array s =
     (if i < length array then
        obind (traverseNodeX fuel v ast (array ! i)
                 (AtIndex (with_array parent array) i array) s) (\<lambda>st.
          prepend_calls (calls st)
            (traverseArrayX fuel v ast parent (next_index i (keyShift st))
               (case cont st of Some c \<Rightarrow> c | None \<Rightarrow> array) (ustate st)))
      else Done (array, s, []))"

subsection \<open>What the statements about \<^verbatim>\<open>replaceWithMultiple\<close> speak of\<close>

text \<open>The path methods the enter callbacks of a node call between them, in order; the
  callback invocations of the enter phase.\<close>

definition x_enter_actions ::
  "'s node_walker \<Rightarrow> 's xvisitor \<Rightarrow> node \<Rightarrow> node \<Rightarrow> position \<Rightarrow> 's \<Rightarrow> xaction list" where
  "x_enter_actions rec v ast n pos s =
     (case x_enter (x_any_type v) of
        None \<Rightarrow>
          (case x_enter (x_this_type v (type_of n)) of
             None \<Rightarrow> []
           | Some g \<Rightarrow> fst (g (path_view pos ast (init_state n pos s)) s))
      | Some f \<Rightarrow>
          (case f (path_view pos ast (init_state n pos s)) s of
             (acts1, s1) \<Rightarrow>
               (case apply_xactions rec pos
                       ((init_state n pos s)
                          \<lparr>ustate := s1, calls := [Called EnterAny n (key_of pos)]\<rparr>) acts1 of
                  Done st1 \<Rightarrow>
                    (case x_enter (x_this_type v (type_of n)) of
                       None \<Rightarrow> acts1
                     | Some g \<Rightarrow> acts1 @ fst (g (path_view pos ast st1) (ustate st1)))
                | _ \<Rightarrow> acts1)))"

definition x_enter_events :: "'s xvisitor \<Rightarrow> node \<Rightarrow> position \<Rightarrow> event list" where
  "x_enter_events v n pos =
     (case x_enter (x_any_type v) of None \<Rightarrow> [] | Some f \<Rightarrow> [Called EnterAny n (key_of pos)])
     @ (case x_enter (x_this_type v (type_of n)) of
          None \<Rightarrow> [] | Some g \<Rightarrow> [Called EnterThis n (key_of pos)])"

text \<open>The user state that the first enter callback to call a path method leaves: the walk
  of the nodes it inserts begins with it.\<close>

definition x_enter_caller_state ::
  "'s xvisitor \<Rightarrow> node \<Rightarrow> node \<Rightarrow> position \<Rightarrow> 's \<Rightarrow> 's" where
  "x_enter_caller_state v ast n pos s =
     (case x_enter (x_any_type v) of
        None \<Rightarrow>
          (case x_enter (x_this_type v (type_of n)) of
             None \<Rightarrow> s
           | Some g \<Rightarrow> snd (g (path_view pos ast (init_state n pos s)) s))
      | Some f \<Rightarrow>
          (case f (path_view pos ast (init_state n pos s)) s of
             (acts1, s1) \<Rightarrow>
               if acts1 = []
               then (case x_enter (x_this_type v (type_of n)) of
                       None \<Rightarrow> s1
                     | Some g \<Rightarrow> snd (g (path_view pos ast (init_state n pos s)) s1))
               else s1))"

text \<open>A walk of the node at index \<open>i\<close> of \<open>xs\<close> has edited its own place only: the nodes
  \<open>seg\<close> stand where the node stood, the siblings are as they were, and the shift tells the
  loop to go on behind \<open>seg\<close>.\<close>

definition in_place :: "nat \<Rightarrow> node list \<Rightarrow> node list \<Rightarrow> 's tstate \<Rightarrow> bool" where
  "in_place i xs seg st \<longleftrightarrow>
     cont st = Some (take i xs @ seg @ drop (Suc i) xs) \<and> keyShift st = int (length seg) - 1"

text \<open>Every finished walk of a node in an array edits its own place only; and, stronger,
  leaves at least one node there.\<close>

definition walks_in_place :: "'s node_walker \<Rightarrow> bool" where
  "walks_in_place rec \<longleftrightarrow>
     (\<forall>m q a c u r. a < length c \<longrightarrow> rec m (AtIndex q a c) u = Done r \<longrightarrow>
        (\<exists>seg. in_place a c seg r))"

definition walks_leave_nodes :: "'s node_walker \<Rightarrow> bool" where
  "walks_leave_nodes rec \<longleftrightarrow>
     (\<forall>m q a c u r. a < length c \<longrightarrow> rec m (AtIndex q a c) u = Done r \<longrightarrow>
        (\<exists>seg. seg \<noteq> [] \<and> in_place a c seg r))"

text \<open>
  The nodes \<open>ms\<close>, standing between \<open>pre\<close> and \<open>post\<close> in the array of \<open>parent\<close>, are walked
  by \<open>rec\<close> one after the other, each once, at the index it has when its turn comes and with
  the user state its predecessor left.  \<open>ws\<close> lists, for every node of \<open>ms\<close>, the nodes its
  walk left in its place and the state the walk ended in.
\<close>

fun walked_in_order ::
  "'s node_walker \<Rightarrow> node \<Rightarrow> node list \<Rightarrow> node list \<Rightarrow> node list \<Rightarrow> 's
     \<Rightarrow> (node list \<times> 's tstate) list \<Rightarrow> bool" where
  "walked_in_order rec parent pre [] post u [] = True"
| "walked_in_order rec parent pre (m # ms) post u (w # ws) =
     (rec m (AtIndex (with_array parent (pre @ m # ms @ post)) (length pre)
               (pre @ m # ms @ post)) u = Done (snd w)
      \<and> cont (snd w) = Some (pre @ fst w @ ms @ post)
      \<and> keyShift (snd w) = int (length (fst w)) - 1
      \<and> walked_in_order rec parent (pre @ fst w) ms post (ustate (snd w)) ws)"
| "walked_in_order rec parent pre ms post u ws = False"

text \<open>A class of visitors whose walks leave nodes in place: the callbacks call only
  \<^verbatim>\<open>skip\<close>, \<^verbatim>\<open>replaceWith\<close>, throw, or \<^verbatim>\<open>replaceWithMultiple\<close> with at least one node.\<close>

definition splices_only :: "xaction \<Rightarrow> bool" where
  "splices_only a =
     (case a of
        Plain b \<Rightarrow> (case b of Skip \<Rightarrow> True | ReplaceWith n \<Rightarrow> True | Throw m \<Rightarrow> True
                     | _ \<Rightarrow> False)
      | ReplaceWithMultiple ns trav \<Rightarrow> ns \<noteq> [])"

definition splicing_callback :: "'s xcallback option \<Rightarrow> bool" where
  "splicing_callback cb \<longleftrightarrow>
     (case cb of None \<Rightarrow> True | Some f \<Rightarrow> (\<forall>p s. list_all splices_only (fst (f p s))))"

definition splicing :: "'s xvisitor \<Rightarrow> bool" where
  "splicing v \<longleftrightarrow>
     splicing_callback (x_enter (x_any_type v)) \<and> splicing_callback (x_exit (x_any_type v))
     \<and> (\<forall>t. splicing_callback (x_enter (x_this_type v t))
             \<and> splicing_callback (x_exit (x_this_type v t)))"

text \<open>A visitor that looks at every node on entry and on exit and replaces every group with a
  non-empty first alternative by the elements of that alternative, asking for their
  traversal; the elements of \<^verbatim>\<open>(?:a(?:bc))d\<close>.\<close>

definition no_xhandlers :: "unit xhandlers" where
  "no_xhandlers = \<lparr>x_enter = None, x_exit = None\<rparr>"

definition look :: "unit xcallback" where
  "look p s = ([], s)"

definition unwrap_nonempty :: "unit xcallback" where
  "unwrap_nonempty p s =
     (case p_node p of
        Group atm fl alts \<Rightarrow>
          (case alts of
             [] \<Rightarrow> ([], s)
           | alt # rest \<Rightarrow>
               (case alt of
                  Alternative els \<Rightarrow>
                    (if els = [] then ([], s) else ([ReplaceWithMultiple els True], s))
                | _ \<Rightarrow> ([], s)))
      | _ \<Rightarrow> ([], s))"

definition unwrapping :: "unit xvisitor" where
  "unwrapping =
     \<lparr>x_any_type = \<lparr>x_enter = Some look, x_exit = Some look\<rparr>,
      x_this_type = (\<lambda>t. if t = GroupT then \<lparr>x_enter = Some unwrap_nonempty, x_exit = None\<rparr>
                          else no_xhandlers)\<rparr>"

definition group_bc :: node where
  "group_bc = Group False None [Alternative [Character 98, Character 99]]"

definition group_a_group_bc :: node where
  "group_a_group_bc = Group False None [Alternative [Character 97, group_bc]]"

definition groups_d :: "node list" where
  "groups_d = [group_a_group_bc, Character 100]"

definition abcd :: "node list" where
  "abcd = [Character 97, Character 98, Character 99, Character 100]"

text \<open>The callbacks up to the end of the enter callbacks of the outer group, the state of
  the walk then, and the state after the exit callback.\<close>

definition unwrapping_calls :: "event list" where
  "unwrapping_calls =
     [Called EnterAny group_a_group_bc (Some (Idx 0)),
      Called EnterThis group_a_group_bc (Some (Idx 0)),
      Called EnterAny (Character 97) (Some (Idx 0)),
      Called ExitAny (Character 97) (Some (Idx 0)),
      Called EnterAny group_bc (Some (Idx 1)),
      Called EnterThis group_bc (Some (Idx 1)),
      Called EnterAny (Character 98) (Some (Idx 1)),
      Called ExitAny (Character 98) (Some (Idx 1)),
      Called EnterAny (Character 99) (Some (Idx 2)),
      Called ExitAny (Character 99) (Some (Idx 2)),
      Called ExitAny group_bc (Some (Idx 1))]"

definition group_unwrapped :: "unit tstate" where
  "group_unwrapped =
     \<lparr>cur = group_a_group_bc, path_node = group_a_group_bc, same = True, keyShift = 2,
      skipTraversingKidsOfPath = True, cont = Some abcd, ustate = (),
      calls = unwrapping_calls\<rparr>"

definition group_left :: "unit tstate" where
  "group_left =
     group_unwrapped
       \<lparr>calls := unwrapping_calls @ [Called ExitAny group_a_group_bc (Some (Idx 0))]\<rparr>"

text \<open>A visitor that replaces the character \<open>b\<close> by \<open>x\<close>, \<open>y\<close> without asking for their
  traversal, and the state of the walk of \<open>b\<close> in \<open>abc\<close> after it.\<close>

definition b_to_xy :: "unit xcallback" where
  "b_to_xy p s =
     (if p_node p = Character 98
      then ([ReplaceWithMultiple [Character 120, Character 121] False], s)
      else ([], s))"

definition b_to_xy_visitor :: "unit xvisitor" where
  "b_to_xy_visitor =
     \<lparr>x_any_type = no_xhandlers,
      x_this_type = (\<lambda>t. if t = CharacterT then \<lparr>x_enter = Some b_to_xy, x_exit = None\<rparr>
                          else no_xhandlers)\<rparr>"

definition b_replaced :: "unit tstate" where
  "b_replaced =
     \<lparr>cur = Character 98, path_node = Character 98, same = True, keyShift = 1,
      skipTraversingKidsOfPath = True,
      cont = Some [Character 97, Character 120, Character 121, Character 99], ustate = (),
      calls = [Called EnterThis (Character 98) (Some (Idx (Suc 0)))]\<rparr>"

text \<open>The visitor of the test \<^verbatim>\<open>should replace a node with multiple nodes\<close> of
  \<^verbatim>\<open>spec/traverser.spec.js\<close>, which replaces every group by the elements of its first
  alternative and asks for their traversal, and the tree of \<^verbatim>\<open>(?:a(?:b))\<close>.\<close>

definition unwrap_group :: "unit xcallback" where
  "unwrap_group p s =
     (case p_node p of
        Group atm fl (Alternative els # alts) \<Rightarrow> ([ReplaceWithMultiple els True], s)
      | _ \<Rightarrow> ([], s))"

definition unwrap_groups :: "unit xvisitor" where
  "unwrap_groups =
     \<lparr>x_any_type = no_xhandlers,
      x_this_type = (\<lambda>t. if t = GroupT then \<lparr>x_enter = Some unwrap_group, x_exit = None\<rparr>
                          else no_xhandlers)\<rparr>"

definition group_b :: node where
  "group_b = Group False None [Alternative [Character 98]]"

definition group_a_group_b :: node where
  "group_a_group_b = Group False None [Alternative [Character 97, group_b]]"

definition nested_groups_ast :: node where
  "nested_groups_ast = Regex (Pattern [Alternative [group_a_group_b]]) (Flags default_flags)"

section \<open>Properties of the traverser\<close>

lemma traverseNode_Suc:
  "traverseNode (Suc fuel) v ast n pos s =
     obind (lift (enter_node v ast n pos s)) (\<lambda>st.
     obind (walk_kids fuel v ast pos st) (\<lambda>st'. lift (exit_node v ast n pos st')))"
  by (simp add: walk_kids_def)

declare traverseNode.simps(2) [simp del]

lemma traverseArray_Suc:
  "traverseArray (Suc fuel) v ast parent i array s =
     (if i < length array then
        obind (traverseNode fuel v ast (array ! i)
                 (AtIndex (with_array parent array) i array) s) (\<lambda>st.
          prepend_calls (calls st)
            (traverseArray fuel v ast parent (next_index i (keyShift st))
               (case cont st of Some c \<Rightarrow> c | None \<Rightarrow> array) (ustate st)))
      else Done (array, s, []))"
  by simp

declare traverseArray.simps(2) [simp del]

lemma obind_Done:
  "obind m f = Done y \<longleftrightarrow> (\<exists>x. m = Done x \<and> f x = Done y)"
  by (cases m) (simp_all add: obind_def)

lemma lift_Done: "lift r = Done x \<longleftrightarrow> r = Inr x"
  by (cases r) (simp_all add: lift_def)

lemma apply_action_keeps:
  assumes "apply_action pos st a = Inr st'"
  shows "calls st' = calls st \<and> path_node st' = path_node st \<and> ustate st' = ustate st"
  using assms
  by (cases a)
     (auto simp: apply_action_def remove_def removeAllNextSiblings_def
        removeAllPrevSiblings_def replaceWith_def skip_def Let_def
        split: position.splits option.splits)

lemma apply_actions_keeps:
  "apply_actions pos st as = Inr st' \<Longrightarrow>
     calls st' = calls st \<and> path_node st' = path_node st \<and> ustate st' = ustate st"
proof (induction as arbitrary: st)
  case Nil
  then show ?case by simp
next
  case (Cons a as)
  then obtain st1 where a: "apply_action pos st a = Inr st1"
    and r: "apply_actions pos st1 as = Inr st'"
    by (auto split: sum.splits)
  from apply_action_keeps[OF a] Cons.IH[OF r] show ?case by simp
qed

lemma run_callback_Some:
  assumes "run_callback (Some f) ph pos ast st = Inr st'"
  shows "calls st' = calls st @ [Called ph (path_node st) (key_of pos)]
         \<and> path_node st' = path_node st"
proof -
  obtain acts s' where f: "f (path_view pos ast st) (ustate st) = (acts, s')"
    by (cases "f (path_view pos ast st) (ustate st)")
  with assms have "apply_actions pos
      (st\<lparr>ustate := s', calls := calls st @ [Called ph (path_node st) (key_of pos)]\<rparr>) acts
      = Inr st'"
    by (simp add: run_callback_def)
  from apply_actions_keeps[OF this] show ?thesis by simp
qed

lemma store_kids_calls:
  "calls (store_kids pos st (n, s', evs)) = calls st @ evs"
  by (simp add: store_kids_def Let_def split: position.splits option.splits)

lemma walk_kids_calls:
  assumes "walk_kids fuel v ast pos st = Done st'"
  shows "\<exists>evs. calls st' = calls st @ evs \<and> (skipTraversingKidsOfPath st \<longrightarrow> evs = [])"
proof (cases "skipTraversingKidsOfPath st")
  case True
  with assms show ?thesis by (simp add: walk_kids_def)
next
  case False
  show ?thesis
  proof (cases "kids_of (cur st)")
    case NoKids
    with False assms show ?thesis by (simp add: walk_kids_def)
  next
    case (ArrayKids xs)
    with False assms obtain r where
      "st' = store_kids pos st r"
      by (auto simp: walk_kids_def obind_Done split: prod.splits)
    then show ?thesis using False by (cases r) (simp add: store_kids_calls)
  next
    case (SlotKids ks)
    with False assms obtain r where "st' = store_kids pos st r"
      by (auto simp: walk_kids_def obind_Done)
    then show ?thesis using False by (cases r) (simp add: store_kids_calls)
  qed
qed

lemmas tfuel_numeral =
  traverseNode_Suc[where fuel = "pred_numeral k", folded numeral_eq_Suc]
  traverseArray_Suc[where fuel = "pred_numeral k", folded numeral_eq_Suc]
  traverseSlots.simps(2,3)[where fuel = "pred_numeral k", folded numeral_eq_Suc]
  for k

lemma prepend_calls_Done:
  "prepend_calls evs0 m = Done (x, s', evs) \<longleftrightarrow>
     (\<exists>evs1. m = Done (x, s', evs1) \<and> evs = evs0 @ evs1)"
  by (cases m) (auto simp: prepend_calls_def)

lemma run_callback_calls:
  assumes "run_callback cb ph pos ast st = Inr st'"
  shows "\<exists>evs. calls st' = calls st @ evs"
proof (cases cb)
  case None
  with assms show ?thesis by (simp add: run_callback_def)
next
  case (Some f)
  with assms run_callback_Some[of f ph pos ast st st'] show ?thesis by simp
qed

lemma traverseNode_first_call:
  assumes "traverseNode fuel v ast n pos s = Done st"
    and "enter (any_type v) = Some ea"
  shows "\<exists>rest. calls st = Called EnterAny n (key_of pos) # rest"
proof -
  from assms(1) obtain f where fuel: "fuel = Suc f"
    by (cases fuel) simp_all
  from assms(1) obtain st2 st3 where
    e: "enter_node v ast n pos s = Inr st2" and
    k: "walk_kids f v ast pos st2 = Done st3" and
    x: "exit_node v ast n pos st3 = Inr st"
    unfolding fuel traverseNode_Suc obind_Done lift_Done by blast
  from e assms(2) obtain st1 where
    e1: "run_callback (Some ea) EnterAny pos ast (init_state n pos s) = Inr st1" and
    e2: "run_callback (enter (this_type v (type_of n))) EnterThis pos ast st1 = Inr st2"
    by (auto simp: enter_node_def split: sum.splits)
  from run_callback_Some[OF e1]
  have c1: "calls st1 = [Called EnterAny n (key_of pos)]"
    by (simp add: init_state_def)
  from run_callback_calls[OF e2] obtain evs2 where c2: "calls st2 = calls st1 @ evs2"
    by blast
  from walk_kids_calls[OF k] obtain evs3 where c3: "calls st3 = calls st2 @ evs3"
    by blast
  from x obtain st4 where
    x1: "run_callback (exit (any_type v)) ExitAny pos ast st3 = Inr st4" and
    x2: "run_callback (exit (this_type v (type_of n))) ExitThis pos ast st4 = Inr st"
    by (auto simp: exit_node_def split: sum.splits)
  from run_callback_calls[OF x1] run_callback_calls[OF x2] c1 c2 c3
  show ?thesis by auto
qed

lemma walk_kids_events:
  assumes k: "walk_kids fuel v ast pos st2 = Done st3"
    and ns: "\<not> skipTraversingKidsOfPath st2"
  shows "\<exists>kid_calls. calls st3 = calls st2 @ kid_calls
     \<and> (case kids_of (cur st2) of
           NoKids \<Rightarrow> kid_calls = []
         | ArrayKids xs \<Rightarrow>
             walk_events (traverseArray fuel v ast (cur st2) 0 xs (ustate st2)) = Some kid_calls
         | SlotKids ks \<Rightarrow>
             walk_events (traverseSlots fuel v ast (cur st2) ks (ustate st2)) = Some kid_calls)"
proof (cases "kids_of (cur st2)")
  case NoKids
  with k ns show ?thesis by (simp add: walk_kids_def)
next
  case (ArrayKids xs)
  with k ns obtain xs' s' evs where
    r: "traverseArray fuel v ast (cur st2) 0 xs (ustate st2) = Done (xs', s', evs)"
    and st3: "st3 = store_kids pos st2 (with_array (cur st2) xs', s', evs)"
    by (auto simp: walk_kids_def obind_Done)
  then show ?thesis
    using ArrayKids by (simp add: store_kids_calls walk_events_def)
next
  case (SlotKids ks)
  with k ns obtain r where
    r: "traverseSlots fuel v ast (cur st2) ks (ustate st2) = Done r"
    and st3: "st3 = store_kids pos st2 r"
    by (auto simp: walk_kids_def obind_Done)
  then show ?thesis
    using SlotKids by (cases r) (simp add: store_kids_calls walk_events_def)
qed

lemma first_kid_call:
  assumes ea: "enter (any_type v) = Some ea"
    and fk: "first_kid n = Some (kid, k)"
    and ev: "(case kids_of n of
           NoKids \<Rightarrow> kid_calls = []
         | ArrayKids xs \<Rightarrow>
             walk_events (traverseArray fuel v ast n 0 xs s) = Some kid_calls
         | SlotKids ks \<Rightarrow>
             walk_events (traverseSlots fuel v ast n ks s) = Some kid_calls)"
  shows "\<exists>rest. kid_calls = Called EnterAny kid (Some k) # rest"
proof (cases "kids_of n")
  case NoKids
  with fk show ?thesis by (simp add: first_kid_def)
next
  case (ArrayKids xs)
  with fk obtain rest where xs: "xs = kid # rest" and k: "k = Idx 0"
    by (auto simp: first_kid_def split: list.splits)
  from ev ArrayKids obtain xs' s' where
    r: "traverseArray fuel v ast n 0 xs s = Done (xs', s', kid_calls)"
    by (auto simp: walk_events_def split: outcome.splits)
  then obtain f where fuel: "fuel = Suc f"
    by (cases fuel) simp_all
  from r obtain st evs1 where
    t: "traverseNode f v ast kid (AtIndex (with_array n xs) 0 xs) s = Done st"
    and c: "kid_calls = calls st @ evs1"
    unfolding fuel traverseArray_Suc
    by (auto simp: xs obind_Done prepend_calls_Done)
  from traverseNode_first_call[OF t ea] c k show ?thesis
    by (auto simp: key_of_def)
next
  case (SlotKids ks)
  with fk obtain sl rest where ks: "ks = (sl, kid) # rest" and k: "k = Slot sl"
    by (auto simp: first_kid_def split: list.splits)
  from ev SlotKids obtain r s' where
    r: "traverseSlots fuel v ast n ks s = Done (r, s', kid_calls)"
    by (auto simp: walk_events_def split: outcome.splits)
  then obtain f where fuel: "fuel = Suc f"
    by (cases fuel) simp_all
  from r obtain st evs1 where
    t: "traverseNode f v ast kid (AtSlot n sl) s = Done st"
    and c: "kid_calls = calls st @ evs1"
    unfolding fuel
    by (auto simp: ks obind_Done prepend_calls_Done)
  from traverseNode_first_call[OF t ea] c k show ?thesis
    by (auto simp: key_of_def)
qed

lemma no_first_kid:
  assumes fk: "first_kid n = None"
    and ev: "(case kids_of n of
           NoKids \<Rightarrow> kid_calls = []
         | ArrayKids xs \<Rightarrow>
             walk_events (traverseArray fuel v ast n 0 xs s) = Some kid_calls
         | SlotKids ks \<Rightarrow>
             walk_events (traverseSlots fuel v ast n ks s) = Some kid_calls)"
  shows "kid_calls = []"
proof (cases "kids_of n")
  case NoKids
  with ev show ?thesis by simp
next
  case (ArrayKids xs)
  with fk have xs: "xs = []"
    by (auto simp: first_kid_def split: list.splits)
  from ev ArrayKids show ?thesis
    by (cases fuel) (auto simp: walk_events_def xs traverseArray_Suc)
next
  case (SlotKids ks)
  with fk have ks: "ks = []"
    by (auto simp: first_kid_def split: list.splits)
  from ev SlotKids show ?thesis
    by (cases fuel) (auto simp: walk_events_def ks)
qed

lemma type_of_with_array [simp]: "type_of (with_array p xs) = type_of p"
  by (cases p) (simp_all add: with_array_def)

lemma type_of_with_slot [simp]: "type_of (with_slot p sl x) = type_of p"
  by (cases p; cases sl) (simp_all add: with_slot_def)

lemma is_lazy_with_array [simp]: "is_lazy_quantifier (with_array p xs) = is_lazy_quantifier p"
  by (cases p) (simp_all add: with_array_def is_lazy_quantifier_def)

lemma is_lazy_with_slot [simp]: "is_lazy_quantifier (with_slot p sl x) = is_lazy_quantifier p"
  by (cases p; cases sl) (simp_all add: with_slot_def is_lazy_quantifier_def)

lemma leaf_walk:
  assumes "this_type v (type_of n) = no_callbacks" and "any_type v = no_callbacks"
    and "kids_of n = NoKids"
  shows "traverseNode (Suc fuel) v ast n pos s = Done (init_state n pos s)"
  using assms
  by (simp add: traverseNode_Suc enter_node_def exit_node_def run_callback_def walk_kids_def
      no_callbacks_def obind_def lift_def init_state_def)

lemma path_view_frame [simp]:
  "path_view pos ast (st\<lparr>ustate := u, calls := c\<rparr>) = path_view pos ast st"
  by (cases pos) (simp_all add: path_view_def)

lemma apply_action_frame:
  "apply_action pos (st\<lparr>ustate := u, calls := c\<rparr>) a =
     (case apply_action pos st a of
        Inl e \<Rightarrow> Inl e
      | Inr st' \<Rightarrow> Inr (st'\<lparr>ustate := u, calls := c\<rparr>))"
  by (cases a)
     (auto simp: apply_action_def remove_def removeAllNextSiblings_def
        removeAllPrevSiblings_def replaceWith_def skip_def Let_def
        split: position.splits option.splits)

lemma apply_actions_frame:
  "apply_actions pos (st\<lparr>ustate := u, calls := c\<rparr>) as =
     (case apply_actions pos st as of
        Inl e \<Rightarrow> Inl e
      | Inr st' \<Rightarrow> Inr (st'\<lparr>ustate := u, calls := c\<rparr>))"
proof (induction as arbitrary: st)
  case Nil
  then show ?case by simp
next
  case (Cons a as)
  show ?case
    by (cases "apply_action pos st a") (simp_all add: apply_action_frame Cons.IH)
qed

lemma apply_actions_append:
  "apply_actions pos st (as @ bs) =
     (case apply_actions pos st as of
        Inl e \<Rightarrow> Inl e
      | Inr st' \<Rightarrow> apply_actions pos st' bs)"
  by (induction as arbitrary: st) (auto split: sum.splits)

lemma enter_node_actions:
  assumes "enter_actions v ast n pos s = (acts, s')"
    and "apply_actions pos (init_state n pos s) acts = Inr st"
  shows "enter_node v ast n pos s = Inr (st\<lparr>ustate := s', calls := enter_events v n pos\<rparr>)"
proof -
  have pn: "path_node (init_state n pos s) = n" "calls (init_state n pos s) = []"
    "ustate (init_state n pos s) = s"
    by (simp_all add: init_state_def)
  show ?thesis
  proof (cases "enter (any_type v)")
    case None
    note anyNone = this
    show ?thesis
    proof (cases "enter (this_type v (type_of n))")
      case None
      with anyNone assms show ?thesis
        by (auto simp: enter_node_def enter_actions_def enter_events_def run_callback_def
            init_state_def)
    next
      case (Some g)
      with anyNone assms show ?thesis
        by (auto simp: enter_node_def enter_actions_def enter_events_def run_callback_def
            pn apply_actions_frame split: prod.splits)
    qed
  next
    case (Some f)
    note anySome = this
    obtain acts1 s1 where f: "f (path_view pos ast (init_state n pos s)) s = (acts1, s1)"
      by (cases "f (path_view pos ast (init_state n pos s)) s")
    show ?thesis
    proof (cases "apply_actions pos (init_state n pos s) acts1")
      case (Inl e)
      with anySome f assms show ?thesis
        by (simp add: enter_actions_def)
    next
      case (Inr st1)
      note st1 = this
      show ?thesis
      proof (cases "enter (this_type v (type_of n))")
        case None
        with anySome f st1 assms show ?thesis
          by (auto simp: enter_node_def enter_actions_def enter_events_def run_callback_def
              pn apply_actions_frame)
      next
        case (Some g)
        obtain acts2 s2 where g: "g (path_view pos ast st1) s1 = (acts2, s2)"
          by (cases "g (path_view pos ast st1) s1")
        from apply_actions_keeps[OF st1] have k: "path_node st1 = n" "ustate st1 = s"
          by (simp_all add: pn)
        from anySome Some f g st1 assms show ?thesis
          by (auto simp: enter_node_def enter_actions_def enter_events_def run_callback_def
              pn k apply_actions_frame apply_actions_append
              split: sum.splits)
      qed
    qed
  qed
qed


lemmas traverser_defs =
  traverseNode_Suc traverseArray_Suc walk_kids_def obind_def lift_def prepend_calls_def
  enter_node_def init_state_def exit_node_def run_callback_def apply_action_def
  remove_def removeAllNextSiblings_def removeAllPrevSiblings_def replaceWith_def skip_def
  js_set_def splice1_def cursor_def next_index_def container_of_def key_of_def
  path_view_def kids_of_def with_array_def with_slot_def store_kids_def

lemma splice1_nth: "Suc i < length xs \<Longrightarrow> splice1 i xs ! i = xs ! Suc i"
  by (simp add: splice1_def nth_append)

lemma splice1_length: "i < length xs \<Longrightarrow> length (splice1 i xs) = length xs - 1"
  by (simp add: splice1_def)

lemma splice1_take: "take i (splice1 i xs) = take i xs"
  by (cases "i \<le> length xs") (simp_all add: splice1_def)

lemma splice1_drop: "i < length xs \<Longrightarrow> drop i (splice1 i xs) = drop (Suc i) xs"
  by (simp add: splice1_def)

lemma remove_init:
  "apply_actions (AtIndex p i xs) (init_state n (AtIndex p i xs) s) [Remove] =
     Inr ((init_state n (AtIndex p i xs) s)
            \<lparr>cont := Some (splice1 i xs), keyShift := - 1, skipTraversingKidsOfPath := True\<rparr>)"
  by (simp add: apply_action_def remove_def init_state_def container_of_def cursor_def)

text \<open>
  C1: when the enter callbacks of the node at index \<open>i\<close> of an array container call
  \<^verbatim>\<open>remove()\<close> (and the exit callbacks leave the container and the shift alone), the node
  leaves the container, its kids are not walked, and the loop goes on at index \<open>i\<close> of the
  shortened array: the node visited next is the one formerly at index \<open>i + 1\<close>, now at
  index \<open>i\<close>; the siblings before the cursor stay as they are and those after it are
  exactly the ones still to be visited, so each remaining sibling is visited once.
\<close>

theorem remove_visits_next_sibling:
  assumes i: "i < length xs"
    and pos: "pos = AtIndex (with_array p xs) i xs"
    and en: "enter_actions v ast (xs ! i) pos s = ([Remove], s1)"
    and st2: "enter_node v ast (xs ! i) pos s = Inr st2"
    and ex: "exit_node v ast (xs ! i) pos st2 = Inr st3"
    and same_cont: "cont st3 = cont st2"
    and same_shift: "keyShift st3 = keyShift st2"
  shows "cont st2 = Some (splice1 i xs) \<and> keyShift st2 = - 1
       \<and> calls st2 = enter_events v (xs ! i) pos
       \<and> walk_kids fuel v ast pos st2 = Done st2
       \<and> traverseNode (Suc fuel) v ast (xs ! i) pos s = Done st3
       \<and> traverseArray (Suc (Suc fuel)) v ast p i xs s =
           prepend_calls (calls st3)
             (traverseArray (Suc fuel) v ast p i (splice1 i xs) (ustate st3))
       \<and> traverseArray (Suc fuel) v ast p i (splice1 i xs) (ustate st3) =
           (if Suc i < length xs then
              obind (traverseNode fuel v ast (xs ! Suc i)
                       (AtIndex (with_array p (splice1 i xs)) i (splice1 i xs)) (ustate st3))
                (\<lambda>st. prepend_calls (calls st)
                   (traverseArray fuel v ast p (next_index i (keyShift st))
                      (case cont st of Some c \<Rightarrow> c | None \<Rightarrow> splice1 i xs) (ustate st)))
            else Done (splice1 i xs, ustate st3, []))
       \<and> take i (splice1 i xs) = take i xs
       \<and> drop i (splice1 i xs) = drop (Suc i) xs"
proof -
  let ?n = "xs ! i"
  from enter_node_actions[OF en[unfolded pos] remove_init] st2
  have st2_eq: "st2 = (init_state ?n pos s)
      \<lparr>cont := Some (splice1 i xs), keyShift := - 1, skipTraversingKidsOfPath := True,
       ustate := s1, calls := enter_events v ?n pos\<rparr>"
    by (simp add: pos)
  have a: "cont st2 = Some (splice1 i xs)" "keyShift st2 = - 1"
    "calls st2 = enter_events v ?n pos" "skipTraversingKidsOfPath st2"
    by (simp_all add: st2_eq)
  have b: "walk_kids fuel v ast pos st2 = Done st2"
    using a(4) by (simp add: walk_kids_def)
  have c: "traverseNode (Suc fuel) v ast ?n pos s = Done st3"
    by (simp add: traverseNode_Suc st2 b ex obind_def lift_def)
  have ni: "next_index i (- 1) = i"
    by (simp add: next_index_def)
  have d: "traverseArray (Suc (Suc fuel)) v ast p i xs s =
           prepend_calls (calls st3)
             (traverseArray (Suc fuel) v ast p i (splice1 i xs) (ustate st3))"
    using i c[unfolded pos]
    by (subst traverseArray_Suc) (simp add: obind_def same_cont same_shift a ni)
  have e: "traverseArray (Suc fuel) v ast p i (splice1 i xs) (ustate st3) =
           (if Suc i < length xs then
              obind (traverseNode fuel v ast (xs ! Suc i)
                       (AtIndex (with_array p (splice1 i xs)) i (splice1 i xs)) (ustate st3))
                (\<lambda>st. prepend_calls (calls st)
                   (traverseArray fuel v ast p (next_index i (keyShift st))
                      (case cont st of Some c \<Rightarrow> c | None \<Rightarrow> splice1 i xs) (ustate st)))
            else Done (splice1 i xs, ustate st3, []))"
    using i by (subst traverseArray_Suc) (auto simp: splice1_length splice1_nth)
  from a b c d e splice1_take splice1_drop[OF i] show ?thesis by simp
qed


theorem remove_visits_next_sibling_witness:
  "Suc 0 < length abc
   \<and> enter_actions drop98_visitor (Alternative abc) (abc ! Suc 0)
         (AtIndex (with_array (Alternative abc) abc) (Suc 0) abc) () = ([Remove], ())
   \<and> enter_node drop98_visitor (Alternative abc) (abc ! Suc 0)
         (AtIndex (with_array (Alternative abc) abc) (Suc 0) abc) () = Inr removed98
   \<and> exit_node drop98_visitor (Alternative abc) (abc ! Suc 0)
         (AtIndex (with_array (Alternative abc) abc) (Suc 0) abc) removed98 = Inr removed98
   \<and> traverseArray (Suc (Suc (Suc (Suc 0)))) drop98_visitor (Alternative abc) (Alternative abc)
         (Suc 0) abc () =
       prepend_calls (calls removed98)
         (traverseArray (Suc (Suc (Suc 0))) drop98_visitor (Alternative abc) (Alternative abc)
            (Suc 0) (splice1 (Suc 0) abc) (ustate removed98))
   \<and> traverseArray (Suc (Suc (Suc (Suc 0)))) drop98_visitor (Alternative abc) (Alternative abc)
         0 abc () =
       Done ([Character 97, Character 99], (),
             [Called EnterThis (Character 97) (Some (Idx 0)),
              Called EnterThis (Character 98) (Some (Idx (Suc 0))),
              Called EnterThis (Character 99) (Some (Idx (Suc 0)))])"
proof -
  have h1: "Suc 0 < length abc"
    by (simp add: abc_def)
  have h2: "enter_actions drop98_visitor (Alternative abc) (abc ! Suc 0)
         (AtIndex (with_array (Alternative abc) abc) (Suc 0) abc) () = ([Remove], ())"
    by (simp add: enter_actions_def drop98_visitor_def no_handlers_def drop98_def abc_def
        traverser_defs)
  have h3: "enter_node drop98_visitor (Alternative abc) (abc ! Suc 0)
         (AtIndex (with_array (Alternative abc) abc) (Suc 0) abc) () = Inr removed98"
    by (simp add: drop98_visitor_def no_handlers_def drop98_def abc_def removed98_def
        traverser_defs)
  have h4: "exit_node drop98_visitor (Alternative abc) (abc ! Suc 0)
         (AtIndex (with_array (Alternative abc) abc) (Suc 0) abc) removed98 = Inr removed98"
    by (simp add: drop98_visitor_def no_handlers_def abc_def traverser_defs)
  have all: "traverseArray (Suc (Suc (Suc (Suc 0)))) drop98_visitor (Alternative abc)
         (Alternative abc) 0 abc () =
       Done ([Character 97, Character 99], (),
             [Called EnterThis (Character 97) (Some (Idx 0)),
              Called EnterThis (Character 98) (Some (Idx (Suc 0))),
              Called EnterThis (Character 99) (Some (Idx (Suc 0)))])"
    by (simp add: drop98_visitor_def no_handlers_def drop98_def abc_def traverser_defs)
  from remove_visits_next_sibling[OF h1 refl h2 h3 h4 refl refl, of "Suc (Suc 0)"]
    h1 h2 h3 h4 all
  show ?thesis by simp
qed


lemma replace_init:
  assumes "in_parent n pos"
  shows "apply_actions pos (init_state n pos s) [ReplaceWith newNode] =
     Inr ((init_state n pos s)
            \<lparr>cont := swapped_container pos newNode, cur := newNode, same := False\<rparr>)"
  using assms
  by (cases pos)
     (simp_all add: in_parent_def swapped_container_def apply_action_def replaceWith_def
        init_state_def container_of_def cursor_def js_set_def)

text \<open>
  C3, as the claim states it, fails: \<^verbatim>\<open>replaceWith\<close> takes the new node and nothing else, and
  the walk goes into the new node.  Here the callback replaces \<open>a\<close> by the class \<open>[b]\<close>
  without asking for a walk, and the callback is then called on the \<open>b\<close> inside the class.
\<close>

theorem replaceWith_default_counterexample:
  "outcome_calls
     (traverseNode (Suc (Suc (Suc (Suc (Suc (Suc 0)))))) swap97_visitor
        (Alternative [Character 97]) (Alternative [Character 97]) AtRoot ())
   = Some [Called EnterThis (Character 97) (Some (Idx 0)),
           Called EnterThis (Character 98) (Some (Idx 0))]"
  by (simp add: outcome_calls_def swap97_visitor_def swap97_def class98_def no_handlers_def
      traverser_defs)

text \<open>
  C3 (amended): when the enter callbacks of a node that hangs in a slot or in a container call
  \<^verbatim>\<open>replaceWith(newNode)\<close>, the new node takes the place of the current node in the parent
  slot or container, and the traverser goes on to walk the kids of the new node (the skip flag
  stays clear; there is no option to ask for or refuse the walk).
\<close>

theorem replaceWith_descends:
  assumes en: "enter_actions v ast n pos s = ([ReplaceWith newNode], s1)"
    and inp: "in_parent n pos"
  shows "\<exists>st2. enter_node v ast n pos s = Inr st2
       \<and> cur st2 = newNode
       \<and> cont st2 = swapped_container pos newNode
       \<and> p_parent (path_view pos ast st2) = swapped_parent pos newNode
       \<and> keyShift st2 = 0
       \<and> \<not> skipTraversingKidsOfPath st2
       \<and> walk_kids fuel v ast pos st2 =
           (case kids_of newNode of
              NoKids \<Rightarrow> Done st2
            | ArrayKids xs \<Rightarrow>
                obind (traverseArray fuel v ast newNode 0 xs s1)
                  (\<lambda>(xs', s', evs). Done (store_kids pos st2 (with_array newNode xs', s', evs)))
            | SlotKids ks \<Rightarrow>
                obind (traverseSlots fuel v ast newNode ks s1)
                  (\<lambda>r. Done (store_kids pos st2 r)))
       \<and> traverseNode (Suc fuel) v ast n pos s =
           obind (walk_kids fuel v ast pos st2) (\<lambda>st'. lift (exit_node v ast n pos st'))"
proof -
  let ?st2 = "(init_state n pos s)
      \<lparr>cont := swapped_container pos newNode, cur := newNode, same := False,
       ustate := s1, calls := enter_events v n pos\<rparr>"
  have e: "enter_node v ast n pos s = Inr ?st2"
    using enter_node_actions[OF en replace_init[OF inp]] by simp
  have f: "cur ?st2 = newNode" "cont ?st2 = swapped_container pos newNode"
    "keyShift ?st2 = 0" "\<not> skipTraversingKidsOfPath ?st2" "ustate ?st2 = s1"
    by (simp_all add: init_state_def)
  have g: "p_parent (path_view pos ast ?st2) = swapped_parent pos newNode"
    by (cases pos) (simp_all add: path_view_def swapped_parent_def swapped_container_def)
  have w: "walk_kids fuel v ast pos ?st2 =
           (case kids_of newNode of
              NoKids \<Rightarrow> Done ?st2
            | ArrayKids xs \<Rightarrow>
                obind (traverseArray fuel v ast newNode 0 xs s1)
                  (\<lambda>(xs', s', evs). Done (store_kids pos ?st2 (with_array newNode xs', s', evs)))
            | SlotKids ks \<Rightarrow>
                obind (traverseSlots fuel v ast newNode ks s1)
                  (\<lambda>r. Done (store_kids pos ?st2 r)))"
    by (cases "kids_of newNode") (simp_all add: walk_kids_def init_state_def)
  have t: "traverseNode (Suc fuel) v ast n pos s =
           obind (walk_kids fuel v ast pos ?st2) (\<lambda>st'. lift (exit_node v ast n pos st'))"
    by (simp add: traverseNode_Suc e obind_def lift_def)
  from e f g w t show ?thesis by blast
qed

theorem replaceWith_descends_witness:
  "enter_actions swap97_visitor (Alternative [Character 97]) (Character 97)
      (AtIndex (Alternative [Character 97]) 0 [Character 97]) () = ([ReplaceWith class98], ())
   \<and> in_parent (Character 97) (AtIndex (Alternative [Character 97]) 0 [Character 97])
   \<and> (\<exists>st2. enter_node swap97_visitor (Alternative [Character 97]) (Character 97)
              (AtIndex (Alternative [Character 97]) 0 [Character 97]) () = Inr st2
         \<and> cur st2 = class98
         \<and> cont st2 = Some [class98]
         \<and> \<not> skipTraversingKidsOfPath st2
         \<and> walk_kids (Suc (Suc 0)) swap97_visitor (Alternative [Character 97])
              (AtIndex (Alternative [Character 97]) 0 [Character 97]) st2 =
             obind (traverseArray (Suc (Suc 0)) swap97_visitor (Alternative [Character 97])
                      class98 0 [Character 98] ())
               (\<lambda>(xs', s', evs).
                   Done (store_kids (AtIndex (Alternative [Character 97]) 0 [Character 97]) st2
                           (with_array class98 xs', s', evs))))"
proof -
  have h1: "enter_actions swap97_visitor (Alternative [Character 97]) (Character 97)
      (AtIndex (Alternative [Character 97]) 0 [Character 97]) () = ([ReplaceWith class98], ())"
    by (simp add: enter_actions_def swap97_visitor_def swap97_def no_handlers_def
        traverser_defs)
  have h2: "in_parent (Character 97) (AtIndex (Alternative [Character 97]) 0 [Character 97])"
    by (simp add: in_parent_def)
  from replaceWith_descends[OF h1 h2, of "Suc (Suc 0)"] h1 h2
  show ?thesis
    by (auto simp: swapped_container_def class98_def kids_of_def)
qed

text \<open>
  C2, as the claim states it, fails: on a leaf node, with all four callbacks defined, the
  wildcard exit callback fires before the type-specific exit callback.
\<close>

theorem callback_order_counterexample:
  "outcome_calls (traverseNode (Suc 0) noop_visitor (Character 97) (Character 97) AtRoot ())
     = Some [Called EnterAny (Character 97) None, Called EnterThis (Character 97) None,
             Called ExitAny (Character 97) None, Called ExitThis (Character 97) None]"
  by (simp add: traverseNode_Suc walk_kids_def outcome_calls_def obind_def lift_def
      enter_node_def init_state_def exit_node_def run_callback_def noop_visitor_def
      noop_handlers_def noop_def container_of_def key_of_def path_view_def kids_of_def)

text \<open>
  C2 (amended): for every node whose walk finishes, under a visitor that defines the
  wildcard and the type-specific enter and exit callbacks, the callbacks fire in the order
  wildcard-enter, type-enter, the walk of the kids (nothing when skipped), wildcard-exit,
  type-exit.  The calls in the middle are those of the walk of the kids of the node, from the
  first kid on: of \<^verbatim>\<open>traverseArray\<close> from index 0 for an array of kids, of the slots in
  order otherwise; when there is a kid, they begin with the wildcard-enter call on the first
  one.
\<close>

theorem traverseNode_callback_order:
  assumes "enter (any_type v) = Some ea"
    and "enter (this_type v (type_of n)) = Some et"
    and "exit (any_type v) = Some xa"
    and "exit (this_type v (type_of n)) = Some xt"
    and "traverseNode (Suc fuel) v ast n pos s = Done st"
  shows "\<exists>st2 st3 kid_calls.
           enter_node v ast n pos s = Inr st2
         \<and> walk_kids fuel v ast pos st2 = Done st3
         \<and> calls st3 = calls st2 @ kid_calls
         \<and> (skipTraversingKidsOfPath st2 \<longrightarrow> kid_calls = [])
         \<and> (\<not> skipTraversingKidsOfPath st2 \<longrightarrow>
              (case kids_of (cur st2) of
                 NoKids \<Rightarrow> kid_calls = []
               | ArrayKids xs \<Rightarrow>
                   walk_events (traverseArray fuel v ast (cur st2) 0 xs (ustate st2))
                     = Some kid_calls
               | SlotKids ks \<Rightarrow>
                   walk_events (traverseSlots fuel v ast (cur st2) ks (ustate st2))
                     = Some kid_calls)
              \<and> (case first_kid (cur st2) of
                    None \<Rightarrow> kid_calls = []
                  | Some (kid, k) \<Rightarrow>
                      (\<exists>rest. kid_calls = Called EnterAny kid (Some k) # rest)))
         \<and> calls st =
             [Called EnterAny n (key_of pos), Called EnterThis n (key_of pos)]
             @ kid_calls
             @ [Called ExitAny (path_node st3) (key_of pos),
                Called ExitThis (path_node st3) (key_of pos)]"
proof -
  from assms(5) obtain st2 st3 where
    e: "enter_node v ast n pos s = Inr st2" and
    k: "walk_kids fuel v ast pos st2 = Done st3" and
    x: "exit_node v ast n pos st3 = Inr st"
    unfolding traverseNode_Suc obind_Done lift_Done by blast
  from e assms(1,2) obtain st1 where
    e1: "run_callback (Some ea) EnterAny pos ast (init_state n pos s) = Inr st1" and
    e2: "run_callback (Some et) EnterThis pos ast st1 = Inr st2"
    by (auto simp: enter_node_def split: sum.splits)
  from run_callback_Some[OF e1] run_callback_Some[OF e2]
  have c2: "calls st2 = [Called EnterAny n (key_of pos), Called EnterThis n (key_of pos)]"
    by (simp add: init_state_def)
  from x assms(3,4) obtain st4 where
    x1: "run_callback (Some xa) ExitAny pos ast st3 = Inr st4" and
    x2: "run_callback (Some xt) ExitThis pos ast st4 = Inr st"
    by (auto simp: exit_node_def split: sum.splits)
  from run_callback_Some[OF x1] run_callback_Some[OF x2]
  have c5: "calls st = calls st3 @ [Called ExitAny (path_node st3) (key_of pos),
                                    Called ExitThis (path_node st3) (key_of pos)]"
    by simp
  show ?thesis
  proof (cases "skipTraversingKidsOfPath st2")
    case True
    with k have "st3 = st2" by (simp add: walk_kids_def)
    with True e k c2 c5 show ?thesis by simp
  next
    case False
    from walk_kids_events[OF k False] obtain kid_calls where
      c3: "calls st3 = calls st2 @ kid_calls" and
      ev: "(case kids_of (cur st2) of
           NoKids \<Rightarrow> kid_calls = []
         | ArrayKids xs \<Rightarrow>
             walk_events (traverseArray fuel v ast (cur st2) 0 xs (ustate st2)) = Some kid_calls
         | SlotKids ks \<Rightarrow>
             walk_events (traverseSlots fuel v ast (cur st2) ks (ustate st2)) = Some kid_calls)"
      by blast
    have fk: "(case first_kid (cur st2) of
                    None \<Rightarrow> kid_calls = []
                  | Some (kid, k) \<Rightarrow>
                      (\<exists>rest. kid_calls = Called EnterAny kid (Some k) # rest))"
    proof (cases "first_kid (cur st2)")
      case None
      with no_first_kid[OF None ev] show ?thesis by simp
    next
      case (Some a)
      obtain kid k where a: "a = (kid, k)" by (cases a)
      from first_kid_call[OF assms(1) Some[unfolded a] ev] Some a show ?thesis by simp
    qed
    from e k c2 c3 c5 ev fk False show ?thesis by auto
  qed
qed

theorem traverseNode_callback_order_witness:
  "enter (any_type noop_visitor) = Some noop
   \<and> enter (this_type noop_visitor (type_of a_and_class)) = Some noop
   \<and> exit (any_type noop_visitor) = Some noop
   \<and> exit (this_type noop_visitor (type_of a_and_class)) = Some noop
   \<and> traverseNode (Suc 7) noop_visitor a_and_class a_and_class AtRoot () = Done a_and_class_final
   \<and> (\<exists>st2 st3 kid_calls.
           enter_node noop_visitor a_and_class a_and_class AtRoot () = Inr st2
         \<and> walk_kids 7 noop_visitor a_and_class AtRoot st2 = Done st3
         \<and> first_kid (cur st2) = Some (Character 97, Idx 0)
         \<and> (\<exists>rest. kid_calls = Called EnterAny (Character 97) (Some (Idx 0)) # rest)
         \<and> calls a_and_class_final =
             [Called EnterAny a_and_class None, Called EnterThis a_and_class None]
             @ kid_calls
             @ [Called ExitAny a_and_class None, Called ExitThis a_and_class None])
   \<and> calls a_and_class_final =
       [Called EnterAny a_and_class None, Called EnterThis a_and_class None,
        Called EnterAny (Character 97) (Some (Idx 0)),
        Called EnterThis (Character 97) (Some (Idx 0)),
        Called ExitAny (Character 97) (Some (Idx 0)),
        Called ExitThis (Character 97) (Some (Idx 0)),
        Called EnterAny (CharacterClass union False [Character 98]) (Some (Idx 1)),
        Called EnterThis (CharacterClass union False [Character 98]) (Some (Idx 1)),
        Called EnterAny (Character 98) (Some (Idx 0)),
        Called EnterThis (Character 98) (Some (Idx 0)),
        Called ExitAny (Character 98) (Some (Idx 0)),
        Called ExitThis (Character 98) (Some (Idx 0)),
        Called ExitAny (CharacterClass union False [Character 98]) (Some (Idx 1)),
        Called ExitThis (CharacterClass union False [Character 98]) (Some (Idx 1)),
        Called ExitAny a_and_class None, Called ExitThis a_and_class None]"
proof -
  have h1: "enter (any_type noop_visitor) = Some noop"
    and h3: "exit (any_type noop_visitor) = Some noop"
    by (simp_all add: noop_visitor_def noop_handlers_def)
  have h2: "enter (this_type noop_visitor (type_of a_and_class)) = Some noop"
    and h4: "exit (this_type noop_visitor (type_of a_and_class)) = Some noop"
    by (simp_all add: noop_visitor_def noop_handlers_def)
  have h5: "traverseNode (Suc 7) noop_visitor a_and_class a_and_class AtRoot ()
              = Done a_and_class_final"
    by (simp add: a_and_class_final_def a_and_class_calls_def a_and_class_def
        noop_visitor_def noop_handlers_def noop_def tfuel_numeral traverser_defs)
  have e: "enter_node noop_visitor a_and_class a_and_class AtRoot ()
             = Inr ((init_state a_and_class AtRoot ())
                      \<lparr>calls := [Called EnterAny a_and_class None,
                                  Called EnterThis a_and_class None]\<rparr>)"
    by (simp add: enter_node_def run_callback_def noop_visitor_def noop_handlers_def noop_def
        init_state_def key_of_def container_of_def path_view_def)
  have c: "calls a_and_class_final =
       [Called EnterAny a_and_class None, Called EnterThis a_and_class None,
        Called EnterAny (Character 97) (Some (Idx 0)),
        Called EnterThis (Character 97) (Some (Idx 0)),
        Called ExitAny (Character 97) (Some (Idx 0)),
        Called ExitThis (Character 97) (Some (Idx 0)),
        Called EnterAny (CharacterClass union False [Character 98]) (Some (Idx 1)),
        Called EnterThis (CharacterClass union False [Character 98]) (Some (Idx 1)),
        Called EnterAny (Character 98) (Some (Idx 0)),
        Called EnterThis (Character 98) (Some (Idx 0)),
        Called ExitAny (Character 98) (Some (Idx 0)),
        Called ExitThis (Character 98) (Some (Idx 0)),
        Called ExitAny (CharacterClass union False [Character 98]) (Some (Idx 1)),
        Called ExitThis (CharacterClass union False [Character 98]) (Some (Idx 1)),
        Called ExitAny a_and_class None, Called ExitThis a_and_class None]"
    by (simp add: a_and_class_final_def a_and_class_calls_def)
  from traverseNode_callback_order[OF h1 h2 h3 h4 h5] obtain st2 st3 kid_calls where
    r: "enter_node noop_visitor a_and_class a_and_class AtRoot () = Inr st2"
       "walk_kids 7 noop_visitor a_and_class AtRoot st2 = Done st3"
       "\<not> skipTraversingKidsOfPath st2 \<longrightarrow>
          (case first_kid (cur st2) of
             None \<Rightarrow> kid_calls = []
           | Some (kid, k) \<Rightarrow> (\<exists>rest. kid_calls = Called EnterAny kid (Some k) # rest))"
       "calls a_and_class_final =
             [Called EnterAny a_and_class (key_of AtRoot),
              Called EnterThis a_and_class (key_of AtRoot)]
             @ kid_calls
             @ [Called ExitAny (path_node st3) (key_of AtRoot),
                Called ExitThis (path_node st3) (key_of AtRoot)]"
    by blast
  from r(1) e have st2: "cur st2 = a_and_class" "\<not> skipTraversingKidsOfPath st2"
    by (auto simp: init_state_def)
  have fk: "first_kid a_and_class = Some (Character 97, Idx 0)"
    by (simp add: first_kid_def a_and_class_def kids_of_def)
  from r(4) c have pn: "path_node st3 = a_and_class"
    by (simp add: key_of_def)
  from r st2 fk pn have
    "\<exists>st2 st3 kid_calls.
           enter_node noop_visitor a_and_class a_and_class AtRoot () = Inr st2
         \<and> walk_kids 7 noop_visitor a_and_class AtRoot st2 = Done st3
         \<and> first_kid (cur st2) = Some (Character 97, Idx 0)
         \<and> (\<exists>rest. kid_calls = Called EnterAny (Character 97) (Some (Idx 0)) # rest)
         \<and> calls a_and_class_final =
             [Called EnterAny a_and_class None, Called EnterThis a_and_class None]
             @ kid_calls
             @ [Called ExitAny a_and_class None, Called ExitThis a_and_class None]"
    by (auto simp: key_of_def)
  with h1 h2 h3 h4 h5 c show ?thesis by blast
qed

section \<open>Properties of the parser and the transforms\<close>

lemmas fuel_numeral =
  walk.simps(2,3)[where fuel = "pred_numeral k", folded numeral_eq_Suc]
  classLoop.simps(2,3)[where fuel = "pred_numeral k", folded numeral_eq_Suc]
  groupLoop.simps(2,3)[where fuel = "pred_numeral k", folded numeral_eq_Suc]
  topLoop.simps(2,3)[where fuel = "pred_numeral k", folded numeral_eq_Suc]
  for k

lemmas parser_defs =
  fuel_numeral parse_def pbind_def plift_def walk_token_def initial_context_def empty_state_def
  validate_def check_subroutine_def createRegex_def createPattern_def createFlags_def
  createAlternative_def with_array_def createCharacter_def parseQuantifier_def
  createQuantifier_def open_group_def createByGroupKind_def createGroup_def
  createCapturingGroup_def createLookaroundAssertion_def createAbsentFunction_def
  child_state_def lookbehind_violation_def isLookahead_def isLookbehind_def
  lookaround_negate_def truthy_def List.map_filter_def

text \<open>
  C5: a quantifier token with \<open>max < min\<close> behind a quantifiable element is parsed to a
  \<open>Quantifier\<close> node of kind possessive with the bounds swapped; the element is taken off the
  alternative and becomes the quantifier's element.
\<close>

theorem reversed_bounds_possessive:
  assumes "m < mn" and "elems \<noteq> []"
    and "type_of (last elems) \<noteq> AssertionT"
    and "type_of (last elems) \<noteq> DirectiveT"
    and "type_of (last elems) \<noteq> LookaroundAssertionT"
  shows "createQuantifier (last elems) mn (enat m) kind
           = Quantifier possessive m (enat mn) (last elems)
       \<and> parseQuantifier elems mn (enat m) kind
           = Inr (Quantifier possessive m (enat mn) (last elems), butlast elems)
       \<and> walk (Suc fuel) opts ctx st elems (QuantifierTok mn (enat m) kind # ts)
           = Parsed (Quantifier possessive m (enat mn) (last elems), butlast elems, ts, ctx)"
  using assms
  by (simp add: createQuantifier_def parseQuantifier_def walk_token_def pbind_def plift_def)

theorem reversed_bounds_possessive_witness:
  "(1::nat) < 3 \<and> [Character 97] \<noteq> []
   \<and> type_of (last [Character 97]) \<noteq> AssertionT
   \<and> type_of (last [Character 97]) \<noteq> DirectiveT
   \<and> type_of (last [Character 97]) \<noteq> LookaroundAssertionT
   \<and> walk (Suc 0) default_options initial_context empty_state [Character 97]
        [QuantifierTok 3 (enat 1) greedy]
      = Parsed (Quantifier possessive 1 (enat 3) (Character 97), [], [], initial_context)
   \<and> parse default_options a_3_1
      = Parsed (Regex (Pattern [Alternative [Quantifier possessive 1 (enat 3) (Character 97)]])
                  (Flags default_flags))"
proof -
  have h: "(1::nat) < 3" "[Character 97] \<noteq> []"
    "type_of (last [Character 97]) \<noteq> AssertionT"
    "type_of (last [Character 97]) \<noteq> DirectiveT"
    "type_of (last [Character 97]) \<noteq> LookaroundAssertionT"
    by simp_all
  have p: "parse default_options a_3_1
      = Parsed (Regex (Pattern [Alternative [Quantifier possessive 1 (enat 3) (Character 97)]])
                  (Flags default_flags))"
    by (simp add: a_3_1_def parser_defs)
  from reversed_bounds_possessive[OF h, of greedy 0 default_options initial_context
      empty_state "[]"] h p
  show ?thesis by simp
qed

text \<open>
  C9: a \<open>property\<close> token whose slug is a POSIX class name and not a key of the Unicode
  property map is parsed to a \<open>CharacterSet\<close> node of kind \<open>posix\<close> with the slug as value,
  the node that the POSIX token of that name is parsed to.
\<close>

theorem property_token_posix:
  assumes "slug name \<in> set (PosixClassNames opts)"
    and "case unicodePropertyMap opts of None \<Rightarrow> True | Some m \<Rightarrow> m (slug name) = None"
  shows "parseCharacterSet opts property negate (Some name)
           = Inr (CharacterSet posix (Some (slug name)) (Some (truthy negate)) None)
       \<and> parseCharacterSet opts property negate (Some name)
           = parseCharacterSet opts posix negate (Some (slug name))
       \<and> walk (Suc fuel) opts ctx st elems (CharacterSetTok property negate (Some name) # ts)
           = Parsed (CharacterSet posix (Some (slug name)) (Some (truthy negate)) None,
                     elems, ts, ctx)"
  using assms
  by (auto simp: parseCharacterSet_def createPosixClass_def walk_token_def pbind_def plift_def
      Let_def split: option.splits)

theorem property_token_posix_witness:
  "slug ''Digit'' \<in> set (PosixClassNames default_options)
   \<and> (case unicodePropertyMap default_options of
         None \<Rightarrow> True | Some m \<Rightarrow> m (slug ''Digit'') = None)
   \<and> parseCharacterSet default_options property (Some False) (Some ''Digit'')
        = Inr (CharacterSet posix (Some ''digit'') (Some False) None)
   \<and> walk (Suc 0) default_options initial_context empty_state [] [p_digit]
        = walk (Suc 0) default_options initial_context empty_state [] [posix_digit]"
proof -
  have s: "slug ''Digit'' = ''digit''"
    by (simp add: slug_def toLowerCase_def is_upper_def char_of_def bit_iff_odd)
  have h1: "slug ''Digit'' \<in> set (PosixClassNames default_options)"
    by (simp add: s default_options_def)
  have h2: "case unicodePropertyMap default_options of
         None \<Rightarrow> True | Some m \<Rightarrow> m (slug ''Digit'') = None"
    by (simp add: default_options_def)
  have w: "walk (Suc 0) default_options initial_context empty_state [] [posix_digit]
      = Parsed (CharacterSet posix (Some ''digit'') (Some False) None, [], [], initial_context)"
    by (simp add: posix_digit_def walk_token_def parseCharacterSet_def createPosixClass_def
        default_options_def pbind_def plift_def truthy_def)
  from property_token_posix[OF h1 h2, of "Some False" 0 initial_context empty_state "[]" "[]"]
    h1 h2 w s
  show ?thesis by (simp add: p_digit_def truthy_def)
qed



lemma unwrap_enter_actions:
  assumes "position_parent pos = Some par" and "type_of par \<noteq> CharacterClassT"
  shows "enter_actions unwrapNegationWrappers ast (CharacterClass union True [Character 10]) pos s
         = (if type_of par = QuantifierT \<and> \<not> is_lazy_quantifier par then []
            else [ReplaceWith (CharacterSet newline None (Some True) None)], s)"
  using assms
  by (cases pos)
     (auto simp: enter_actions_def unwrapNegationWrappers_def no_callbacks_def
        unwrapNegationWrappers_callback_def unwrapNegationWrappers_CharacterClass_def
        createCharacterSet_def truthy_def path_view_def init_state_def position_parent_def
        container_of_def)

text \<open>
  C8: the walk of unwrap-negation-wrappers over a negated union class whose only element is
  the character 10, held by a parent that is not a character class, replaces the class by
  the negated newline set \<^verbatim>\<open>\N\<close> in the container or the slot that holds it, unless the parent
  is a quantifier that is not lazy: then the class stays as it is.
\<close>

theorem unwrapNegationWrappers_newline:
  assumes inp: "in_parent (CharacterClass union True [Character 10]) pos"
    and par: "position_parent pos = Some par"
    and nc: "type_of par \<noteq> CharacterClassT"
  shows "traverseNode (Suc (Suc (Suc fuel))) unwrapNegationWrappers ast
           (CharacterClass union True [Character 10]) pos s =
         Done (if type_of par = QuantifierT \<and> \<not> is_lazy_quantifier par
               then (init_state (CharacterClass union True [Character 10]) pos s)
                      \<lparr>calls := [Called EnterThis (CharacterClass union True [Character 10])
                                  (key_of pos)]\<rparr>
               else (init_state (CharacterClass union True [Character 10]) pos s)
                      \<lparr>cur := CharacterSet newline None (Some True) None,
                       same := False,
                       cont := swapped_container pos (CharacterSet newline None (Some True) None),
                       calls := [Called EnterThis (CharacterClass union True [Character 10])
                                  (key_of pos)]\<rparr>)"
proof -
  let ?n = "CharacterClass union True [Character 10]"
  let ?N = "CharacterSet newline None (Some True) None"
  let ?v = "unwrapNegationWrappers :: 'a visitor"
  have ev: "enter_events ?v ?n pos = [Called EnterThis ?n (key_of pos)]"
    by (simp add: enter_events_def unwrapNegationWrappers_def no_callbacks_def)
  have ex: "exit_node ?v ast ?n pos st = Inr st" for st :: "'a tstate"
    by (simp add: exit_node_def unwrapNegationWrappers_def no_callbacks_def run_callback_def)
  show ?thesis
  proof (cases "type_of par = QuantifierT \<and> \<not> is_lazy_quantifier par")
    case True
    let ?st2 = "(init_state ?n pos s)\<lparr>calls := [Called EnterThis ?n (key_of pos)]\<rparr>"
    from unwrap_enter_actions[OF par nc, of ast s] True
    have en: "enter_actions ?v ast ?n pos s = ([], s)" by simp
    have "enter_node ?v ast ?n pos s
            = Inr ((init_state ?n pos s)\<lparr>ustate := s, calls := enter_events ?v ?n pos\<rparr>)"
      by (rule enter_node_actions[OF en]) simp
    then have e: "enter_node ?v ast ?n pos s = Inr ?st2"
      by (simp add: ev init_state_def)
    have kid: "traverseNode (Suc fuel) ?v ast (Character 10) kp s
                 = Done (init_state (Character 10) kp s)" for kp
      by (rule leaf_walk) (simp_all add: unwrapNegationWrappers_def kids_of_def)
    have arr: "traverseArray (Suc (Suc fuel)) ?v ast ?n 0 [Character 10] s
                 = Done ([Character 10], s, [])"
      by (simp add: traverseArray_Suc kid obind_def prepend_calls_def init_state_def
          container_of_def next_index_def)
    have w: "walk_kids (Suc (Suc fuel)) ?v ast pos ?st2 = Done ?st2"
      using inp
      by (cases pos)
         (simp_all add: walk_kids_def kids_of_def init_state_def arr obind_def store_kids_def
            with_array_def container_of_def cursor_def in_parent_def list_update_same_conv)
    show ?thesis
      unfolding if_P[OF True] by (simp add: traverseNode_Suc e w ex obind_def lift_def)
  next
    case False
    let ?st2 = "(init_state ?n pos s)
      \<lparr>cur := ?N, same := False, cont := swapped_container pos ?N,
       calls := [Called EnterThis ?n (key_of pos)]\<rparr>"
    from unwrap_enter_actions[OF par nc, of ast s] False
    have en: "enter_actions ?v ast ?n pos s = ([ReplaceWith ?N], s)" by simp
    from enter_node_actions[OF en replace_init[OF inp]]
    have e: "enter_node ?v ast ?n pos s = Inr ?st2"
      by (simp add: ev init_state_def)
    have w: "walk_kids (Suc (Suc fuel)) ?v ast pos ?st2 = Done ?st2"
      by (simp add: walk_kids_def kids_of_def init_state_def)
    show ?thesis
      unfolding if_not_P[OF False] by (simp add: traverseNode_Suc e w ex obind_def lift_def)
  qed
qed

theorem unwrapNegationWrappers_newline_witness:
  "in_parent (CharacterClass union True [Character 10])
      (AtIndex (Alternative [Character 97, not_newline]) 1 [Character 97, not_newline])
   \<and> position_parent
        (AtIndex (Alternative [Character 97, not_newline]) 1 [Character 97, not_newline])
      = Some (Alternative [Character 97, not_newline])
   \<and> type_of (Alternative [Character 97, not_newline]) \<noteq> CharacterClassT
   \<and> outcome_node (traverseNode 3 unwrapNegationWrappers newline_classes
         (CharacterClass union True [Character 10])
         (AtIndex (Alternative [Character 97, not_newline]) 1 [Character 97, not_newline]) ())
      = Some not_newline_set
   \<and> in_parent (CharacterClass union True [Character 10])
        (AtSlot (Quantifier greedy 2 (enat 2) not_newline) element_slot)
   \<and> outcome_node (traverseNode 3 unwrapNegationWrappers newline_classes
         (CharacterClass union True [Character 10])
         (AtSlot (Quantifier greedy 2 (enat 2) not_newline) element_slot) ())
      = Some not_newline
   \<and> outcome_node (traverseNode 3 unwrapNegationWrappers newline_classes
         (CharacterClass union True [Character 10])
         (AtSlot (Quantifier lazy 0 \<infinity> not_newline) element_slot) ())
      = Some not_newline_set
   \<and> outcome_node (traverse 20 None newline_classes AtRoot () unwrapNegationWrappers)
      = Some newline_classes_unwrapped"
proof -
  have h1: "in_parent (CharacterClass union True [Character 10])
      (AtIndex (Alternative [Character 97, not_newline]) 1 [Character 97, not_newline])"
    and h4: "in_parent (CharacterClass union True [Character 10])
        (AtSlot (Quantifier greedy 2 (enat 2) not_newline) element_slot)"
    and h5: "in_parent (CharacterClass union True [Character 10])
        (AtSlot (Quantifier lazy 0 \<infinity> not_newline) element_slot)"
    by (simp_all add: in_parent_def not_newline_def)
  have h2: "position_parent
        (AtIndex (Alternative [Character 97, not_newline]) 1 [Character 97, not_newline])
      = Some (Alternative [Character 97, not_newline])"
    and h6: "position_parent (AtSlot (Quantifier greedy 2 (enat 2) not_newline) element_slot)
      = Some (Quantifier greedy 2 (enat 2) not_newline)"
    and h7: "position_parent (AtSlot (Quantifier lazy 0 \<infinity> not_newline) element_slot)
      = Some (Quantifier lazy 0 \<infinity> not_newline)"
    by (simp_all add: position_parent_def)
  have h3: "type_of (Alternative [Character 97, not_newline]) \<noteq> CharacterClassT"
    and h8: "type_of (Quantifier greedy 2 (enat 2) not_newline) \<noteq> CharacterClassT"
    and h9: "type_of (Quantifier lazy 0 \<infinity> not_newline) \<noteq> CharacterClassT"
    by simp_all
  have run: "outcome_node (traverse 20 None newline_classes AtRoot () unwrapNegationWrappers)
      = Some newline_classes_unwrapped"
    by (simp add: outcome_node_def traverse_def newline_classes_def
        newline_classes_unwrapped_def not_newline_def not_newline_set_def
        unwrapNegationWrappers_def no_callbacks_def unwrapNegationWrappers_callback_def
        unwrapNegationWrappers_CharacterClass_def createCharacterSet_def truthy_def
        is_lazy_quantifier_def tfuel_numeral traverser_defs)
  have a: "outcome_node (traverseNode 3 unwrapNegationWrappers newline_classes
         (CharacterClass union True [Character 10])
         (AtIndex (Alternative [Character 97, not_newline]) 1 [Character 97, not_newline]) ())
      = Some not_newline_set"
    using unwrapNegationWrappers_newline[OF h1 h2 h3, of 0 newline_classes "()"]
    by (simp add: outcome_node_def numeral_3_eq_3 not_newline_set_def)
  have b: "outcome_node (traverseNode 3 unwrapNegationWrappers newline_classes
         (CharacterClass union True [Character 10])
         (AtSlot (Quantifier greedy 2 (enat 2) not_newline) element_slot) ())
      = Some not_newline"
    using unwrapNegationWrappers_newline[OF h4 h6 h8, of 0 newline_classes "()"]
    by (simp add: outcome_node_def numeral_3_eq_3 not_newline_def is_lazy_quantifier_def
        init_state_def)
  have c: "outcome_node (traverseNode 3 unwrapNegationWrappers newline_classes
         (CharacterClass union True [Character 10])
         (AtSlot (Quantifier lazy 0 \<infinity> not_newline) element_slot) ())
      = Some not_newline_set"
    using unwrapNegationWrappers_newline[OF h5 h7 h9, of 0 newline_classes "()"]
    by (simp add: outcome_node_def numeral_3_eq_3 not_newline_set_def is_lazy_quantifier_def)
  from a b c h1 h2 h3 h4 run show ?thesis by simp
qed

subsection \<open>The walk consumes tokens and returns\<close>

lemma pbind_Parsed:
  "pbind m f = Parsed y \<longleftrightarrow> (\<exists>x. m = Parsed x \<and> f x = Parsed y)"
  by (cases m) (simp_all add: pbind_def)

lemma pbind_NoFuel:
  "pbind m f = NoFuel \<longleftrightarrow> (m = NoFuel \<or> (\<exists>x. m = Parsed x \<and> f x = NoFuel))"
  by (cases m) (simp_all add: pbind_def)

lemma plift_Parsed: "plift r = Parsed x \<longleftrightarrow> r = Inr x"
  by (cases r) (simp_all add: plift_def)

lemma plift_NoFuel [simp]: "plift r \<noteq> NoFuel"
  by (cases r) (simp_all add: plift_def)

lemma walk_token_rest:
  "walk_token opts ctx st elems t ts = Parsed (n, e, rest, c) \<Longrightarrow> rest = ts"
  by (cases t) (auto simp: walk_token_def pbind_Parsed)

lemma walk_token_returns [simp]: "walk_token opts ctx st elems t ts \<noteq> NoFuel"
  by (cases t) (auto simp: walk_token_def pbind_NoFuel)

lemma finish_range_rest:
  "finish_range elems (n0, e0, rest0, c0) = Parsed (n, e, rest, c) \<Longrightarrow> rest = rest0"
  by (auto simp: finish_range_def pbind_Parsed split: if_splits)

lemma finish_range_returns [simp]: "finish_range elems r \<noteq> NoFuel"
  by (cases r) (auto simp: finish_range_def pbind_NoFuel)

lemma consumes:
  "(\<forall>opts ctx st elems ts n e rest c.
      walk f opts ctx st elems ts = Parsed (n, e, rest, c) \<longrightarrow> length rest < length ts)
   \<and> (\<forall>opts ctx st first inters ts i rest c.
      classLoop f opts ctx st first inters ts = Parsed (i, rest, c) \<longrightarrow> length rest < length ts)
   \<and> (\<forall>opts ctx st g alts ts a rest c.
      groupLoop f opts ctx st g alts ts = Parsed (a, rest, c) \<longrightarrow> length rest < length ts)"
proof (induction f)
  case 0
  show ?case by simp
next
  case (Suc f)
  have w: "length rest < length ts"
    if "walk (Suc f) opts ctx st elems ts = Parsed (n, e, rest, c)"
    for opts ctx st elems ts n e rest c
  proof (cases ts)
    case Nil
    with that show ?thesis by simp
  next
    case (Cons t ts')
    show ?thesis
    proof (cases t)
      case CharacterClassHyphenTok
      with that Cons Suc.IH show ?thesis
        by (fastforce simp: pbind_Parsed plift_Parsed split: if_splits dest: finish_range_rest)
    next
      case (CharacterClassOpenTok ng)
      with that Cons Suc.IH show ?thesis
        by (fastforce simp: pbind_Parsed split: list.splits)
    next
      case (GroupOpenTok tok)
      with that Cons Suc.IH show ?thesis
        by (fastforce simp: pbind_Parsed)
    qed (use that Cons in \<open>auto dest: walk_token_rest\<close>)
  qed
  have cl: "length rest < length ts"
    if "classLoop (Suc f) opts ctx st first inters ts = Parsed (i, rest, c)"
    for opts ctx st first inters ts i rest c
  proof (cases ts)
    case Nil
    with that show ?thesis by simp
  next
    case (Cons t ts')
    with that Suc.IH show ?thesis
      by (fastforce simp: pbind_Parsed split: if_splits)
  qed
  have gl: "length rest < length ts"
    if "groupLoop (Suc f) opts ctx st g alts ts = Parsed (a, rest, c)"
    for opts ctx st g alts ts a rest c
  proof (cases ts)
    case Nil
    with that show ?thesis by simp
  next
    case (Cons t ts')
    with that Suc.IH show ?thesis
      by (fastforce simp: pbind_Parsed split: if_splits)
  qed
  from w cl gl show ?case by blast
qed


lemma walk_consumes:
  "walk f opts ctx st elems ts = Parsed (n, e, rest, c) \<Longrightarrow> length rest < length ts"
  using consumes[of f] by metis

lemma classLoop_consumes:
  "classLoop f opts ctx st first inters ts = Parsed (i, rest, c) \<Longrightarrow> length rest < length ts"
  using consumes[of f] by metis

lemma groupLoop_consumes:
  "groupLoop f opts ctx st g alts ts = Parsed (a, rest, c) \<Longrightarrow> length rest < length ts"
  using consumes[of f] by metis

lemma enough_fuel:
  "(\<forall>opts ctx st elems ts.
      2 * length ts + 1 \<le> f \<longrightarrow> walk f opts ctx st elems ts \<noteq> NoFuel)
   \<and> (\<forall>opts ctx st first inters ts.
      2 * length ts + 2 \<le> f \<longrightarrow> classLoop f opts ctx st first inters ts \<noteq> NoFuel)
   \<and> (\<forall>opts ctx st g alts ts.
      2 * length ts + 2 \<le> f \<longrightarrow> groupLoop f opts ctx st g alts ts \<noteq> NoFuel)"
proof (induction f)
  case 0
  show ?case by simp
next
  case (Suc f)
  have w: "walk (Suc f) opts ctx st elems ts \<noteq> NoFuel"
    if "2 * length ts + 1 \<le> Suc f" for opts ctx st elems ts
  proof (cases ts)
    case Nil
    then show ?thesis by simp
  next
    case (Cons t ts')
    with that have le: "2 * length ts' + 2 \<le> f" by simp
    then have le1: "2 * length ts' + 1 \<le> f" by simp
    show ?thesis
    proof (cases t)
      case CharacterClassHyphenTok
      with Cons Suc.IH le1 show ?thesis
        by (auto simp: pbind_NoFuel)
    next
      case (CharacterClassOpenTok ng)
      with Cons Suc.IH le show ?thesis
        by (auto simp: pbind_NoFuel split: list.splits)
    next
      case (GroupOpenTok tok)
      with Cons Suc.IH le show ?thesis
        by (auto simp: pbind_NoFuel)
    qed (use Cons in auto)
  qed
  have cl: "classLoop (Suc f) opts ctx st first inters ts \<noteq> NoFuel"
    if "2 * length ts + 2 \<le> Suc f" for opts ctx st first inters ts
  proof (cases ts)
    case Nil
    then show ?thesis by simp
  next
    case (Cons t ts')
    with that have le: "2 * length ts + 1 \<le> f" and le': "2 * length ts' + 2 \<le> f"
      by simp_all
    have "classLoop f opts c st first i rest \<noteq> NoFuel"
      if "walk f opts ctx st (last inters) (t # ts') = Parsed (n, e, rest, c)"
      for n e rest c i
    proof -
      from walk_consumes[OF that] le Cons have "2 * length rest + 2 \<le> f" by simp
      with Suc.IH show ?thesis by blast
    qed
    with Cons Suc.IH le le' show ?thesis
      by (auto simp: pbind_NoFuel)
  qed
  have gl: "groupLoop (Suc f) opts ctx st g alts ts \<noteq> NoFuel"
    if "2 * length ts + 2 \<le> Suc f" for opts ctx st g alts ts
  proof (cases ts)
    case Nil
    then show ?thesis by simp
  next
    case (Cons t ts')
    with that have le: "2 * length ts + 1 \<le> f" and le': "2 * length ts' + 2 \<le> f"
      by simp_all
    have "groupLoop f opts c st g a rest \<noteq> NoFuel"
      if "walk f opts ctx (child_state st g) (last alts) (t # ts') = Parsed (n, e, rest, c)"
      for n e rest c a
    proof -
      from walk_consumes[OF that] le Cons have "2 * length rest + 2 \<le> f" by simp
      with Suc.IH show ?thesis by blast
    qed
    with Cons Suc.IH le le' show ?thesis
      by (auto simp: pbind_NoFuel)
  qed
  from w cl gl show ?case by blast
qed

lemma walk_returns:
  "2 * length ts + 1 \<le> f \<Longrightarrow> walk f opts ctx st elems ts \<noteq> NoFuel"
  using enough_fuel[of f] by metis

lemma groupLoop_returns:
  "2 * length ts + 2 \<le> f \<Longrightarrow> groupLoop f opts ctx st g alts ts \<noteq> NoFuel"
  using enough_fuel[of f] by metis

lemma topLoop_returns:
  "2 * length ts + 2 \<le> f \<Longrightarrow> topLoop f opts ctx alts ts \<noteq> NoFuel"
proof (induction f arbitrary: ctx alts ts)
  case 0
  then show ?case by simp
next
  case (Suc f)
  show ?case
  proof (cases ts)
    case Nil
    then show ?thesis by simp
  next
    case (Cons t ts')
    with Suc.prems have le: "2 * length ts + 1 \<le> f" by simp
    have "topLoop f opts c a rest \<noteq> NoFuel"
      if "walk f opts ctx empty_state (last alts) (t # ts') = Parsed (n, e, rest, c)"
      for n e rest c a
    proof -
      from walk_consumes[OF that] le Cons have "2 * length rest + 2 \<le> f" by simp
      then show ?thesis by (rule Suc.IH)
    qed
    with Cons walk_returns[OF le[unfolded Cons], of opts ctx empty_state "last alts"]
    show ?thesis
      by (auto simp: pbind_NoFuel split: node.splits)
  qed
qed

lemma parse_returns: "parse opts tokenized \<noteq> NoFuel"
  using topLoop_returns[of "tokens tokenized" "2 * length (tokens tokenized) + 2"
      opts initial_context "[[]]"]
  by (auto simp: parse_def pbind_NoFuel split: option.splits)


lemma list_all_butlast: "list_all P xs \<Longrightarrow> list_all P (butlast xs)"
  by (induction xs) auto

lemma list_all_last: "list_all P xs \<Longrightarrow> xs \<noteq> [] \<Longrightarrow> P (last xs)"
  by (induction xs) auto

lemma ne_walk_token:
  assumes "walk_token opts ctx st elems t ts = Parsed (n, e, rest, c)"
    and "list_all alternatives_nonempty elems"
  shows "alternatives_nonempty n \<and> list_all alternatives_nonempty e"
  using assms
  by (cases t)
     (auto simp: walk_token_def pbind_Parsed plift_Parsed createAlternative_def
        createAssertionFromToken_def createAssertion_def parseBackreference_def fromNum_def
        createBackreference_def createCharacter_def parseCharacterSet_def createPosixClass_def
        createUnicodeProperty_def createCharacterSet_def createDirective_def
        parseQuantifier_def createQuantifier_def parseSubroutine_def createSubroutine_def
        Let_def list_all_butlast list_all_last
        split: if_splits option.splits directive_kind.splits enat.splits prod.splits)


lemma ne_finish_range:
  assumes "finish_range elems (n0, e0, rest0, c0) = Parsed (n, e, rest, c)"
    and "list_all alternatives_nonempty elems" and "alternatives_nonempty n0" and "list_all alternatives_nonempty e0"
  shows "alternatives_nonempty n \<and> list_all alternatives_nonempty e"
proof -
  from assms(1) have t: "type_of (last elems) = CharacterT" and e: "e = butlast e0"
    and r: "createCharacterClassRange (last elems) n0 = Inr n"
    by (auto simp: finish_range_def pbind_Parsed plift_Parsed split: if_splits)
  from t obtain a where a: "last elems = Character a" by (cases "last elems") auto
  from r a assms(3) have "alternatives_nonempty n"
    by (auto simp: createCharacterClassRange_def split: node.splits if_splits)
  with e assms(4) show ?thesis by (simp add: list_all_butlast)
qed

lemma ne_finish_class:
  assumes "inters \<noteq> []" and "list_all (list_all alternatives_nonempty) inters"
  shows "alternatives_nonempty (finish_class ng inters)"
proof -
  have "list_all alternatives_nonempty (hd inters)" using assms by (cases inters) auto
  moreover have "list_all alternatives_nonempty
      (map (\<lambda>els. if length els = 1 then hd els else CharacterClass union False els) inters)"
    using assms(2)
  proof (induction inters)
    case Nil
    then show ?case by simp
  next
    case (Cons els inters)
    then show ?case by (cases els) auto
  qed
  ultimately show ?thesis by (simp add: finish_class_def)
qed

lemma ne_group:
  assumes "open_group ctx st tok = Inr (g, ctx1)"
  shows "alternatives_nonempty (with_array g (map Alternative alts)) = (alts \<noteq> [] \<and> list_all (list_all alternatives_nonempty) alts)"
proof -
  have m: "list_all alternatives_nonempty (map Alternative alts) = list_all (list_all alternatives_nonempty) alts"
    by (induction alts) auto
  from assms obtain g0 where "createByGroupKind tok = Inr g0" and "g = g0"
    by (auto simp: open_group_def Let_def split: sum.splits if_splits)
  then show ?thesis
    by (cases "g_kind tok")
       (auto simp: m createByGroupKind_def createAbsentFunction_def createGroup_def
          createCapturingGroup_def createLookaroundAssertion_def with_array_def
          split: option.splits if_splits)
qed

lemma list_all_snoc_last:
  assumes "xss \<noteq> []" and "list_all P xss" and "P ys"
  shows "butlast xss @ [ys] \<noteq> [] \<and> list_all P (butlast xss @ [ys])"
  using assms by (simp add: list_all_butlast)

lemma ne_invariant:
  "(\<forall>opts ctx st elems ts n e rest c.
      walk f opts ctx st elems ts = Parsed (n, e, rest, c) \<longrightarrow> list_all alternatives_nonempty elems
        \<longrightarrow> alternatives_nonempty n \<and> list_all alternatives_nonempty e)
   \<and> (\<forall>opts ctx st first inters ts i rest c.
      classLoop f opts ctx st first inters ts = Parsed (i, rest, c) \<longrightarrow> inters \<noteq> []
        \<longrightarrow> list_all (list_all alternatives_nonempty) inters \<longrightarrow> i \<noteq> [] \<and> list_all (list_all alternatives_nonempty) i)
   \<and> (\<forall>opts ctx st g alts ts a rest c.
      groupLoop f opts ctx st g alts ts = Parsed (a, rest, c) \<longrightarrow> alts \<noteq> []
        \<longrightarrow> list_all (list_all alternatives_nonempty) alts \<longrightarrow> a \<noteq> [] \<and> list_all (list_all alternatives_nonempty) a)"
proof (induction f)
  case 0
  show ?case by simp
next
  case (Suc f)
  note IHw = Suc.IH[THEN conjunct1, rule_format]
  note IHc = Suc.IH[THEN conjunct2, THEN conjunct1, rule_format]
  note IHg = Suc.IH[THEN conjunct2, THEN conjunct2, rule_format]
  have w: "alternatives_nonempty n \<and> list_all alternatives_nonempty e"
    if r: "walk (Suc f) opts ctx st elems ts = Parsed (n, e, rest, c)" and inv: "list_all alternatives_nonempty elems"
    for opts ctx st elems ts n e rest c
  proof (cases ts)
    case Nil
    with r show ?thesis by simp
  next
    case (Cons t ts')
    show ?thesis
    proof (cases t)
      case CharacterClassHyphenTok
      show ?thesis
      proof (cases "hyphen_is_range st elems ts'")
        case True
        with r Cons CharacterClassHyphenTok obtain n0 e0 rest0 c0 where
          w0: "walk f opts ctx (st\<lparr>isCheckingRangeEnd := True\<rparr>) elems ts'
                 = Parsed (n0, e0, rest0, c0)" and
          fr: "finish_range elems (n0, e0, rest0, c0) = Parsed (n, e, rest, c)"
          by (auto simp: pbind_Parsed)
        from IHw[OF w0 inv] ne_finish_range[OF fr inv] show ?thesis by simp
      next
        case False
        with r Cons CharacterClassHyphenTok inv show ?thesis
          by (auto simp: pbind_Parsed plift_Parsed createCharacter_def)
      qed
    next
      case (CharacterClassOpenTok ng)
      with r Cons obtain i where
        cl: "\<exists>first. classLoop f opts ctx st first [[]] ts' = Parsed (i, rest, c)" and
        n: "n = finish_class ng i" and e: "e = elems"
        by (auto simp: pbind_Parsed split: list.splits)
      from cl obtain first where "classLoop f opts ctx st first [[]] ts' = Parsed (i, rest, c)"
        by blast
      from IHc[OF this] have "i \<noteq> [] \<and> list_all (list_all alternatives_nonempty) i" by simp
      with n e inv ne_finish_class show ?thesis by simp
    next
      case (GroupOpenTok tok)
      with r Cons obtain g ctx1 a where
        og: "open_group ctx st tok = Inr (g, ctx1)" and
        gl: "groupLoop f opts ctx1 st g [[]] ts' = Parsed (a, rest, c)" and
        n: "n = with_array g (map Alternative a)" and e: "e = elems"
        by (auto simp: pbind_Parsed plift_Parsed)
      from IHg[OF gl] have "a \<noteq> [] \<and> list_all (list_all alternatives_nonempty) a" by simp
      with n e inv ne_group[OF og] show ?thesis by simp
    qed (use r Cons inv in \<open>auto dest: ne_walk_token\<close>)
  qed
  have cl: "i \<noteq> [] \<and> list_all (list_all alternatives_nonempty) i"
    if r: "classLoop (Suc f) opts ctx st first inters ts = Parsed (i, rest, c)"
      and ne0: "inters \<noteq> []" and inv: "list_all (list_all alternatives_nonempty) inters"
    for opts ctx st first inters ts i rest c
  proof (cases ts)
    case Nil
    with r show ?thesis by simp
  next
    case (Cons t ts')
    consider (close) "t = CharacterClassCloseTok"
      | (inter) "t \<noteq> CharacterClassCloseTok" "t = CharacterClassIntersectorTok"
      | (other) "t \<noteq> CharacterClassCloseTok" "t \<noteq> CharacterClassIntersectorTok"
      by blast
    then show ?thesis
    proof cases
      case close
      with r Cons ne0 inv show ?thesis by simp
    next
      case inter
      with r Cons have "classLoop f opts ctx st first (inters @ [[]]) ts' = Parsed (i, rest, c)"
        by simp
      from IHc[OF this] inv show ?thesis by simp
    next
      case other
      with r Cons obtain n e rest' c' where
        w0: "walk f opts ctx st (last inters) (t # ts') = Parsed (n, e, rest', c')" and
        l: "classLoop f opts c' st first (butlast inters @ [e @ [n]]) rest' = Parsed (i, rest, c)"
        by (auto simp: pbind_Parsed)
      from IHw[OF w0] list_all_last[OF inv ne0] have "list_all alternatives_nonempty (e @ [n])" by simp
      from IHc[OF l] list_all_snoc_last[OF ne0 inv this] show ?thesis by simp
    qed
  qed
  have gl: "a \<noteq> [] \<and> list_all (list_all alternatives_nonempty) a"
    if r: "groupLoop (Suc f) opts ctx st g alts ts = Parsed (a, rest, c)"
      and ne0: "alts \<noteq> []" and inv: "list_all (list_all alternatives_nonempty) alts"
    for opts ctx st g alts ts a rest c
  proof (cases ts)
    case Nil
    with r show ?thesis by simp
  next
    case (Cons t ts')
    consider (close) "t = GroupCloseTok"
      | (alt) "t \<noteq> GroupCloseTok" "t = AlternatorTok"
      | (other) "t \<noteq> GroupCloseTok" "t \<noteq> AlternatorTok"
      by blast
    then show ?thesis
    proof cases
      case close
      with r Cons ne0 inv show ?thesis by simp
    next
      case alt
      with r Cons have "groupLoop f opts ctx st g (alts @ [[]]) ts' = Parsed (a, rest, c)"
        by simp
      from IHg[OF this] inv show ?thesis by simp
    next
      case other
      with r Cons obtain n e rest' c' where
        w0: "walk f opts ctx (child_state st g) (last alts) (t # ts')
               = Parsed (n, e, rest', c')" and
        l: "groupLoop f opts c' st g (butlast alts @ [e @ [n]]) rest' = Parsed (a, rest, c)"
        by (auto simp: pbind_Parsed split: if_splits)
      from IHw[OF w0] list_all_last[OF inv ne0] have "list_all alternatives_nonempty (e @ [n])" by simp
      from IHg[OF l] list_all_snoc_last[OF ne0 inv this] show ?thesis by simp
    qed
  qed
  from w cl gl show ?case by blast
qed

lemma ne_topLoop:
  "topLoop f opts ctx alts ts = Parsed (a, c) \<Longrightarrow> alts \<noteq> [] \<Longrightarrow> list_all (list_all alternatives_nonempty) alts
     \<Longrightarrow> a \<noteq> [] \<and> list_all (list_all alternatives_nonempty) a"
proof (induction f arbitrary: ctx alts ts)
  case 0
  then show ?case by simp
next
  case (Suc f)
  show ?case
  proof (cases ts)
    case Nil
    with Suc.prems show ?thesis by simp
  next
    case (Cons t ts')
    with Suc.prems(1) obtain n e rest c' where
      w0: "walk f opts ctx empty_state (last alts) (t # ts') = Parsed (n, e, rest, c')" and
      l: "(case n of
             Alternative els \<Rightarrow> topLoop f opts c' (butlast alts @ [e] @ [els]) rest
           | _ \<Rightarrow> topLoop f opts c' (butlast alts @ [e @ [n]]) rest) = Parsed (a, c)"
      by (auto simp: pbind_Parsed)
    from ne_invariant[of f, THEN conjunct1, rule_format, OF w0]
      list_all_last[OF Suc.prems(3,2)]
    have n: "alternatives_nonempty n" and e: "list_all alternatives_nonempty e" by simp_all
    show ?thesis
    proof (cases "type_of n = AlternativeT")
      case True
      then obtain els where els: "n = Alternative els" by (cases n) auto
      with l have l': "topLoop f opts c' (butlast alts @ [e] @ [els]) rest = Parsed (a, c)"
        by simp
      from n els e Suc.prems(3) have "list_all (list_all alternatives_nonempty) (butlast alts @ [e] @ [els])"
        by (simp add: list_all_butlast)
      from Suc.IH[OF l' _ this] show ?thesis by simp
    next
      case False
      with l have l': "topLoop f opts c' (butlast alts @ [e @ [n]]) rest = Parsed (a, c)"
        by (cases n) auto
      from n e Suc.prems(3) have "list_all (list_all alternatives_nonempty) (butlast alts @ [e @ [n]])"
        by (simp add: list_all_butlast)
      from Suc.IH[OF l' _ this] show ?thesis by simp
    qed
  qed
qed

lemma ne_parse:
  assumes "parse opts tokenized = Parsed ast"
  shows "alternatives_nonempty ast"
proof -
  from assms obtain a c where
    t: "topLoop (2 * length (tokens tokenized) + 2) opts initial_context [[]]
          (tokens tokenized) = Parsed (a, c)" and
    ast: "ast = createRegex (with_array createPattern (map Alternative a))
                  (createFlags (tk_flags tokenized))"
    by (auto simp: parse_def pbind_Parsed split: option.splits)
  from ne_topLoop[OF t] have "a \<noteq> []" and "list_all (list_all alternatives_nonempty) a" by simp_all
  moreover have "list_all alternatives_nonempty (map Alternative a) = list_all (list_all alternatives_nonempty) a"
    by (induction a) auto
  ultimately show ?thesis
    by (simp add: ast createRegex_def createPattern_def createFlags_def with_array_def)
qed


lemma strip_not_quantifier: "type_of n \<noteq> QuantifierT \<Longrightarrow> strip_quantifiers n = n"
  by (cases n) auto

lemma walk_token_shape:
  assumes "walk_token opts ctx st elems t ts = Parsed (n, e, rest, c)"
  shows "(type_of n = QuantifierT \<and> elems \<noteq> [] \<and> e = butlast elems
            \<and> strip_quantifiers n = strip_quantifiers (last elems))
         \<or> (type_of n \<noteq> QuantifierT \<and> type_of n \<noteq> CharacterClassRangeT \<and> e = elems)"
  using assms
  by (cases t)
     (auto simp: walk_token_def pbind_Parsed plift_Parsed createAlternative_def
        createAssertionFromToken_def createAssertion_def parseBackreference_def fromNum_def
        createBackreference_def createCharacter_def parseCharacterSet_def createPosixClass_def
        createUnicodeProperty_def createCharacterSet_def createDirective_def
        parseQuantifier_def createQuantifier_def parseSubroutine_def createSubroutine_def
        Let_def
        split: if_splits option.splits directive_kind.splits enat.splits prod.splits)

lemma open_group_type:
  assumes "open_group ctx st tok = Inr (g, ctx1)"
  shows "type_of (with_array g xs) \<noteq> QuantifierT
       \<and> type_of (with_array g xs) \<noteq> CharacterClassRangeT
       \<and> type_of (with_array g xs) \<noteq> CharacterT"
  using assms
  by (cases "g_kind tok")
     (auto simp: open_group_def createByGroupKind_def createAbsentFunction_def createGroup_def
        createCapturingGroup_def createLookaroundAssertion_def with_array_def Let_def
        split: sum.splits option.splits if_splits)

lemma finish_class_type [simp]: "type_of (finish_class ng inters) = CharacterClassT"
  by (simp add: finish_class_def)

lemma walk_shape:
  "walk f opts ctx st elems ts = Parsed (n, e, rest, c) \<Longrightarrow>
     (type_of n = QuantifierT \<and> elems \<noteq> [] \<and> e = butlast elems
        \<and> strip_quantifiers n = strip_quantifiers (last elems))
     \<or> (type_of n = CharacterClassRangeT \<and> e = butlast elems)
     \<or> (type_of n \<noteq> QuantifierT \<and> type_of n \<noteq> CharacterClassRangeT \<and> e = elems)"
proof (induction f arbitrary: st elems ts n e rest c)
  case 0
  then show ?case by simp
next
  case (Suc f)
  show ?case
  proof (cases ts)
    case Nil
    with Suc.prems show ?thesis by simp
  next
    case (Cons t ts')
    show ?thesis
    proof (cases t)
      case CharacterClassHyphenTok
      show ?thesis
      proof (cases "hyphen_is_range st elems ts'")
        case True
        with Suc.prems Cons CharacterClassHyphenTok obtain n0 e0 rest0 c0 where
          w0: "walk f opts ctx (st\<lparr>isCheckingRangeEnd := True\<rparr>) elems ts'
                 = Parsed (n0, e0, rest0, c0)" and
          fr: "finish_range elems (n0, e0, rest0, c0) = Parsed (n, e, rest, c)"
          by (auto simp: pbind_Parsed)
        from fr have t0: "type_of n0 = CharacterT" and e: "e = butlast e0"
          and r: "createCharacterClassRange (last elems) n0 = Inr n"
          by (auto simp: finish_range_def pbind_Parsed plift_Parsed split: if_splits)
        from Suc.IH[OF w0] t0 have "e0 = elems" by auto
        moreover from r have "type_of n = CharacterClassRangeT"
          by (auto simp: createCharacterClassRange_def split: node.splits if_splits)
        ultimately show ?thesis using e by simp
      next
        case False
        with Suc.prems Cons CharacterClassHyphenTok show ?thesis
          by (auto simp: pbind_Parsed plift_Parsed createCharacter_def)
      qed
    next
      case (CharacterClassOpenTok ng)
      with Suc.prems Cons show ?thesis
        by (auto simp: pbind_Parsed split: list.splits)
    next
      case (GroupOpenTok tok)
      with Suc.prems Cons show ?thesis
        by (auto simp: pbind_Parsed plift_Parsed dest: open_group_type)
    qed (use Suc.prems Cons in \<open>auto dest: walk_token_shape\<close>)
  qed
qed


lemma allowed_in_checking [simp]:
  "lookbehind_allowed (isInLookbehind (st\<lparr>isCheckingRangeEnd := b\<rparr>))
     (isInNegLookbehind (st\<lparr>isCheckingRangeEnd := b\<rparr>)) = allowed_in st"
  by simp

lemma la_walk_token:
  assumes "walk_token opts ctx st elems t ts = Parsed (n, e, rest, c)"
    and "list_all (lookbehind_allowed lb neg) elems"
  shows "lookbehind_allowed lb neg n"
  using assms
  by (cases t)
     (auto simp: walk_token_def pbind_Parsed plift_Parsed createAlternative_def
        createAssertionFromToken_def createAssertion_def parseBackreference_def fromNum_def
        createBackreference_def createCharacter_def parseCharacterSet_def createPosixClass_def
        createUnicodeProperty_def createCharacterSet_def createDirective_def
        parseQuantifier_def createQuantifier_def parseSubroutine_def createSubroutine_def
        Let_def list_all_last
        split: if_splits option.splits directive_kind.splits enat.splits prod.splits)

lemma la_finish_range:
  assumes "finish_range elems (n0, e0, rest0, c0) = Parsed (n, e, rest, c)"
  shows "lookbehind_allowed lb neg n"
proof -
  from assms have t: "type_of (last elems) = CharacterT" "type_of n0 = CharacterT"
    and r: "createCharacterClassRange (last elems) n0 = Inr n"
    by (auto simp: finish_range_def pbind_Parsed plift_Parsed split: if_splits)
  from t obtain a b where "last elems = Character a" "n0 = Character b"
    by (cases "last elems"; cases n0) auto
  with r show ?thesis
    by (auto simp: createCharacterClassRange_def split: if_splits)
qed

lemma la_finish_class:
  assumes "list_all (list_all (lookbehind_allowed lb neg)) inters"
  shows "lookbehind_allowed lb neg (finish_class ng inters)"
proof -
  have "list_all (lookbehind_allowed lb neg) (hd inters)" if "length inters = 1"
    using assms that by (cases inters) auto
  moreover have "list_all (lookbehind_allowed lb neg)
      (map (\<lambda>els. if length els = 1 then hd els else CharacterClass union False els) inters)"
    using assms
  proof (induction inters)
    case Nil
    then show ?case by simp
  next
    case (Cons els inters)
    then show ?case by (cases els) auto
  qed
  ultimately show ?thesis by (simp add: finish_class_def)
qed

lemma la_group:
  assumes "open_group ctx st tok = Inr (g, ctx1)"
  shows "lookbehind_allowed (isInLookbehind st) (isInNegLookbehind st)
           (with_array g (map Alternative alts)) = list_all (checked_alternative st g) alts"
proof -
  have m: "list_all (lookbehind_allowed lb neg) (map Alternative alts)
             = list_all (\<lambda>els. lookbehind_allowed lb neg (Alternative els)) alts" for lb neg
    by (induction alts) auto
  from assms obtain g0 where "createByGroupKind tok = Inr g0" and "g = g0"
    by (auto simp: open_group_def Let_def split: sum.splits if_splits)
  then show ?thesis
    unfolding checked_alternative_def
    by (cases "g_kind tok")
       (auto simp: m createByGroupKind_def createAbsentFunction_def createGroup_def
          createCapturingGroup_def createLookaroundAssertion_def with_array_def
          child_state_def isLookbehind_def lookaround_negate_def
          split: option.splits if_splits)
qed

lemma checked_alternative_allowed:
  "checked_alternative st g els \<Longrightarrow> list_all (allowed_in (child_state st g)) els"
  by (induction els) (auto simp: checked_alternative_def)

lemma checked_alternative_extend:
  assumes b: "checked_alternative st g elems"
    and sh: "(type_of n = QuantifierT \<and> elems \<noteq> [] \<and> e = butlast elems
                \<and> strip_quantifiers n = strip_quantifiers (last elems))
             \<or> (type_of n = CharacterClassRangeT \<and> e = butlast elems)
             \<or> (type_of n \<noteq> QuantifierT \<and> type_of n \<noteq> CharacterClassRangeT \<and> e = elems)"
    and a: "allowed_in (child_state st g) n"
    and ok: "\<not> lookbehind_violation opts st g n"
    and ns: "\<not> skipLookbehindValidation opts"
  shows "checked_alternative st g (e @ [n])"
proof -
  let ?P = "\<lambda>x. \<not> forbidden_in_lookbehind (isInLookbehind (child_state st g))
                    (isInNegLookbehind (child_state st g)) (strip_quantifiers x)
                \<and> allowed_in (child_state st g) x"
  from b have all: "list_all ?P elems" by (simp add: checked_alternative_def)
  from sh have "e = elems \<or> e = butlast elems" by auto
  with all have e: "list_all ?P e" by (auto simp: list_all_butlast)
  from ok ns have direct: "\<not> forbidden_in_lookbehind (isInLookbehind (child_state st g))
                    (isInNegLookbehind (child_state st g)) n"
    by (auto simp: lookbehind_violation_def forbidden_in_lookbehind_def child_state_def
        split: if_splits)
  have "\<not> forbidden_in_lookbehind (isInLookbehind (child_state st g))
          (isInNegLookbehind (child_state st g)) (strip_quantifiers n)"
  proof (cases "type_of n = QuantifierT")
    case True
    with sh have "elems \<noteq> []" "strip_quantifiers n = strip_quantifiers (last elems)" by auto
    with list_all_last[OF all] show ?thesis by simp
  next
    case False
    with direct show ?thesis by (simp add: strip_not_quantifier)
  qed
  with e a show ?thesis by (simp add: checked_alternative_def)
qed

lemma la_invariant:
  assumes ns: "\<not> skipLookbehindValidation opts"
  shows
  "(\<forall>ctx st elems ts n e rest c.
      walk f opts ctx st elems ts = Parsed (n, e, rest, c) \<longrightarrow> list_all (allowed_in st) elems
        \<longrightarrow> allowed_in st n)
   \<and> (\<forall>ctx st first inters ts i rest c.
      classLoop f opts ctx st first inters ts = Parsed (i, rest, c) \<longrightarrow> inters \<noteq> []
        \<longrightarrow> list_all (list_all (allowed_in st)) inters \<longrightarrow> list_all (list_all (allowed_in st)) i)
   \<and> (\<forall>ctx st g alts ts a rest c.
      groupLoop f opts ctx st g alts ts = Parsed (a, rest, c) \<longrightarrow> alts \<noteq> []
        \<longrightarrow> list_all (checked_alternative st g) alts \<longrightarrow> list_all (checked_alternative st g) a)"
proof (induction f)
  case 0
  show ?case by simp
next
  case (Suc f)
  note IHw = Suc.IH[THEN conjunct1, rule_format]
  note IHc = Suc.IH[THEN conjunct2, THEN conjunct1, rule_format]
  note IHg = Suc.IH[THEN conjunct2, THEN conjunct2, rule_format]
  have w: "allowed_in st n"
    if r: "walk (Suc f) opts ctx st elems ts = Parsed (n, e, rest, c)"
      and inv: "list_all (allowed_in st) elems"
    for ctx st elems ts n e rest c
  proof (cases ts)
    case Nil
    with r show ?thesis by simp
  next
    case (Cons t ts')
    show ?thesis
    proof (cases t)
      case CharacterClassHyphenTok
      show ?thesis
      proof (cases "hyphen_is_range st elems ts'")
        case True
        with r Cons CharacterClassHyphenTok obtain n0 e0 rest0 c0 where
          fr: "finish_range elems (n0, e0, rest0, c0) = Parsed (n, e, rest, c)"
          by (auto simp: pbind_Parsed)
        from la_finish_range[OF fr] show ?thesis .
      next
        case False
        with r Cons CharacterClassHyphenTok show ?thesis
          by (auto simp: pbind_Parsed plift_Parsed createCharacter_def)
      qed
    next
      case (CharacterClassOpenTok ng)
      with r Cons obtain i first where
        cl: "classLoop f opts ctx st first [[]] ts' = Parsed (i, rest, c)" and
        n: "n = finish_class ng i"
        by (auto simp: pbind_Parsed split: list.splits)
      from IHc[OF cl] have "list_all (list_all (allowed_in st)) i" by simp
      with n la_finish_class show ?thesis by simp
    next
      case (GroupOpenTok tok)
      with r Cons obtain g ctx1 a where
        og: "open_group ctx st tok = Inr (g, ctx1)" and
        gl: "groupLoop f opts ctx1 st g [[]] ts' = Parsed (a, rest, c)" and
        n: "n = with_array g (map Alternative a)"
        by (auto simp: pbind_Parsed plift_Parsed)
      from IHg[OF gl] have "list_all (checked_alternative st g) a" by (simp add: checked_alternative_def)
      with n la_group[OF og] show ?thesis by simp
    qed (use r Cons inv in \<open>auto dest: la_walk_token\<close>)
  qed
  have cl: "list_all (list_all (allowed_in st)) i"
    if r: "classLoop (Suc f) opts ctx st first inters ts = Parsed (i, rest, c)"
      and ne0: "inters \<noteq> []" and inv: "list_all (list_all (allowed_in st)) inters"
    for ctx st first inters ts i rest c
  proof (cases ts)
    case Nil
    with r show ?thesis by simp
  next
    case (Cons t ts')
    consider (close) "t = CharacterClassCloseTok"
      | (inter) "t \<noteq> CharacterClassCloseTok" "t = CharacterClassIntersectorTok"
      | (other) "t \<noteq> CharacterClassCloseTok" "t \<noteq> CharacterClassIntersectorTok"
      by blast
    then show ?thesis
    proof cases
      case close
      with r Cons inv show ?thesis by simp
    next
      case inter
      with r Cons have "classLoop f opts ctx st first (inters @ [[]]) ts' = Parsed (i, rest, c)"
        by simp
      from IHc[OF this] inv show ?thesis by simp
    next
      case other
      with r Cons obtain n e rest' c' where
        w0: "walk f opts ctx st (last inters) (t # ts') = Parsed (n, e, rest', c')" and
        l: "classLoop f opts c' st first (butlast inters @ [e @ [n]]) rest' = Parsed (i, rest, c)"
        by (auto simp: pbind_Parsed)
      have li: "list_all (allowed_in st) (last inters)" by (rule list_all_last[OF inv ne0])
      from walk_shape[OF w0] have "e = last inters \<or> e = butlast (last inters)" by auto
      with li have "list_all (allowed_in st) e" by (auto simp: list_all_butlast)
      with IHw[OF w0 li] have "list_all (allowed_in st) (e @ [n])" by simp
      from IHc[OF l] list_all_snoc_last[OF ne0 inv this] show ?thesis by simp
    qed
  qed
  have gl: "list_all (checked_alternative st g) a"
    if r: "groupLoop (Suc f) opts ctx st g alts ts = Parsed (a, rest, c)"
      and ne0: "alts \<noteq> []" and inv: "list_all (checked_alternative st g) alts"
    for ctx st g alts ts a rest c
  proof (cases ts)
    case Nil
    with r show ?thesis by simp
  next
    case (Cons t ts')
    consider (close) "t = GroupCloseTok"
      | (alt) "t \<noteq> GroupCloseTok" "t = AlternatorTok"
      | (other) "t \<noteq> GroupCloseTok" "t \<noteq> AlternatorTok"
      by blast
    then show ?thesis
    proof cases
      case close
      with r Cons inv show ?thesis by simp
    next
      case alt
      with r Cons have "groupLoop f opts ctx st g (alts @ [[]]) ts' = Parsed (a, rest, c)"
        by simp
      from IHg[OF this] inv show ?thesis by (simp add: checked_alternative_def)
    next
      case other
      with r Cons obtain n e rest' c' where
        w0: "walk f opts ctx (child_state st g) (last alts) (t # ts')
               = Parsed (n, e, rest', c')" and
        ok: "\<not> lookbehind_violation opts st g n" and
        l: "groupLoop f opts c' st g (butlast alts @ [e @ [n]]) rest' = Parsed (a, rest, c)"
        by (auto simp: pbind_Parsed split: if_splits)
      have bl: "checked_alternative st g (last alts)" by (rule list_all_last[OF inv ne0])
      from IHw[OF w0 checked_alternative_allowed[OF bl]] have an: "allowed_in (child_state st g) n" .
      from checked_alternative_extend[OF bl walk_shape[OF w0] an ok ns] have "checked_alternative st g (e @ [n])" .
      from IHg[OF l] list_all_snoc_last[OF ne0 inv this] show ?thesis by simp
    qed
  qed
  from w cl gl show ?case by blast
qed


lemma la_topLoop:
  assumes ns: "\<not> skipLookbehindValidation opts"
  shows "topLoop f opts ctx alts ts = Parsed (a, c) \<Longrightarrow> alts \<noteq> []
     \<Longrightarrow> list_all (list_all (lookbehind_allowed False False)) alts
     \<Longrightarrow> list_all (list_all (lookbehind_allowed False False)) a"
proof (induction f arbitrary: ctx alts ts)
  case 0
  then show ?case by simp
next
  case (Suc f)
  show ?case
  proof (cases ts)
    case Nil
    with Suc.prems show ?thesis by simp
  next
    case (Cons t ts')
    with Suc.prems(1) obtain n e rest c' where
      w0: "walk f opts ctx empty_state (last alts) (t # ts') = Parsed (n, e, rest, c')" and
      l: "(case n of
             Alternative els \<Rightarrow> topLoop f opts c' (butlast alts @ [e] @ [els]) rest
           | _ \<Rightarrow> topLoop f opts c' (butlast alts @ [e @ [n]]) rest) = Parsed (a, c)"
      by (auto simp: pbind_Parsed)
    have li: "list_all (lookbehind_allowed False False) (last alts)"
      by (rule list_all_last[OF Suc.prems(3,2)])
    from la_invariant[OF ns, of f, THEN conjunct1, rule_format, OF w0] li
    have n: "lookbehind_allowed False False n" by (simp add: empty_state_def)
    from walk_shape[OF w0] have "e = last alts \<or> e = butlast (last alts)" by auto
    with li have e: "list_all (lookbehind_allowed False False) e"
      by (auto simp: list_all_butlast)
    show ?thesis
    proof (cases "type_of n = AlternativeT")
      case True
      then obtain els where els: "n = Alternative els" by (cases n) auto
      with l have l': "topLoop f opts c' (butlast alts @ [e] @ [els]) rest = Parsed (a, c)"
        by simp
      from n els have "list_all (lookbehind_allowed False False) els"
        by (simp add: list_all_iff)
      with e Suc.prems(3)
      have "list_all (list_all (lookbehind_allowed False False)) (butlast alts @ [e] @ [els])"
        by (simp add: list_all_butlast)
      from Suc.IH[OF l' _ this] show ?thesis by simp
    next
      case False
      with l have l': "topLoop f opts c' (butlast alts @ [e @ [n]]) rest = Parsed (a, c)"
        by (cases n) auto
      from n e Suc.prems(3)
      have "list_all (list_all (lookbehind_allowed False False)) (butlast alts @ [e @ [n]])"
        by (simp add: list_all_butlast)
      from Suc.IH[OF l' _ this] show ?thesis by simp
    qed
  qed
qed

lemma la_parse:
  assumes "\<not> skipLookbehindValidation opts" and "parse opts tokenized = Parsed ast"
  shows "lookbehind_allowed False False ast"
proof -
  from assms(2) obtain a c where
    t: "topLoop (2 * length (tokens tokenized) + 2) opts initial_context [[]]
          (tokens tokenized) = Parsed (a, c)" and
    ast: "ast = createRegex (with_array createPattern (map Alternative a))
                  (createFlags (tk_flags tokenized))"
    by (auto simp: parse_def pbind_Parsed split: option.splits)
  from la_topLoop[OF assms(1) t]
  have "list_all (list_all (lookbehind_allowed False False)) a" by simp
  then have "list_all (lookbehind_allowed False False) (map Alternative a)"
    by (induction a) (auto simp: forbidden_in_lookbehind_def list_all_iff)
  then show ?thesis
    by (simp add: ast createRegex_def createPattern_def createFlags_def with_array_def)
qed

lemma walk_token_no_lookbehind_error:
  "walk_token opts ctx st elems t ts \<noteq> Threw LookbehindNotAllowed"
  by (cases t)
     (auto simp: walk_token_def pbind_def plift_def createAssertionFromToken_def
        parseBackreference_def fromNum_def createCharacter_def parseCharacterSet_def
        createPosixClass_def createUnicodeProperty_def createDirective_def
        parseQuantifier_def parseSubroutine_def Let_def
        split: if_splits option.splits directive_kind.splits sum.splits prod.splits)

lemma pbind_Threw:
  "pbind m f = Threw e \<longleftrightarrow> (m = Threw e \<or> (\<exists>x. m = Parsed x \<and> f x = Threw e))"
  by (cases m) (simp_all add: pbind_def)

lemma finish_range_no_lookbehind_error:
  "finish_range elems r \<noteq> Threw LookbehindNotAllowed"
  by (cases r)
     (auto simp: finish_range_def pbind_Threw plift_def createCharacterClassRange_def
        split: if_splits node.splits sum.splits)

lemma open_group_no_lookbehind_error:
  "open_group ctx st tok \<noteq> Inl LookbehindNotAllowed"
  by (cases "g_kind tok")
     (auto simp: open_group_def createByGroupKind_def createCapturingGroup_def Let_def
        split: sum.splits option.splits if_splits)

lemma skip_invariant:
  assumes sk: "skipLookbehindValidation opts"
  shows
  "(\<forall>ctx st elems ts. walk f opts ctx st elems ts \<noteq> Threw LookbehindNotAllowed)
   \<and> (\<forall>ctx st first inters ts.
        classLoop f opts ctx st first inters ts \<noteq> Threw LookbehindNotAllowed)
   \<and> (\<forall>ctx st g alts ts. groupLoop f opts ctx st g alts ts \<noteq> Threw LookbehindNotAllowed)"
proof (induction f)
  case 0
  show ?case by simp
next
  case (Suc f)
  have w: "walk (Suc f) opts ctx st elems ts \<noteq> Threw LookbehindNotAllowed"
    for ctx st elems ts
  proof (cases ts)
    case Nil
    then show ?thesis by simp
  next
    case (Cons t ts')
    show ?thesis
    proof (cases t)
      case CharacterClassHyphenTok
      with Cons Suc.IH show ?thesis
        by (auto simp: pbind_Threw plift_def createCharacter_def
            finish_range_no_lookbehind_error)
    next
      case (CharacterClassOpenTok ng)
      with Cons Suc.IH show ?thesis
        by (auto simp: pbind_Threw split: list.splits)
    next
      case (GroupOpenTok tok)
      with Cons Suc.IH open_group_no_lookbehind_error[of ctx st tok] show ?thesis
        by (auto simp: pbind_Threw plift_def split: sum.splits)
    qed (use Cons walk_token_no_lookbehind_error in auto)
  qed
  have cl: "classLoop (Suc f) opts ctx st first inters ts \<noteq> Threw LookbehindNotAllowed"
    for ctx st first inters ts
  proof (cases ts)
    case Nil
    then show ?thesis by (simp add: unclosed_class_def)
  next
    case (Cons t ts')
    with Suc.IH show ?thesis by (auto simp: pbind_Threw)
  qed
  have gl: "groupLoop (Suc f) opts ctx st g alts ts \<noteq> Threw LookbehindNotAllowed"
    for ctx st g alts ts
  proof (cases ts)
    case Nil
    then show ?thesis by simp
  next
    case (Cons t ts')
    with Suc.IH sk show ?thesis
      by (auto simp: pbind_Threw lookbehind_violation_def)
  qed
  from w cl gl show ?case by blast
qed

lemma skip_topLoop:
  assumes sk: "skipLookbehindValidation opts"
  shows "topLoop f opts ctx alts ts \<noteq> Threw LookbehindNotAllowed"
proof (induction f arbitrary: ctx alts ts)
  case 0
  show ?case by simp
next
  case (Suc f)
  show ?case
  proof (cases ts)
    case Nil
    then show ?thesis by simp
  next
    case (Cons t ts')
    with Suc.IH skip_invariant[OF sk, of f] show ?thesis
      by (auto simp: pbind_Threw split: node.splits)
  qed
qed

lemma validate_no_lookbehind_error: "validate opts ctx \<noteq> Some LookbehindNotAllowed"
proof -
  have "LookbehindNotAllowed \<notin> set (List.map_filter (check_subroutine ctx) ns)" for ns
    by (induction ns)
       (auto simp: List.map_filter_def check_subroutine_def
          split: node.splits ref.splits option.splits if_splits)
  then have "List.map_filter (check_subroutine ctx) (subroutines ctx)
               \<noteq> LookbehindNotAllowed # es" for es
    by (metis list.set_intros(1))
  then show ?thesis
    by (auto simp: validate_def split: list.splits if_splits)
qed

lemma skip_parse:
  assumes "skipLookbehindValidation opts"
  shows "parse opts tokenized \<noteq> Threw LookbehindNotAllowed"
  using skip_topLoop[OF assms] validate_no_lookbehind_error
  by (auto simp: parse_def pbind_Threw split: option.splits)

subsection \<open>The lookbehind validation and the tokens\<close>

lemma cf_simple:
  "t \<noteq> GroupCloseTok \<Longrightarrow> t \<noteq> CharacterClassCloseTok \<Longrightarrow>
   (\<forall>g. t \<noteq> GroupOpenTok g) \<Longrightarrow> (\<forall>ng. t \<noteq> CharacterClassOpenTok ng) \<Longrightarrow>
   contains_forbidden sc stack (t # ts) = contains_forbidden sc stack ts"
  by (cases t) auto

lemma walk_token_simple:
  assumes "walk_token opts ctx st elems t ts = Parsed (n, e, rest, c)"
  shows "t \<noteq> GroupCloseTok \<and> t \<noteq> CharacterClassCloseTok
       \<and> (\<forall>g. t \<noteq> GroupOpenTok g) \<and> (\<forall>ng. t \<noteq> CharacterClassOpenTok ng)
       \<and> t \<noteq> CharacterClassHyphenTok
       \<and> \<not> isLookahead n \<and> \<not> isLookbehind n \<and> type_of n \<noteq> CapturingGroupT"
  using assms
  by (cases t)
     (auto simp: walk_token_def pbind_Parsed plift_Parsed createAlternative_def
        createAssertionFromToken_def createAssertion_def parseBackreference_def fromNum_def
        createBackreference_def createCharacter_def parseCharacterSet_def createPosixClass_def
        createUnicodeProperty_def createCharacterSet_def createDirective_def
        parseQuantifier_def createQuantifier_def parseSubroutine_def createSubroutine_def
        Let_def isLookahead_def isLookbehind_def
        split: if_splits option.splits directive_kind.splits enat.splits prod.splits)

lemma forbidden_plain:
  "\<not> isLookahead n \<Longrightarrow> \<not> isLookbehind n \<Longrightarrow> type_of n \<noteq> CapturingGroupT \<Longrightarrow>
     \<not> forbidden_in_lookbehind lb neg n"
  by (simp add: forbidden_in_lookbehind_def)

lemma open_group_forbidden:
  assumes "open_group ctx st g = Inr (g0, ctx1)"
  shows "forbidden_in_lookbehind lb neg (with_array g0 xs) = opens_forbidden lb neg g
       \<and> isLookbehind g0 = (g_kind g = tk_lookbehind)
       \<and> (isLookbehind g0 \<and> lookaround_negate g0)
           = (g_kind g = tk_lookbehind \<and> truthy (g_negate g))"
  using assms
  by (cases "g_kind g")
     (auto simp: open_group_def createByGroupKind_def createAbsentFunction_def createGroup_def
        createCapturingGroup_def createLookaroundAssertion_def with_array_def Let_def
        forbidden_in_lookbehind_def opens_forbidden_def isLookahead_def isLookbehind_def
        lookaround_negate_def
        split: sum.splits option.splits if_splits)

lemma violation_forbidden:
  "lookbehind_violation opts st g child =
     (\<not> skipLookbehindValidation opts
      \<and> forbidden_in_lookbehind (isInLookbehind (child_state st g))
            (isInNegLookbehind (child_state st g)) child)"
  by (auto simp: lookbehind_violation_def forbidden_in_lookbehind_def child_state_def)


lemma scope_of_range_end [simp]:
  "scope_of sc (st\<lparr>isCheckingRangeEnd := b\<rparr>) = scope_of sc st"
  by (simp add: scope_of_def)

lemma scope_of_class [simp]: "scope_of (class_scope sc) st = scope_of sc st"
  by (simp add: scope_of_def class_scope_def)

lemma in_group_class [simp]: "\<not> in_group (class_scope sc)"
  by (simp add: class_scope_def)

lemma in_group_group [simp]: "in_group (group_scope sc g)"
  by (simp add: group_scope_def)

lemma scope_of_group:
  assumes "open_group ctx st0 g = Inr (g0, ctx1)" and "scope_of sc st"
  shows "scope_of (group_scope sc g) (child_state st g0)"
  using assms(2) open_group_forbidden[OF assms(1), of False False "[]"]
  by (auto simp: scope_of_def group_scope_def child_state_def)

lemma tok_forbidden_simps [simp]:
  "tok_forbidden lb neg (GroupOpenTok g) = opens_forbidden lb neg g"
  "tok_forbidden lb neg CharacterClassHyphenTok = False"
  "tok_forbidden lb neg (CharacterClassOpenTok ng) = False"
  by (simp_all add: tok_forbidden_def)

lemma tok_forbidden_simple:
  "(\<forall>g. t \<noteq> GroupOpenTok g) \<Longrightarrow> tok_forbidden lb neg t = False"
  by (cases t) (simp_all add: tok_forbidden_def)

lemma cf_invariant:
  assumes ns: "\<not> skipLookbehindValidation opts"
  shows
  "(\<forall>ctx st elems ts n e rest c.
      walk f opts ctx st elems ts = Parsed (n, e, rest, c) \<longrightarrow>
        (\<exists>t used. ts = t # used @ rest
           \<and> (\<forall>lb neg. forbidden_in_lookbehind lb neg n = tok_forbidden lb neg t)
           \<and> (\<forall>sc stack more. scope_of sc st \<longrightarrow>
                contains_forbidden sc stack (t # used @ more)
                  = ((in_group sc \<and> tok_forbidden (in_lb sc) (in_neg_lb sc) t)
                     \<or> contains_forbidden sc stack more))))
   \<and> (\<forall>ctx st first inters ts i rest c.
      classLoop f opts ctx st first inters ts = Parsed (i, rest, c) \<longrightarrow>
        (\<exists>used. ts = used @ CharacterClassCloseTok # rest
           \<and> (\<forall>sc outer stack more. scope_of sc st \<longrightarrow> \<not> in_group sc \<longrightarrow>
                contains_forbidden sc (outer # stack) (used @ CharacterClassCloseTok # more)
                  = contains_forbidden outer stack more)))
   \<and> (\<forall>ctx st g alts ts a rest c.
      groupLoop f opts ctx st g alts ts = Parsed (a, rest, c) \<longrightarrow>
        (\<exists>used. ts = used @ GroupCloseTok # rest
           \<and> (\<forall>sc outer stack more. scope_of sc (child_state st g) \<longrightarrow> in_group sc \<longrightarrow>
                contains_forbidden sc (outer # stack) (used @ GroupCloseTok # more)
                  = contains_forbidden outer stack more)))"
proof (induction f)
  case 0
  show ?case by simp
next
  case (Suc f)
  note IHw = Suc.IH[THEN conjunct1, rule_format]
  note IHc = Suc.IH[THEN conjunct2, THEN conjunct1, rule_format]
  note IHg = Suc.IH[THEN conjunct2, THEN conjunct2, rule_format]
  have w: "\<exists>t used. ts = t # used @ rest
           \<and> (\<forall>lb neg. forbidden_in_lookbehind lb neg n = tok_forbidden lb neg t)
           \<and> (\<forall>sc stack more. scope_of sc st \<longrightarrow>
                contains_forbidden sc stack (t # used @ more)
                  = ((in_group sc \<and> tok_forbidden (in_lb sc) (in_neg_lb sc) t)
                     \<or> contains_forbidden sc stack more))"
    if wk: "walk (Suc f) opts ctx st elems ts = Parsed (n, e, rest, c)"
    for ctx st elems ts n e rest c
  proof (cases ts)
    case Nil
    with wk show ?thesis by simp
  next
    case (Cons t ts')
    consider (hy) "t = CharacterClassHyphenTok"
      | (co) ng where "t = CharacterClassOpenTok ng"
      | (go) g where "t = GroupOpenTok g"
      | (other) "walk (Suc f) opts ctx st elems (t # ts') = walk_token opts ctx st elems t ts'"
      by (cases t) auto
    then show ?thesis
    proof cases
      case hy
      show ?thesis
      proof (cases "hyphen_is_range st elems ts'")
        case True
        with wk Cons hy obtain n0 e0 rest0 c0 where
          w0: "walk f opts ctx (st\<lparr>isCheckingRangeEnd := True\<rparr>) elems ts'
                 = Parsed (n0, e0, rest0, c0)" and
          fr: "finish_range elems (n0, e0, rest0, c0) = Parsed (n, e, rest, c)"
          by (auto simp: pbind_Parsed)
        from fr have t0: "type_of n0 = CharacterT" and rest: "rest = rest0"
          and r: "createCharacterClassRange (last elems) n0 = Inr n"
          by (auto simp: finish_range_def pbind_Parsed plift_Parsed split: if_splits)
        from r have tn: "type_of n = CharacterClassRangeT"
          by (auto simp: createCharacterClassRange_def split: node.splits if_splits)
        from IHw[OF w0] obtain t' used' where
          ts': "ts' = t' # used' @ rest0" and
          a: "\<And>lb neg. forbidden_in_lookbehind lb neg n0 = tok_forbidden lb neg t'" and
          b: "\<And>sc stack more. scope_of sc st \<Longrightarrow>
                contains_forbidden sc stack (t' # used' @ more)
                  = ((in_group sc \<and> tok_forbidden (in_lb sc) (in_neg_lb sc) t')
                     \<or> contains_forbidden sc stack more)"
          by auto
        from t0 have "\<not> forbidden_in_lookbehind lb neg n0" for lb neg
          by (cases n0) (simp_all add: forbidden_in_lookbehind_def isLookahead_def
              isLookbehind_def)
        with a have nf: "\<not> tok_forbidden lb neg t'" for lb neg by simp
        from tn have fn: "\<not> forbidden_in_lookbehind lb neg n" for lb neg
          by (cases n) (simp_all add: forbidden_in_lookbehind_def isLookahead_def
              isLookbehind_def)
        have "ts = CharacterClassHyphenTok # (t' # used') @ rest"
          by (simp add: Cons hy ts' rest)
        moreover have "\<forall>lb neg. forbidden_in_lookbehind lb neg n
                          = tok_forbidden lb neg CharacterClassHyphenTok"
          by (simp add: fn)
        moreover have "\<forall>sc stack more. scope_of sc st \<longrightarrow>
                contains_forbidden sc stack (CharacterClassHyphenTok # (t' # used') @ more)
                  = ((in_group sc
                      \<and> tok_forbidden (in_lb sc) (in_neg_lb sc) CharacterClassHyphenTok)
                     \<or> contains_forbidden sc stack more)"
          using b nf by simp
        ultimately show ?thesis by blast
      next
        case False
        with wk Cons hy have n: "n = Character 45" and rest: "rest = ts'"
          by (auto simp: pbind_Parsed plift_Parsed createCharacter_def split: if_splits)
        have "ts = CharacterClassHyphenTok # [] @ rest"
          by (simp add: Cons hy rest)
        moreover have "\<forall>lb neg. forbidden_in_lookbehind lb neg n
                          = tok_forbidden lb neg CharacterClassHyphenTok"
          by (simp add: n forbidden_in_lookbehind_def isLookahead_def isLookbehind_def)
        moreover have "\<forall>sc stack more. scope_of sc st \<longrightarrow>
                contains_forbidden sc stack (CharacterClassHyphenTok # [] @ more)
                  = ((in_group sc
                      \<and> tok_forbidden (in_lb sc) (in_neg_lb sc) CharacterClassHyphenTok)
                     \<or> contains_forbidden sc stack more)"
          by simp
        ultimately show ?thesis by blast
      qed
    next
      case (co ng)
      with wk Cons obtain inters first where
        cl0: "classLoop f opts ctx st first [[]] ts' = Parsed (inters, rest, c)" and
        n: "n = finish_class ng inters"
        by (auto simp: pbind_Parsed split: list.splits)
      from IHc[OF cl0] obtain used where
        ts': "ts' = used @ CharacterClassCloseTok # rest" and
        b: "\<And>sc outer stack more. scope_of sc st \<Longrightarrow> \<not> in_group sc \<Longrightarrow>
                contains_forbidden sc (outer # stack) (used @ CharacterClassCloseTok # more)
                  = contains_forbidden outer stack more"
        by auto
      have "ts = CharacterClassOpenTok ng # (used @ [CharacterClassCloseTok]) @ rest"
        by (simp add: Cons co ts')
      moreover have "\<forall>lb neg. forbidden_in_lookbehind lb neg n
                          = tok_forbidden lb neg (CharacterClassOpenTok ng)"
        by (simp add: n forbidden_in_lookbehind_def isLookahead_def isLookbehind_def
            finish_class_def)
      moreover have "\<forall>sc stack more. scope_of sc st \<longrightarrow>
                contains_forbidden sc stack
                  (CharacterClassOpenTok ng # (used @ [CharacterClassCloseTok]) @ more)
                  = ((in_group sc
                      \<and> tok_forbidden (in_lb sc) (in_neg_lb sc) (CharacterClassOpenTok ng))
                     \<or> contains_forbidden sc stack more)"
        using b[of "class_scope sc" for sc] by simp
      ultimately show ?thesis by blast
    next
      case (go g)
      with wk Cons obtain g0 ctx1 alts where
        og: "open_group ctx st g = Inr (g0, ctx1)" and
        gl0: "groupLoop f opts ctx1 st g0 [[]] ts' = Parsed (alts, rest, c)" and
        n: "n = with_array g0 (map Alternative alts)"
        by (auto simp: pbind_Parsed plift_Parsed)
      from IHg[OF gl0] obtain used where
        ts': "ts' = used @ GroupCloseTok # rest" and
        b: "\<And>sc outer stack more. scope_of sc (child_state st g0) \<Longrightarrow> in_group sc \<Longrightarrow>
                contains_forbidden sc (outer # stack) (used @ GroupCloseTok # more)
                  = contains_forbidden outer stack more"
        by auto
      have "ts = GroupOpenTok g # (used @ [GroupCloseTok]) @ rest"
        by (simp add: Cons go ts')
      moreover have "\<forall>lb neg. forbidden_in_lookbehind lb neg n
                          = tok_forbidden lb neg (GroupOpenTok g)"
        using open_group_forbidden[OF og] by (simp add: n)
      moreover have "\<forall>sc stack more. scope_of sc st \<longrightarrow>
                contains_forbidden sc stack
                  (GroupOpenTok g # (used @ [GroupCloseTok]) @ more)
                  = ((in_group sc \<and> tok_forbidden (in_lb sc) (in_neg_lb sc) (GroupOpenTok g))
                     \<or> contains_forbidden sc stack more)"
        using b[OF scope_of_group[OF og]] by simp
      ultimately show ?thesis by blast
    next
      case other
      with wk Cons have wt: "walk_token opts ctx st elems t ts' = Parsed (n, e, rest, c)"
        by simp
      from walk_token_rest[OF wt] have rest: "rest = ts'" .
      from walk_token_simple[OF wt] have
        s: "t \<noteq> GroupCloseTok" "t \<noteq> CharacterClassCloseTok"
           "\<forall>g. t \<noteq> GroupOpenTok g" "\<forall>ng. t \<noteq> CharacterClassOpenTok ng" and
        p: "\<not> isLookahead n" "\<not> isLookbehind n" "type_of n \<noteq> CapturingGroupT"
        by auto
      have "ts = t # [] @ rest"
        by (simp add: Cons rest)
      moreover have "\<forall>lb neg. forbidden_in_lookbehind lb neg n = tok_forbidden lb neg t"
        using forbidden_plain[OF p] tok_forbidden_simple[OF s(3)] by simp
      moreover have "\<forall>sc stack more. scope_of sc st \<longrightarrow>
                contains_forbidden sc stack (t # [] @ more)
                  = ((in_group sc \<and> tok_forbidden (in_lb sc) (in_neg_lb sc) t)
                     \<or> contains_forbidden sc stack more)"
        using cf_simple[OF s] tok_forbidden_simple[OF s(3)] by simp
      ultimately show ?thesis by blast
    qed
  qed
  have cl: "\<exists>used. ts = used @ CharacterClassCloseTok # rest
           \<and> (\<forall>sc outer stack more. scope_of sc st \<longrightarrow> \<not> in_group sc \<longrightarrow>
                contains_forbidden sc (outer # stack) (used @ CharacterClassCloseTok # more)
                  = contains_forbidden outer stack more)"
    if c0: "classLoop (Suc f) opts ctx st first inters ts = Parsed (i, rest, c)"
    for ctx st first inters ts i rest c
  proof (cases ts)
    case Nil
    with c0 show ?thesis by simp
  next
    case (Cons t ts')
    consider (close) "t = CharacterClassCloseTok"
      | (inter) "t = CharacterClassIntersectorTok"
      | (elem) "t \<noteq> CharacterClassCloseTok" "t \<noteq> CharacterClassIntersectorTok"
      by blast
    then show ?thesis
    proof cases
      case close
      with c0 Cons have "ts = [] @ CharacterClassCloseTok # rest" by simp
      moreover have "\<forall>sc outer stack more. scope_of sc st \<longrightarrow> \<not> in_group sc \<longrightarrow>
                contains_forbidden sc (outer # stack) ([] @ CharacterClassCloseTok # more)
                  = contains_forbidden outer stack more"
        by simp
      ultimately show ?thesis by blast
    next
      case inter
      with c0 Cons have "classLoop f opts ctx st first (inters @ [[]]) ts' = Parsed (i, rest, c)"
        by simp
      from IHc[OF this] obtain used where
        ts': "ts' = used @ CharacterClassCloseTok # rest" and
        b: "\<And>sc outer stack more. scope_of sc st \<Longrightarrow> \<not> in_group sc \<Longrightarrow>
                contains_forbidden sc (outer # stack) (used @ CharacterClassCloseTok # more)
                  = contains_forbidden outer stack more"
        by auto
      have "ts = (CharacterClassIntersectorTok # used) @ CharacterClassCloseTok # rest"
        by (simp add: Cons inter ts')
      moreover have "\<forall>sc outer stack more. scope_of sc st \<longrightarrow> \<not> in_group sc \<longrightarrow>
                contains_forbidden sc (outer # stack)
                  ((CharacterClassIntersectorTok # used) @ CharacterClassCloseTok # more)
                  = contains_forbidden outer stack more"
        using b by simp
      ultimately show ?thesis by blast
    next
      case elem
      with c0 Cons obtain n e' rest' ctx' where
        w0: "walk f opts ctx st (last inters) (t # ts') = Parsed (n, e', rest', ctx')" and
        l: "classLoop f opts ctx' st first (butlast inters @ [e' @ [n]]) rest'
              = Parsed (i, rest, c)"
        by (auto simp: pbind_Parsed)
      from IHw[OF w0] obtain t0 used0 where
        e0: "t # ts' = t0 # used0 @ rest'" and
        b0: "\<And>sc stack more. scope_of sc st \<Longrightarrow>
                contains_forbidden sc stack (t0 # used0 @ more)
                  = ((in_group sc \<and> tok_forbidden (in_lb sc) (in_neg_lb sc) t0)
                     \<or> contains_forbidden sc stack more)"
        by auto
      from IHc[OF l] obtain used where
        r': "rest' = used @ CharacterClassCloseTok # rest" and
        b: "\<And>sc outer stack more. scope_of sc st \<Longrightarrow> \<not> in_group sc \<Longrightarrow>
                contains_forbidden sc (outer # stack) (used @ CharacterClassCloseTok # more)
                  = contains_forbidden outer stack more"
        by auto
      have "ts = (t0 # used0 @ used) @ CharacterClassCloseTok # rest"
        using e0 by (simp add: Cons r')
      moreover have "\<forall>sc outer stack more. scope_of sc st \<longrightarrow> \<not> in_group sc \<longrightarrow>
                contains_forbidden sc (outer # stack)
                  ((t0 # used0 @ used) @ CharacterClassCloseTok # more)
                  = contains_forbidden outer stack more"
        using b0[of _ _ "used @ CharacterClassCloseTok # more" for more] b by simp
      ultimately show ?thesis by blast
    qed
  qed
  have gl: "\<exists>used. ts = used @ GroupCloseTok # rest
           \<and> (\<forall>sc outer stack more. scope_of sc (child_state st g) \<longrightarrow> in_group sc \<longrightarrow>
                contains_forbidden sc (outer # stack) (used @ GroupCloseTok # more)
                  = contains_forbidden outer stack more)"
    if g0: "groupLoop (Suc f) opts ctx st g alts ts = Parsed (a, rest, c)"
    for ctx st g alts ts a rest c
  proof (cases ts)
    case Nil
    with g0 show ?thesis by simp
  next
    case (Cons t ts')
    consider (close) "t = GroupCloseTok"
      | (alt) "t = AlternatorTok"
      | (elem) "t \<noteq> GroupCloseTok" "t \<noteq> AlternatorTok"
      by blast
    then show ?thesis
    proof cases
      case close
      with g0 Cons have "ts = [] @ GroupCloseTok # rest" by simp
      moreover have "\<forall>sc outer stack more.
                scope_of sc (child_state st g) \<longrightarrow> in_group sc \<longrightarrow>
                contains_forbidden sc (outer # stack) ([] @ GroupCloseTok # more)
                  = contains_forbidden outer stack more"
        by simp
      ultimately show ?thesis by blast
    next
      case alt
      with g0 Cons have "groupLoop f opts ctx st g (alts @ [[]]) ts' = Parsed (a, rest, c)"
        by simp
      from IHg[OF this] obtain used where
        ts': "ts' = used @ GroupCloseTok # rest" and
        b: "\<And>sc outer stack more. scope_of sc (child_state st g) \<Longrightarrow> in_group sc \<Longrightarrow>
                contains_forbidden sc (outer # stack) (used @ GroupCloseTok # more)
                  = contains_forbidden outer stack more"
        by auto
      have "ts = (AlternatorTok # used) @ GroupCloseTok # rest"
        by (simp add: Cons alt ts')
      moreover have "\<forall>sc outer stack more.
                scope_of sc (child_state st g) \<longrightarrow> in_group sc \<longrightarrow>
                contains_forbidden sc (outer # stack)
                  ((AlternatorTok # used) @ GroupCloseTok # more)
                  = contains_forbidden outer stack more"
        using b by simp
      ultimately show ?thesis by blast
    next
      case elem
      with g0 Cons obtain child e' rest' ctx' where
        w0: "walk f opts ctx (child_state st g) (last alts) (t # ts')
               = Parsed (child, e', rest', ctx')" and
        nv: "\<not> lookbehind_violation opts st g child" and
        l: "groupLoop f opts ctx' st g (butlast alts @ [e' @ [child]]) rest'
              = Parsed (a, rest, c)"
        by (auto simp: pbind_Parsed split: if_splits)
      from IHw[OF w0] obtain t0 used0 where
        e0: "t # ts' = t0 # used0 @ rest'" and
        a0: "\<And>lb neg. forbidden_in_lookbehind lb neg child = tok_forbidden lb neg t0" and
        b0: "\<And>sc stack more. scope_of sc (child_state st g) \<Longrightarrow>
                contains_forbidden sc stack (t0 # used0 @ more)
                  = ((in_group sc \<and> tok_forbidden (in_lb sc) (in_neg_lb sc) t0)
                     \<or> contains_forbidden sc stack more)"
        by auto
      from nv ns a0 have
        ok: "\<not> tok_forbidden (isInLookbehind (child_state st g))
                 (isInNegLookbehind (child_state st g)) t0"
        by (simp add: violation_forbidden)
      from IHg[OF l] obtain used where
        r': "rest' = used @ GroupCloseTok # rest" and
        b: "\<And>sc outer stack more. scope_of sc (child_state st g) \<Longrightarrow> in_group sc \<Longrightarrow>
                contains_forbidden sc (outer # stack) (used @ GroupCloseTok # more)
                  = contains_forbidden outer stack more"
        by auto
      have "ts = (t0 # used0 @ used) @ GroupCloseTok # rest"
        using e0 by (simp add: Cons r')
      moreover have "\<forall>sc outer stack more.
                scope_of sc (child_state st g) \<longrightarrow> in_group sc \<longrightarrow>
                contains_forbidden sc (outer # stack)
                  ((t0 # used0 @ used) @ GroupCloseTok # more)
                  = contains_forbidden outer stack more"
        using b0[of _ _ "used @ GroupCloseTok # more" for more] b ok
        by (simp add: scope_of_def)
      ultimately show ?thesis by blast
    qed
  qed
  from w cl gl show ?case by blast
qed


lemma cf_topLoop:
  assumes ns: "\<not> skipLookbehindValidation opts"
  shows "topLoop f opts ctx alts ts = Parsed (a, c) \<Longrightarrow> \<not> contains_forbidden top_scope [] ts"
proof (induction f arbitrary: ctx alts ts)
  case 0
  then show ?case by simp
next
  case (Suc f)
  show ?case
  proof (cases ts)
    case Nil
    then show ?thesis by simp
  next
    case (Cons t ts')
    with Suc.prems obtain n e rest c' where
      w0: "walk f opts ctx empty_state (last alts) (t # ts') = Parsed (n, e, rest, c')" and
      l: "(case n of
             Alternative els \<Rightarrow> topLoop f opts c' (butlast alts @ [e] @ [els]) rest
           | _ \<Rightarrow> topLoop f opts c' (butlast alts @ [e @ [n]]) rest) = Parsed (a, c)"
      by (auto simp: pbind_Parsed)
    from l obtain alts' where "topLoop f opts c' alts' rest = Parsed (a, c)"
      by (cases n) auto
    from Suc.IH[OF this] have r: "\<not> contains_forbidden top_scope [] rest" .
    from cf_invariant[OF ns, of f, THEN conjunct1, rule_format, OF w0] obtain t0 used0 where
      e0: "t # ts' = t0 # used0 @ rest" and
      b0: "\<And>sc stack more. scope_of sc empty_state \<Longrightarrow>
              contains_forbidden sc stack (t0 # used0 @ more)
                = ((in_group sc \<and> tok_forbidden (in_lb sc) (in_neg_lb sc) t0)
                   \<or> contains_forbidden sc stack more)"
      by auto
    have "scope_of top_scope empty_state"
      by (simp add: scope_of_def top_scope_def empty_state_def)
    from b0[OF this, of "[]" rest] r show ?thesis
      by (simp add: Cons e0 top_scope_def)
  qed
qed

lemma cf_parse:
  assumes "\<not> skipLookbehindValidation opts"
    and "contains_forbidden top_scope [] (tokens tokenized)"
  shows "\<exists>e. parse opts tokenized = Threw e"
proof (cases "parse opts tokenized")
  case NoFuel
  with parse_returns show ?thesis by blast
next
  case (Threw e)
  then show ?thesis by blast
next
  case (Parsed ast)
  then obtain a c where
    "topLoop (2 * length (tokens tokenized) + 2) opts initial_context [[]]
       (tokens tokenized) = Parsed (a, c)"
    by (auto simp: parse_def pbind_Parsed)
  from cf_topLoop[OF assms(1) this] assms(2) show ?thesis by simp
qed

text \<open>With the option set, the parse is the same except for the lookbehind error.\<close>

lemma pbind_transfer:
  assumes "pbind m k = r" and "r \<noteq> NoFuel" and "r \<noteq> Threw LookbehindNotAllowed"
    and "m \<noteq> NoFuel \<Longrightarrow> m \<noteq> Threw LookbehindNotAllowed \<Longrightarrow> m' = m"
    and "\<And>x. m = Parsed x \<Longrightarrow> k x = r \<Longrightarrow> k' x = r"
  shows "pbind m' k' = r"
proof (cases m)
  case NoFuel
  with assms(1,2) show ?thesis by (simp add: pbind_def)
next
  case (Threw e)
  with assms(1) have r: "r = Threw e" by (simp add: pbind_def)
  with assms(3) have "e \<noteq> LookbehindNotAllowed" by simp
  with assms(4) Threw have "m' = Threw e" by simp
  with r show ?thesis by (simp add: pbind_def)
next
  case (Parsed x)
  with assms(1) have k: "k x = r" by (simp add: pbind_def)
  from assms(4) Parsed have "m' = Parsed x" by simp
  with assms(5)[OF Parsed k] show ?thesis by (simp add: pbind_def)
qed

lemma fromNum_skip:
  "fromNum (opts\<lparr>skipLookbehindValidation := b\<rparr>) = fromNum opts"
  by (rule ext)+ (simp add: fromNum_def)

lemma parseBackreference_skip:
  "parseBackreference (opts\<lparr>skipLookbehindValidation := b\<rparr>) ctx raw
     = parseBackreference opts ctx raw"
  unfolding parseBackreference_def fromNum_skip ..

lemma createPosixClass_skip:
  "createPosixClass (opts\<lparr>skipLookbehindValidation := b\<rparr>) = createPosixClass opts"
  by (rule ext)+ (simp add: createPosixClass_def)

lemma parseCharacterSet_skip:
  "parseCharacterSet (opts\<lparr>skipLookbehindValidation := b\<rparr>) kind negate val
     = parseCharacterSet opts kind negate val"
  by (cases val) (simp_all add: parseCharacterSet_def createPosixClass_skip Let_def)

lemma walk_token_skip:
  "walk_token (opts\<lparr>skipLookbehindValidation := b\<rparr>) ctx st elems t ts
     = walk_token opts ctx st elems t ts"
  unfolding walk_token_def parseBackreference_skip parseCharacterSet_skip ..

lemma violation_skip [simp]:
  "\<not> lookbehind_violation (opts\<lparr>skipLookbehindValidation := True\<rparr>) st g child"
  by (simp add: lookbehind_violation_def)

lemma skip_same:
  "(\<forall>ctx st elems ts r.
      walk f opts ctx st elems ts = r \<longrightarrow> r \<noteq> NoFuel \<longrightarrow> r \<noteq> Threw LookbehindNotAllowed \<longrightarrow>
        walk f (opts\<lparr>skipLookbehindValidation := True\<rparr>) ctx st elems ts = r)
   \<and> (\<forall>ctx st first inters ts r.
      classLoop f opts ctx st first inters ts = r \<longrightarrow> r \<noteq> NoFuel \<longrightarrow>
        r \<noteq> Threw LookbehindNotAllowed \<longrightarrow>
        classLoop f (opts\<lparr>skipLookbehindValidation := True\<rparr>) ctx st first inters ts = r)
   \<and> (\<forall>ctx st g alts ts r.
      groupLoop f opts ctx st g alts ts = r \<longrightarrow> r \<noteq> NoFuel \<longrightarrow>
        r \<noteq> Threw LookbehindNotAllowed \<longrightarrow>
        groupLoop f (opts\<lparr>skipLookbehindValidation := True\<rparr>) ctx st g alts ts = r)"
proof (induction f)
  case 0
  show ?case by simp
next
  case (Suc f)
  let ?o = "opts\<lparr>skipLookbehindValidation := True\<rparr>"
  note IHw = Suc.IH[THEN conjunct1, rule_format]
  note IHc = Suc.IH[THEN conjunct2, THEN conjunct1, rule_format]
  note IHg = Suc.IH[THEN conjunct2, THEN conjunct2, rule_format]
  have w: "walk (Suc f) ?o ctx st elems ts = r"
    if wk: "walk (Suc f) opts ctx st elems ts = r" and
      nf: "r \<noteq> NoFuel" and nl: "r \<noteq> Threw LookbehindNotAllowed"
    for ctx st elems ts r
  proof (cases ts)
    case Nil
    with wk show ?thesis by simp
  next
    case (Cons t ts')
    consider (hy) "t = CharacterClassHyphenTok"
      | (co) ng where "t = CharacterClassOpenTok ng"
      | (go) g where "t = GroupOpenTok g"
      | (other) "\<And>opt. walk (Suc f) opt ctx st elems (t # ts')
                         = walk_token opt ctx st elems t ts'"
      by (cases t) auto
    then show ?thesis
    proof cases
      case hy
      show ?thesis
      proof (cases "hyphen_is_range st elems ts'")
        case True
        with wk Cons hy have
          "pbind (walk f opts ctx (st\<lparr>isCheckingRangeEnd := True\<rparr>) elems ts')
             (finish_range elems) = r"
          by simp
        from pbind_transfer[OF this nf nl IHw[OF refl]]
        have "pbind (walk f ?o ctx (st\<lparr>isCheckingRangeEnd := True\<rparr>) elems ts')
                (finish_range elems) = r"
          by simp
        with True Cons hy show ?thesis by simp
      next
        case False
        with wk Cons hy show ?thesis by simp
      qed
    next
      case (co ng)
      show ?thesis
      proof (cases ts')
        case Nil
        with wk Cons co show ?thesis by simp
      next
        case (Cons first rest0)
        with wk \<open>ts = t # ts'\<close> co have
          "pbind (classLoop f opts ctx st first [[]] ts')
             (\<lambda>(inters, rest', ctx'). Parsed (finish_class ng inters, elems, rest', ctx')) = r"
          by simp
        from pbind_transfer[OF this nf nl IHc[OF refl]]
        have "pbind (classLoop f ?o ctx st first [[]] ts')
             (\<lambda>(inters, rest', ctx'). Parsed (finish_class ng inters, elems, rest', ctx')) = r"
          by simp
        with Cons \<open>ts = t # ts'\<close> co show ?thesis by simp
      qed
    next
      case (go g)
      with wk Cons have
        p: "pbind (plift (open_group ctx st g)) (\<lambda>(n, ctx1).
              pbind (groupLoop f opts ctx1 st n [[]] ts')
                (\<lambda>(alts, rest', ctx').
                    Parsed (with_array n (map Alternative alts), elems, rest', ctx'))) = r"
        by simp
      have "pbind (plift (open_group ctx st g)) (\<lambda>(n, ctx1).
              pbind (groupLoop f ?o ctx1 st n [[]] ts')
                (\<lambda>(alts, rest', ctx').
                    Parsed (with_array n (map Alternative alts), elems, rest', ctx'))) = r"
      proof (rule pbind_transfer[OF p nf nl refl])
        fix x
        assume "plift (open_group ctx st g) = Parsed x"
          and k: "(case x of (n, ctx1) \<Rightarrow>
              pbind (groupLoop f opts ctx1 st n [[]] ts')
                (\<lambda>(alts, rest', ctx').
                    Parsed (with_array n (map Alternative alts), elems, rest', ctx'))) = r"
        obtain n ctx1 where x: "x = (n, ctx1)" by (cases x)
        from k x have
          "pbind (groupLoop f opts ctx1 st n [[]] ts')
                (\<lambda>(alts, rest', ctx').
                    Parsed (with_array n (map Alternative alts), elems, rest', ctx')) = r"
          by simp
        from pbind_transfer[OF this nf nl IHg[OF refl]]
        show "(case x of (n, ctx1) \<Rightarrow>
              pbind (groupLoop f ?o ctx1 st n [[]] ts')
                (\<lambda>(alts, rest', ctx').
                    Parsed (with_array n (map Alternative alts), elems, rest', ctx'))) = r"
          by (simp add: x)
      qed
      with Cons go show ?thesis by simp
    next
      case other
      with wk Cons show ?thesis by (simp add: walk_token_skip)
    qed
  qed
  have cl: "classLoop (Suc f) ?o ctx st first inters ts = r"
    if c0: "classLoop (Suc f) opts ctx st first inters ts = r" and
      nf: "r \<noteq> NoFuel" and nl: "r \<noteq> Threw LookbehindNotAllowed"
    for ctx st first inters ts r
  proof (cases ts)
    case Nil
    with c0 show ?thesis by simp
  next
    case (Cons t ts')
    consider (close) "t = CharacterClassCloseTok"
      | (inter) "t = CharacterClassIntersectorTok"
      | (elem) "t \<noteq> CharacterClassCloseTok" "t \<noteq> CharacterClassIntersectorTok"
      by blast
    then show ?thesis
    proof cases
      case close
      with c0 Cons show ?thesis by simp
    next
      case inter
      with c0 Cons have "classLoop f opts ctx st first (inters @ [[]]) ts' = r" by simp
      from IHc[OF this nf nl] Cons inter show ?thesis by simp
    next
      case elem
      with c0 Cons have
        p: "pbind (walk f opts ctx st (last inters) (t # ts'))
             (\<lambda>(n, elems', rest', ctx').
                 classLoop f opts ctx' st first (butlast inters @ [elems' @ [n]]) rest') = r"
        by simp
      have "pbind (walk f ?o ctx st (last inters) (t # ts'))
             (\<lambda>(n, elems', rest', ctx').
                 classLoop f ?o ctx' st first (butlast inters @ [elems' @ [n]]) rest') = r"
      proof (rule pbind_transfer[OF p nf nl IHw[OF refl]])
        fix x
        assume k: "(case x of (n, elems', rest', ctx') \<Rightarrow>
                 classLoop f opts ctx' st first (butlast inters @ [elems' @ [n]]) rest') = r"
        obtain n elems' rest' ctx' where x: "x = (n, elems', rest', ctx')" by (cases x)
        from k x IHc[OF _ nf nl]
        show "(case x of (n, elems', rest', ctx') \<Rightarrow>
                 classLoop f ?o ctx' st first (butlast inters @ [elems' @ [n]]) rest') = r"
          by simp
      qed
      with Cons elem show ?thesis by simp
    qed
  qed
  have gl: "groupLoop (Suc f) ?o ctx st g alts ts = r"
    if g0: "groupLoop (Suc f) opts ctx st g alts ts = r" and
      nf: "r \<noteq> NoFuel" and nl: "r \<noteq> Threw LookbehindNotAllowed"
    for ctx st g alts ts r
  proof (cases ts)
    case Nil
    with g0 show ?thesis by simp
  next
    case (Cons t ts')
    consider (close) "t = GroupCloseTok"
      | (alt) "t = AlternatorTok"
      | (elem) "t \<noteq> GroupCloseTok" "t \<noteq> AlternatorTok"
      by blast
    then show ?thesis
    proof cases
      case close
      with g0 Cons show ?thesis by simp
    next
      case alt
      with g0 Cons have "groupLoop f opts ctx st g (alts @ [[]]) ts' = r" by simp
      from IHg[OF this nf nl] Cons alt show ?thesis by simp
    next
      case elem
      with g0 Cons have
        p: "pbind (walk f opts ctx (child_state st g) (last alts) (t # ts'))
             (\<lambda>(child, elems', rest', ctx').
                 if lookbehind_violation opts st g child then Threw LookbehindNotAllowed
                 else groupLoop f opts ctx' st g (butlast alts @ [elems' @ [child]]) rest') = r"
        by simp
      have "pbind (walk f ?o ctx (child_state st g) (last alts) (t # ts'))
             (\<lambda>(child, elems', rest', ctx').
                 if lookbehind_violation ?o st g child then Threw LookbehindNotAllowed
                 else groupLoop f ?o ctx' st g (butlast alts @ [elems' @ [child]]) rest') = r"
      proof (rule pbind_transfer[OF p nf nl IHw[OF refl]])
        fix x
        assume k: "(case x of (child, elems', rest', ctx') \<Rightarrow>
                 if lookbehind_violation opts st g child then Threw LookbehindNotAllowed
                 else groupLoop f opts ctx' st g (butlast alts @ [elems' @ [child]]) rest') = r"
        obtain child elems' rest' ctx' where x: "x = (child, elems', rest', ctx')"
          by (cases x)
        from k x nl have
          "groupLoop f opts ctx' st g (butlast alts @ [elems' @ [child]]) rest' = r"
          by (auto split: if_splits)
        from IHg[OF this nf nl]
        show "(case x of (child, elems', rest', ctx') \<Rightarrow>
                 if lookbehind_violation ?o st g child then Threw LookbehindNotAllowed
                 else groupLoop f ?o ctx' st g (butlast alts @ [elems' @ [child]]) rest') = r"
          by (simp add: x)
      qed
      with Cons elem show ?thesis by simp
    qed
  qed
  from w cl gl show ?case by blast
qed

lemma skip_same_topLoop:
  "topLoop f opts ctx alts ts = r \<Longrightarrow> r \<noteq> NoFuel \<Longrightarrow> r \<noteq> Threw LookbehindNotAllowed \<Longrightarrow>
     topLoop f (opts\<lparr>skipLookbehindValidation := True\<rparr>) ctx alts ts = r"
proof (induction f arbitrary: ctx alts ts)
  case 0
  then show ?case by simp
next
  case (Suc f)
  let ?o = "opts\<lparr>skipLookbehindValidation := True\<rparr>"
  show ?case
  proof (cases ts)
    case Nil
    with Suc.prems show ?thesis by simp
  next
    case (Cons t ts')
    with Suc.prems(1) have
      p: "pbind (walk f opts ctx empty_state (last alts) (t # ts'))
       (\<lambda>(n, elems', rest, ctx').
           (case n of
              Alternative els \<Rightarrow> topLoop f opts ctx' (butlast alts @ [elems'] @ [els]) rest
            | _ \<Rightarrow> topLoop f opts ctx' (butlast alts @ [elems' @ [n]]) rest)) = r"
      by simp
    have "pbind (walk f ?o ctx empty_state (last alts) (t # ts'))
       (\<lambda>(n, elems', rest, ctx').
           (case n of
              Alternative els \<Rightarrow> topLoop f ?o ctx' (butlast alts @ [elems'] @ [els]) rest
            | _ \<Rightarrow> topLoop f ?o ctx' (butlast alts @ [elems' @ [n]]) rest)) = r"
    proof (rule pbind_transfer[OF p Suc.prems(2,3)
          skip_same[of f opts, THEN conjunct1, rule_format, OF refl]])
      fix x
      assume k: "(case x of (n, elems', rest, ctx') \<Rightarrow>
           (case n of
              Alternative els \<Rightarrow> topLoop f opts ctx' (butlast alts @ [elems'] @ [els]) rest
            | _ \<Rightarrow> topLoop f opts ctx' (butlast alts @ [elems' @ [n]]) rest)) = r"
      obtain n elems' rest ctx' where x: "x = (n, elems', rest, ctx')" by (cases x)
      from k x Suc.IH[OF _ Suc.prems(2,3)]
      show "(case x of (n, elems', rest, ctx') \<Rightarrow>
           (case n of
              Alternative els \<Rightarrow> topLoop f ?o ctx' (butlast alts @ [elems'] @ [els]) rest
            | _ \<Rightarrow> topLoop f ?o ctx' (butlast alts @ [elems' @ [n]]) rest)) = r"
        by (cases n) simp_all
    qed
    with Cons show ?thesis by simp
  qed
qed

lemma skip_same_parse:
  assumes "parse opts tokenized \<noteq> Threw LookbehindNotAllowed"
  shows "parse (opts\<lparr>skipLookbehindValidation := True\<rparr>) tokenized = parse opts tokenized"
proof -
  let ?o = "opts\<lparr>skipLookbehindValidation := True\<rparr>"
  let ?t = "topLoop (2 * length (tokens tokenized) + 2) opts initial_context [[]]
              (tokens tokenized)"
  have v: "validate ?o ctx = validate opts ctx" for ctx
    by (simp add: validate_def)
  from topLoop_returns have nf: "?t \<noteq> NoFuel" by simp
  from assms have nl: "?t \<noteq> Threw LookbehindNotAllowed"
    by (auto simp: parse_def pbind_def)
  from skip_same_topLoop[OF refl nf nl] show ?thesis
    by (simp add: parse_def v)
qed

lemmas scope_defs =
  top_scope_def group_scope_def class_scope_def opens_forbidden_def truthy_def

subsection \<open>The claims about whole parses\<close>

lemmas example_defs =
  tokens_of_def lb_open_def la_open_def cap_open_def grp_open_def default_options_def
  skipping_options_def

text \<open>
  C10: the factories of the alternative containers start the \<open>alternatives\<close> with one empty
  alternative, and in every tree that \<open>parse\<close> returns every alternative container (pattern,
  group, capturing group, lookaround, absent function) has at least one alternative.
  \<open>parse\<close> always returns or throws.
\<close>

theorem alternatives_never_empty:
  "createPattern = Pattern [Alternative []]
   \<and> createGroup atomic fl = Group (truthy atomic) fl [Alternative []]
   \<and> (createCapturingGroup number name = Inr g \<longrightarrow>
        g = CapturingGroup number name [Alternative []])
   \<and> createLookaroundAssertion behind negate =
        LookaroundAssertion (if behind then lookbehind else lookahead) (truthy negate)
          [Alternative []]
   \<and> createAbsentFunction kind = AbsentFunction kind [Alternative []]
   \<and> (parse opts tokenized = Parsed ast \<longrightarrow> alternatives_nonempty ast)
   \<and> parse opts tokenized \<noteq> NoFuel"
  using ne_parse[of opts tokenized ast] parse_returns[of opts tokenized]
  by (auto simp: createPattern_def createGroup_def createCapturingGroup_def
      createLookaroundAssertion_def createAbsentFunction_def createAlternative_def
      split: option.splits if_splits)

theorem alternatives_never_empty_witness:
  "createCapturingGroup 1 None = Inr (CapturingGroup 1 None [Alternative []])
   \<and> parse default_options a_or_b = Parsed a_or_b_ast
   \<and> alternatives_nonempty a_or_b_ast"
proof -
  have c: "createCapturingGroup 1 None = Inr (CapturingGroup 1 None [Alternative []])"
    by (simp add: createCapturingGroup_def createAlternative_def)
  have p: "parse default_options a_or_b = Parsed a_or_b_ast"
    by (simp add: a_or_b_def a_or_b_ast_def example_defs parser_defs)
  from alternatives_never_empty[of None None 1 None "CapturingGroup 1 None [Alternative []]"
      False None Repeater default_options a_or_b a_or_b_ast] c p
  show ?thesis by blast
qed

text \<open>
  C6, as the claim states it, fails twice.  For the pair (positive lookbehind, negative
  lookbehind): when the positive lookbehind itself lies in a negative lookbehind, the rules
  of the negative lookbehind are the ones applied, and they allow a lookbehind;
  \<^verbatim>\<open>(?<!(?<=(?<!a)))\<close> is parsed without error.  For the option: with
  \<open>skipLookbehindValidation\<close> set, a pattern with a lookahead in a lookbehind need not be
  parsed with success; \<^verbatim>\<open>(?<=(?=a))\1\<close> is rejected for its backreference.
\<close>

theorem lookbehind_pair_counterexample:
  "parse default_options neg_pos_neg = Parsed neg_pos_neg_ast
   \<and> skipLookbehindValidation skipping_options
   \<and> contains_forbidden top_scope [] (tokens pos_lb_la_backref)
   \<and> parse skipping_options pos_lb_la_backref = Threw NotEnoughCapturingGroups"
proof -
  have a: "parse default_options neg_pos_neg = Parsed neg_pos_neg_ast"
    by (simp add: neg_pos_neg_def neg_pos_neg_ast_def example_defs parser_defs)
  have b: "skipLookbehindValidation skipping_options"
    by (simp add: skipping_options_def)
  have c: "contains_forbidden top_scope [] (tokens pos_lb_la_backref)"
    by (simp add: pos_lb_la_backref_def scope_defs example_defs)
  have d: "parse skipping_options pos_lb_la_backref = Threw NotEnoughCapturingGroups"
    by (simp add: pos_lb_la_backref_def example_defs parser_defs parseBackreference_def
        fromNum_def backslash_def is_digit_def digits_value_def)
  from a b c d show ?thesis by simp
qed

text \<open>
  C6 (amended): without \<open>skipLookbehindValidation\<close>, \<open>parse\<close> throws on every pattern in which
  a group that is, or lies at any depth in, a lookbehind has directly in its alternatives a
  lookahead, or a capturing group when a negative lookbehind is around, or a negative
  lookbehind when no negative lookbehind is around (\<open>contains_forbidden\<close>, on the tokens); the
  error is the lookbehind error whenever the pattern is parsed with the option set.  A tree
  that \<open>parse\<close> returns holds no such child.  With \<open>skipLookbehindValidation\<close> set, \<open>parse\<close>
  never throws the lookbehind error, and it returns what \<open>parse\<close> without the option returns
  whenever that is not the lookbehind error: the tree, or the error of another check.
\<close>

theorem lookbehind_contents_validated:
  "(\<not> skipLookbehindValidation opts \<longrightarrow>
      contains_forbidden top_scope [] (tokens tokenized) \<longrightarrow>
        (\<exists>e. parse opts tokenized = Threw e))
   \<and> (\<not> skipLookbehindValidation opts \<longrightarrow>
        contains_forbidden top_scope [] (tokens tokenized) \<longrightarrow>
        parse (opts\<lparr>skipLookbehindValidation := True\<rparr>) tokenized = Parsed ast' \<longrightarrow>
          parse opts tokenized = Threw LookbehindNotAllowed)
   \<and> (\<not> skipLookbehindValidation opts \<longrightarrow> parse opts tokenized = Parsed ast \<longrightarrow>
        lookbehind_allowed False False ast)
   \<and> (lookbehind_allowed lb neg (LookaroundAssertion lookbehind ng alts) \<longrightarrow>
        Alternative els \<in> set alts \<longrightarrow> e \<in> set els \<longrightarrow>
          \<not> isLookahead e
          \<and> (ng \<or> neg \<longrightarrow> type_of e \<noteq> CapturingGroupT)
          \<and> (\<not> ng \<and> \<not> neg \<longrightarrow> \<not> (isLookbehind e \<and> lookaround_negate e))
          \<and> lookbehind_allowed True (neg \<or> ng) e)
   \<and> (lookbehind_allowed True neg (Group atm fl alts) \<longrightarrow>
        Alternative els \<in> set alts \<longrightarrow> e \<in> set els \<longrightarrow>
          \<not> isLookahead e
          \<and> (neg \<longrightarrow> type_of e \<noteq> CapturingGroupT)
          \<and> (\<not> neg \<longrightarrow> \<not> (isLookbehind e \<and> lookaround_negate e))
          \<and> lookbehind_allowed True neg e)
   \<and> (skipLookbehindValidation opts \<longrightarrow> parse opts tokenized \<noteq> Threw LookbehindNotAllowed)
   \<and> (parse opts tokenized \<noteq> Threw LookbehindNotAllowed \<longrightarrow>
        parse (opts\<lparr>skipLookbehindValidation := True\<rparr>) tokenized = parse opts tokenized)
   \<and> parse opts tokenized \<noteq> NoFuel"
proof -
  have strip: "\<not> isLookahead (strip_quantifiers x) \<Longrightarrow> \<not> isLookahead x"
    "type_of (strip_quantifiers x) \<noteq> CapturingGroupT \<Longrightarrow> type_of x \<noteq> CapturingGroupT"
    "\<not> (isLookbehind (strip_quantifiers x) \<and> lookaround_negate (strip_quantifiers x))
       \<Longrightarrow> \<not> (isLookbehind x \<and> lookaround_negate x)" for x
    by (cases x; simp add: isLookahead_def isLookbehind_def lookaround_negate_def)+
  have el: "\<not> isLookahead e
          \<and> (n \<longrightarrow> type_of e \<noteq> CapturingGroupT)
          \<and> (\<not> n \<longrightarrow> \<not> (isLookbehind e \<and> lookaround_negate e))
          \<and> lookbehind_allowed True n e"
    if "list_all (lookbehind_allowed True n) alts" "Alternative els \<in> set alts" "e \<in> set els"
    for n alts
  proof -
    from that have "\<not> forbidden_in_lookbehind True n (strip_quantifiers e)"
      and a: "lookbehind_allowed True n e"
      by (auto simp: list_all_iff)
    then show ?thesis
      using strip[of e] by (auto simp: forbidden_in_lookbehind_def split: if_splits)
  qed
  have c2: "\<not> isLookahead e
          \<and> (ng \<or> neg \<longrightarrow> type_of e \<noteq> CapturingGroupT)
          \<and> (\<not> ng \<and> \<not> neg \<longrightarrow> \<not> (isLookbehind e \<and> lookaround_negate e))
          \<and> lookbehind_allowed True (neg \<or> ng) e"
    if "lookbehind_allowed lb neg (LookaroundAssertion lookbehind ng alts)"
      "Alternative els \<in> set alts" "e \<in> set els"
    using el[of "neg \<or> ng" alts] that by auto
  have c3: "\<not> isLookahead e
          \<and> (neg \<longrightarrow> type_of e \<noteq> CapturingGroupT)
          \<and> (\<not> neg \<longrightarrow> \<not> (isLookbehind e \<and> lookaround_negate e))
          \<and> lookbehind_allowed True neg e"
    if "lookbehind_allowed True neg (Group atm fl alts)"
      "Alternative els \<in> set alts" "e \<in> set els"
    using el[of neg alts] that by auto
  have t1: "\<exists>e. parse opts tokenized = Threw e"
    if "\<not> skipLookbehindValidation opts" "contains_forbidden top_scope [] (tokens tokenized)"
    using cf_parse[OF that] .
  have t2: "parse opts tokenized = Threw LookbehindNotAllowed"
    if ns: "\<not> skipLookbehindValidation opts"
      and cf: "contains_forbidden top_scope [] (tokens tokenized)"
      and sk: "parse (opts\<lparr>skipLookbehindValidation := True\<rparr>) tokenized = Parsed ast'"
  proof (rule ccontr)
    assume n: "parse opts tokenized \<noteq> Threw LookbehindNotAllowed"
    from cf_parse[OF ns cf] obtain err where "parse opts tokenized = Threw err" by blast
    with skip_same_parse[OF n] sk show False by simp
  qed
  from t1 t2 la_parse[of opts tokenized ast] c2 c3 skip_parse[of opts tokenized]
    skip_same_parse[of opts tokenized] parse_returns[of opts tokenized]
  show ?thesis by blast
qed

theorem lookbehind_contents_validated_witness:
  "\<not> skipLookbehindValidation default_options
   \<and> default_options\<lparr>skipLookbehindValidation := True\<rparr> = skipping_options
   \<and> contains_forbidden top_scope [] (tokens pos_lb_la)
   \<and> contains_forbidden top_scope [] (tokens pos_lb_neg_lb)
   \<and> contains_forbidden top_scope [] (tokens neg_lb_la)
   \<and> contains_forbidden top_scope [] (tokens neg_lb_cap)
   \<and> contains_forbidden top_scope [] (tokens neg_lb_deep_cap)
   \<and> \<not> contains_forbidden top_scope [] (tokens pos_lb_a)
   \<and> \<not> contains_forbidden top_scope [] (tokens neg_pos_neg)
   \<and> parse default_options pos_lb_la = Threw LookbehindNotAllowed
   \<and> parse default_options pos_lb_neg_lb = Threw LookbehindNotAllowed
   \<and> parse default_options neg_lb_la = Threw LookbehindNotAllowed
   \<and> parse default_options neg_lb_cap = Threw LookbehindNotAllowed
   \<and> parse default_options neg_lb_deep_cap = Threw LookbehindNotAllowed
   \<and> parse default_options pos_lb_a = Parsed pos_lb_a_ast
   \<and> lookbehind_allowed False False pos_lb_a_ast
   \<and> parse skipping_options pos_lb_a = Parsed pos_lb_a_ast
   \<and> skipLookbehindValidation skipping_options
   \<and> parse skipping_options pos_lb_la \<noteq> Threw LookbehindNotAllowed
   \<and> parse skipping_options pos_lb_la =
       Parsed (Regex (Pattern [Alternative
                 [LookaroundAssertion lookbehind False [Alternative
                    [LookaroundAssertion lookahead False [Alternative [Character 97]]]]]])
               (Flags default_flags))
   \<and> parse skipping_options neg_lb_cap =
       Parsed (Regex (Pattern [Alternative
                 [LookaroundAssertion lookbehind True [Alternative
                    [CapturingGroup 1 None [Alternative [Character 97]]]]]])
               (Flags default_flags))"
proof -
  have h1: "\<not> skipLookbehindValidation default_options"
    by (simp add: default_options_def)
  have h0: "default_options\<lparr>skipLookbehindValidation := True\<rparr> = skipping_options"
    by (simp add: skipping_options_def)
  have h3: "skipLookbehindValidation skipping_options"
    by (simp add: skipping_options_def)
  have f1: "contains_forbidden top_scope [] (tokens pos_lb_la)"
    by (simp add: pos_lb_la_def scope_defs example_defs)
  have f2: "contains_forbidden top_scope [] (tokens pos_lb_neg_lb)"
    by (simp add: pos_lb_neg_lb_def scope_defs example_defs)
  have f3: "contains_forbidden top_scope [] (tokens neg_lb_la)"
    by (simp add: neg_lb_la_def scope_defs example_defs)
  have f4: "contains_forbidden top_scope [] (tokens neg_lb_cap)"
    by (simp add: neg_lb_cap_def scope_defs example_defs)
  have f5: "contains_forbidden top_scope [] (tokens neg_lb_deep_cap)"
    by (simp add: neg_lb_deep_cap_def scope_defs example_defs)
  have f6: "\<not> contains_forbidden top_scope [] (tokens pos_lb_a)"
    by (simp add: pos_lb_a_def scope_defs example_defs)
  have f7: "\<not> contains_forbidden top_scope [] (tokens neg_pos_neg)"
    by (simp add: neg_pos_neg_def scope_defs example_defs)
  have s1: "parse skipping_options pos_lb_la =
       Parsed (Regex (Pattern [Alternative
                 [LookaroundAssertion lookbehind False [Alternative
                    [LookaroundAssertion lookahead False [Alternative [Character 97]]]]]])
               (Flags default_flags))"
    by (simp add: pos_lb_la_def example_defs parser_defs)
  have s2: "parse skipping_options neg_lb_cap =
       Parsed (Regex (Pattern [Alternative
                 [LookaroundAssertion lookbehind True [Alternative
                    [CapturingGroup 1 None [Alternative [Character 97]]]]]])
               (Flags default_flags))"
    by (simp add: neg_lb_cap_def example_defs parser_defs)
  have s3: "parse skipping_options pos_lb_neg_lb =
       Parsed (Regex (Pattern [Alternative
                 [LookaroundAssertion lookbehind False [Alternative
                    [LookaroundAssertion lookbehind True [Alternative [Character 97]]]]]])
               (Flags default_flags))"
    by (simp add: pos_lb_neg_lb_def example_defs parser_defs)
  have s4: "parse skipping_options neg_lb_la =
       Parsed (Regex (Pattern [Alternative
                 [LookaroundAssertion lookbehind True [Alternative
                    [LookaroundAssertion lookahead False [Alternative [Character 97]]]]]])
               (Flags default_flags))"
    by (simp add: neg_lb_la_def example_defs parser_defs)
  have s5: "parse skipping_options neg_lb_deep_cap =
       Parsed (Regex (Pattern [Alternative
                 [LookaroundAssertion lookbehind True [Alternative
                    [Group False None [Alternative
                       [CapturingGroup 1 None [Alternative [Character 97]]]]]]]])
               (Flags default_flags))"
    by (simp add: neg_lb_deep_cap_def example_defs parser_defs)
  have h2: "parse default_options pos_lb_a = Parsed pos_lb_a_ast"
    by (simp add: pos_lb_a_def pos_lb_a_ast_def example_defs parser_defs)
  note t = lookbehind_contents_validated[where opts = default_options, unfolded h0]
  from t[of pos_lb_la] h1 f1 s1
  have r1: "parse default_options pos_lb_la = Threw LookbehindNotAllowed" by blast
  from t[of pos_lb_neg_lb] h1 f2 s3
  have r2: "parse default_options pos_lb_neg_lb = Threw LookbehindNotAllowed" by blast
  from t[of neg_lb_la] h1 f3 s4
  have r3: "parse default_options neg_lb_la = Threw LookbehindNotAllowed" by blast
  from t[of neg_lb_cap] h1 f4 s2
  have r4: "parse default_options neg_lb_cap = Threw LookbehindNotAllowed" by blast
  from t[of neg_lb_deep_cap] h1 f5 s5
  have r5: "parse default_options neg_lb_deep_cap = Threw LookbehindNotAllowed" by blast
  from t[of pos_lb_a _ pos_lb_a_ast] h1 h2
  have a1: "lookbehind_allowed False False pos_lb_a_ast"
    and a2: "parse skipping_options pos_lb_a = Parsed pos_lb_a_ast"
    by auto
  from lookbehind_contents_validated[of skipping_options pos_lb_la] h3
  have a3: "parse skipping_options pos_lb_la \<noteq> Threw LookbehindNotAllowed" by blast
  from h0 h1 h2 h3 f1 f2 f3 f4 f5 f6 f7 r1 r2 r3 r4 r5 a1 a2 a3 s1 s2
  show ?thesis by simp
qed

section \<open>Properties of the traverser with \<^verbatim>\<open>replaceWithMultiple\<close>\<close>

lemma traverseNodeX_Suc:
  "traverseNodeX (Suc fuel) v ast n pos s =
     visit_node (traverseNodeX fuel v ast) (traverseArrayX fuel v ast) v ast n pos s"
  by simp

lemma traverseArrayX_Suc:
  "traverseArrayX (Suc fuel) v ast parent i array s =
     (if i < length array then
        obind (traverseNodeX fuel v ast (array ! i)
                 (AtIndex (with_array parent array) i array) s) (\<lambda>st.
          prepend_calls (calls st)
            (traverseArrayX fuel v ast parent (next_index i (keyShift st))
               (case cont st of Some c \<Rightarrow> c | None \<Rightarrow> array) (ustate st)))
      else Done (array, s, []))"
  by simp

lemmas xfuel_numeral =
  traverseNodeX.simps(2)[where fuel = "pred_numeral k", folded numeral_eq_Suc]
  traverseArrayX.simps(2)[where fuel = "pred_numeral k", folded numeral_eq_Suc]
  for k

declare traverseNodeX.simps(2) [simp del] traverseArrayX.simps(2) [simp del]

lemma obind_return [simp]: "obind m Done = m"
  by (cases m) (simp_all add: obind_def)

lemma obind_simps:
  "obind (Done x) f = f x" "obind OutOfFuel f = OutOfFuel" "obind (Failed e) f = Failed e"
  by (simp_all add: obind_def)

lemma in_place_init:
  "i < length xs \<Longrightarrow> in_place i xs [xs ! i] (init_state n (AtIndex q i xs) s)"
  by (simp add: in_place_def init_state_def container_of_def id_take_nth_drop[symmetric])

lemma in_place_frame [simp]:
  "in_place i xs seg (st\<lparr>ustate := u, calls := c\<rparr>) = in_place i xs seg st"
  "in_place i xs seg (st\<lparr>skipTraversingKidsOfPath := b\<rparr>) = in_place i xs seg st"
  by (simp_all add: in_place_def)

lemma in_place_cursor:
  assumes "in_place i xs seg st" and "seg \<noteq> []"
  shows "cursor i (keyShift st) = i + length seg - 1"
  using assms by (cases seg) (auto simp: in_place_def cursor_def)

lemma splice_in_segment:
  assumes "i < length xs" and "seg \<noteq> []"
  shows "splice_in (i + length seg - 1) ns (take i xs @ seg @ drop (Suc i) xs)
           = take i xs @ (butlast seg @ ns) @ drop (Suc i) xs"
proof -
  from assms(2) obtain b l where seg: "seg = b @ [l]"
    by (cases seg rule: rev_cases) auto
  have len: "length (take i xs) = i" using assms(1) by simp
  have a: "take (i + length b) (take i xs @ b @ l # drop (Suc i) xs) = take i xs @ b"
    using len by (simp add: take_append)
  have b: "drop (Suc (i + length b)) (take i xs @ b @ l # drop (Suc i) xs) = drop (Suc i) xs"
    using len by (simp add: drop_append)
  show ?thesis
    using a b by (simp add: splice_in_def seg)
qed

lemma update_segment:
  assumes "i < length xs" and "seg \<noteq> []"
  shows "(take i xs @ seg @ drop (Suc i) xs)[i + length seg - 1 := n]
           = take i xs @ (butlast seg @ [n]) @ drop (Suc i) xs"
proof -
  from assms(2) obtain b l where seg: "seg = b @ [l]"
    by (cases seg rule: rev_cases) auto
  have len: "length (take i xs) = i" using assms(1) by simp
  show ?thesis
    using len by (simp add: seg list_update_append)
qed

lemma segment_length:
  "i < length xs \<Longrightarrow> seg \<noteq> [] \<Longrightarrow>
     i + length seg - 1 < length (take i xs @ seg @ drop (Suc i) xs)"
  by (cases seg) auto


lemma in_place_unique:
  "in_place i xs seg st \<Longrightarrow> in_place i xs seg' st \<Longrightarrow> seg' = seg"
  by (simp add: in_place_def)

lemma walks_leave_nodes_in_place: "walks_leave_nodes rec \<Longrightarrow> walks_in_place rec"
  unfolding walks_leave_nodes_def walks_in_place_def by blast

lemma walk_inserted_in_order:
  assumes wip: "walks_in_place rec"
  shows "walk_inserted rec parent a ms st = Done r \<Longrightarrow> cont st = Some (pre @ ms @ post) \<Longrightarrow>
     length pre = a \<Longrightarrow>
     \<exists>ws. length ws = length ms
        \<and> walked_in_order rec parent pre ms post (ustate st) ws
        \<and> cont r = Some (pre @ concat (map fst ws) @ post)
        \<and> keyShift r = keyShift st + int (length (concat (map fst ws))) - int (length ms)
        \<and> calls r = calls st @ concat (map (\<lambda>w. calls (snd w)) ws)
        \<and> skipTraversingKidsOfPath r = skipTraversingKidsOfPath st
        \<and> cur r = cur st \<and> path_node r = path_node st \<and> same r = same st
        \<and> (walks_leave_nodes rec \<longrightarrow> (\<forall>w\<in>set ws. fst w \<noteq> []))"
proof (induction ms arbitrary: a st pre)
  case Nil
  then show ?case by simp
next
  case (Cons m ms)
  let ?c = "pre @ m # ms @ post"
  from Cons.prems(1,2) obtain r0 where
    r0: "rec m (AtIndex (with_array parent ?c) a ?c) (ustate st) = Done r0" and
    rest: "walk_inserted rec parent (nat (int a + 1 + keyShift r0)) ms
             (st\<lparr>cont := cont r0, ustate := ustate r0, calls := calls st @ calls r0,
                 keyShift := keyShift st + keyShift r0\<rparr>) = Done r"
    by (auto simp: obind_Done)
  have alt: "a < length ?c" using Cons.prems(3) by simp
  from wip r0 alt obtain seg0 where ip: "in_place a ?c seg0 r0"
    unfolding walks_in_place_def by blast
  have tk: "take a ?c = pre" and dr: "drop (Suc a) ?c = ms @ post"
    using Cons.prems(3) by simp_all
  from ip[unfolded in_place_def tk dr]
  have c0: "cont r0 = Some ((pre @ seg0) @ ms @ post)"
    and k0: "keyShift r0 = int (length seg0) - 1"
    by simp_all
  have nx: "nat (int a + 1 + keyShift r0) = length (pre @ seg0)"
    using Cons.prems(3) by (simp add: k0)
  let ?st' = "st\<lparr>cont := cont r0, ustate := ustate r0, calls := calls st @ calls r0,
                 keyShift := keyShift st + keyShift r0\<rparr>"
  have "cont ?st' = Some ((pre @ seg0) @ ms @ post)" by (simp add: c0)
  from Cons.IH[OF rest[unfolded nx] this refl] obtain ws where
    ws: "length ws = length ms"
      "walked_in_order rec parent (pre @ seg0) ms post (ustate ?st') ws"
      "cont r = Some ((pre @ seg0) @ concat (map fst ws) @ post)"
      "keyShift r = keyShift ?st' + int (length (concat (map fst ws))) - int (length ms)"
      "calls r = calls ?st' @ concat (map (\<lambda>w. calls (snd w)) ws)"
      "skipTraversingKidsOfPath r = skipTraversingKidsOfPath ?st'"
      "cur r = cur ?st'" "path_node r = path_node ?st'" "same r = same ?st'"
      "walks_leave_nodes rec \<longrightarrow> (\<forall>w\<in>set ws. fst w \<noteq> [])"
    by blast
  have ne: "walks_leave_nodes rec \<longrightarrow> seg0 \<noteq> []"
  proof
    assume "walks_leave_nodes rec"
    with r0 alt obtain seg1 where "seg1 \<noteq> []" "in_place a ?c seg1 r0"
      unfolding walks_leave_nodes_def by blast
    with in_place_unique[OF ip] show "seg0 \<noteq> []" by blast
  qed
  let ?ws = "(seg0, r0) # ws"
  have "length ?ws = length (m # ms)" using ws(1) by simp
  moreover have "walked_in_order rec parent pre (m # ms) post (ustate st) ?ws"
    using r0 c0 k0 ws(2) Cons.prems(3) by simp
  moreover have "cont r = Some (pre @ concat (map fst ?ws) @ post)"
    using ws(3) by simp
  moreover have "keyShift r = keyShift st + int (length (concat (map fst ?ws)))
                   - int (length (m # ms))"
    using ws(4) k0 by simp
  moreover have "calls r = calls st @ concat (map (\<lambda>w. calls (snd w)) ?ws)"
    using ws(5) by simp
  moreover have "skipTraversingKidsOfPath r = skipTraversingKidsOfPath st"
    "cur r = cur st" "path_node r = path_node st" "same r = same st"
    using ws(6-9) by simp_all
  moreover have "walks_leave_nodes rec \<longrightarrow> (\<forall>w\<in>set ?ws. fst w \<noteq> [])"
    using ws(10) ne by simp
  ultimately show ?case by blast
qed

lemma replaceWithMultiple_in_place:
  assumes ip: "in_place i xs seg st" and seg: "seg \<noteq> []" and i: "i < length xs"
  shows "replaceWithMultiple rec (AtIndex q i c0) st ns trav =
           (if trav
            then walk_inserted rec q (i + length seg - 1) ns
                   (st\<lparr>cont := Some (take i xs @ (butlast seg @ ns) @ drop (Suc i) xs),
                       keyShift := int (length (butlast seg @ ns)) - 1,
                       skipTraversingKidsOfPath := True\<rparr>)
            else Done (st\<lparr>cont := Some (take i xs @ (butlast seg @ ns) @ drop (Suc i) xs),
                           keyShift := int (length (butlast seg @ ns)) - 1,
                           skipTraversingKidsOfPath := True\<rparr>))"
proof -
  from ip have c: "cont st = Some (take i xs @ seg @ drop (Suc i) xs)"
    and k: "keyShift st = int (length seg) - 1"
    by (simp_all add: in_place_def)
  from seg k have l: "keyShift st + int (length ns) - 1
                      = int (length (butlast seg @ ns)) - 1"
    by (cases seg rule: rev_cases) auto
  from in_place_cursor[OF ip seg] k
  have cu: "cursor i (int (length seg) - 1) = i + length seg - 1" by simp
  have e1: "splice_in (i + length seg - Suc 0) ns (take i xs @ seg @ drop (Suc i) xs)
              = take i xs @ butlast seg @ ns @ drop (Suc i) xs"
    using splice_in_segment[OF i seg, of ns] by simp
  have e2: "int (length seg) + int (length ns) - 2
              = int (length seg - Suc 0) + int (length ns) - 1"
    using seg by (cases seg) auto
  show ?thesis
    by (simp add: replaceWithMultiple_def Let_def c k cu e1 e2)
qed

lemma replaceWithMultiple_walks:
  assumes ip: "in_place i xs seg st" and seg: "seg \<noteq> []" and i: "i < length xs"
    and wip: "trav \<Longrightarrow> walks_in_place rec"
    and r: "replaceWithMultiple rec (AtIndex q i c0) st ns trav = Done r"
  shows "\<exists>ws. length ws = length ns
        \<and> (if trav
            then walked_in_order rec q (take i xs @ butlast seg) ns (drop (Suc i) xs)
                   (ustate st) ws
            else map fst ws = map (\<lambda>n. [n]) ns)
        \<and> in_place i xs (butlast seg @ concat (map fst ws)) r
        \<and> calls r = calls st @ (if trav then concat (map (\<lambda>w. calls (snd w)) ws) else [])
        \<and> skipTraversingKidsOfPath r
        \<and> cur r = cur st \<and> path_node r = path_node st \<and> same r = same st
        \<and> (\<not> trav \<longrightarrow> ustate r = ustate st)
        \<and> (trav \<longrightarrow> walks_leave_nodes rec \<longrightarrow> (\<forall>w\<in>set ws. fst w \<noteq> []))"
proof (cases trav)
  case False
  let ?ws = "map (\<lambda>n. ([n], st)) ns"
  have m: "map fst ?ws = map (\<lambda>n. [n]) ns" by (simp add: comp_def)
  have cc: "concat (map (\<lambda>n. [n]) ns) = ns" by (induction ns) simp_all
  have cc': "concat (map (fst \<circ> (\<lambda>n. ([n], st))) ns) = ns" by (induction ns) simp_all
  from r False replaceWithMultiple_in_place[OF ip seg i, of rec q c0 ns trav]
  have r': "r = st\<lparr>cont := Some (take i xs @ (butlast seg @ ns) @ drop (Suc i) xs),
                   keyShift := int (length (butlast seg @ ns)) - 1,
                   skipTraversingKidsOfPath := True\<rparr>"
    by simp
  have "in_place i xs (butlast seg @ concat (map fst ?ws)) r"
    by (simp add: cc' r' in_place_def)
  with False m r' show ?thesis
    by (intro exI[of _ ?ws]) (simp add: cc')
next
  case True
  let ?st1 = "st\<lparr>cont := Some (take i xs @ (butlast seg @ ns) @ drop (Suc i) xs),
                   keyShift := int (length (butlast seg @ ns)) - 1,
                   skipTraversingKidsOfPath := True\<rparr>"
  from r True replaceWithMultiple_in_place[OF ip seg i, of rec q c0 ns trav]
  have w: "walk_inserted rec q (i + length seg - 1) ns ?st1 = Done r"
    by simp
  have c1: "cont ?st1 = Some ((take i xs @ butlast seg) @ ns @ drop (Suc i) xs)"
    by simp
  have l1: "length (take i xs @ butlast seg) = i + length seg - 1"
    using i seg by (cases seg rule: rev_cases) auto
  from walk_inserted_in_order[OF wip[OF True] w c1 l1] obtain ws where
    ws: "length ws = length ns"
      "walked_in_order rec q (take i xs @ butlast seg) ns (drop (Suc i) xs) (ustate ?st1) ws"
      "cont r = Some ((take i xs @ butlast seg) @ concat (map fst ws) @ drop (Suc i) xs)"
      "keyShift r = keyShift ?st1 + int (length (concat (map fst ws))) - int (length ns)"
      "calls r = calls ?st1 @ concat (map (\<lambda>w. calls (snd w)) ws)"
      "skipTraversingKidsOfPath r = skipTraversingKidsOfPath ?st1"
      "cur r = cur ?st1" "path_node r = path_node ?st1" "same r = same ?st1"
      "walks_leave_nodes rec \<longrightarrow> (\<forall>w\<in>set ws. fst w \<noteq> [])"
    by blast
  have "in_place i xs (butlast seg @ concat (map fst ws)) r"
    using ws(3,4) by (simp add: in_place_def)
  with True ws show ?thesis
    apply -
    apply (rule exI[of _ ws])
    apply simp
    done
qed


lemma concat_segments_nonempty:
  "ws \<noteq> [] \<Longrightarrow> \<forall>w\<in>set ws. fst w \<noteq> [] \<Longrightarrow> concat (map fst ws) \<noteq> []"
  by (cases ws) auto

lemma apply_action_splicing:
  assumes i: "i < length xs"
    and a: "lift (apply_action (AtIndex q i c0) st b) = Done st1"
    and so: "splices_only (Plain b)"
    and ip: "in_place i xs seg st" and seg: "seg \<noteq> []"
  shows "\<exists>seg1. seg1 \<noteq> [] \<and> in_place i xs seg1 st1"
proof (cases b)
  case Skip
  with a ip seg show ?thesis
    by (auto simp: lift_Done apply_action_def skip_def)
next
  case (ReplaceWith n)
  define C where "C = take i xs @ seg @ drop (Suc i) xs"
  from ip have c: "cont st = Some C"
    and k: "keyShift st = int (length seg) - 1"
    by (simp_all add: in_place_def C_def)
  note cu = in_place_cursor[OF ip seg]
  have lt: "i + length seg - 1 < length C"
    unfolding C_def by (rule segment_length[OF i seg])
  have up: "C[i + length seg - 1 := n] = take i xs @ (butlast seg @ [n]) @ drop (Suc i) xs"
    unfolding C_def by (rule update_segment[OF i seg])
  from a ReplaceWith have
    "st1 = st\<lparr>cont := Some (C[i + length seg - 1 := n]), cur := n, same := False\<rparr>"
    using lt
    by (auto simp: lift_Done apply_action_def replaceWith_def c cu js_set_def)
  then have "in_place i xs (butlast seg @ [n]) st1"
    using seg k unfolding up by (cases seg rule: rev_cases) (auto simp: in_place_def)
  then show ?thesis by blast
next
  case (Throw m)
  with a show ?thesis by (simp add: lift_def apply_action_def)
qed (use so in \<open>simp_all add: splices_only_def\<close>)

lemma apply_xactions_splicing:
  assumes wln: "walks_leave_nodes rec" and i: "i < length xs"
  shows "apply_xactions rec (AtIndex q i c0) st acts = Done st' \<Longrightarrow>
     list_all splices_only acts \<Longrightarrow> in_place i xs seg st \<Longrightarrow> seg \<noteq> [] \<Longrightarrow>
     \<exists>seg'. seg' \<noteq> [] \<and> in_place i xs seg' st'"
proof (induction acts arbitrary: st seg)
  case Nil
  then show ?case by auto
next
  case (Cons a acts)
  from Cons.prems(1) obtain st1 where
    step: "(case a of
              Plain b \<Rightarrow> lift (apply_action (AtIndex q i c0) st b)
            | ReplaceWithMultiple ns trav \<Rightarrow>
                replaceWithMultiple rec (AtIndex q i c0) st ns trav) = Done st1" and
    rest: "apply_xactions rec (AtIndex q i c0) st1 acts = Done st'"
    by (auto simp: obind_Done)
  from Cons.prems(2) have so: "splices_only a" and sos: "list_all splices_only acts"
    by simp_all
  have "\<exists>seg1. seg1 \<noteq> [] \<and> in_place i xs seg1 st1"
  proof (cases a)
    case (Plain b)
    with step so apply_action_splicing[OF i _ _ Cons.prems(3,4)] show ?thesis by simp
  next
    case (ReplaceWithMultiple ns trav)
    with so have ns: "ns \<noteq> []" by (simp add: splices_only_def)
    from step ReplaceWithMultiple have
      r: "replaceWithMultiple rec (AtIndex q i c0) st ns trav = Done st1" by simp
    from replaceWithMultiple_walks[OF Cons.prems(3,4) i
        walks_leave_nodes_in_place[OF wln] r]
    obtain ws where
      ws: "length ws = length ns"
        "if trav
         then walked_in_order rec q (take i xs @ butlast seg) ns (drop (Suc i) xs)
                (ustate st) ws
         else map fst ws = map (\<lambda>n. [n]) ns"
        "in_place i xs (butlast seg @ concat (map fst ws)) st1"
        "trav \<longrightarrow> walks_leave_nodes rec \<longrightarrow> (\<forall>w\<in>set ws. fst w \<noteq> [])"
      by blast
    have "\<forall>w\<in>set ws. fst w \<noteq> []"
    proof (cases trav)
      case True
      with ws(4) wln show ?thesis by blast
    next
      case False
      with ws(2) have "map fst ws = map (\<lambda>n. [n]) ns" by simp
      then have "\<forall>x\<in>set (map fst ws). x \<noteq> []" by auto
      then show ?thesis by auto
    qed
    moreover from ws(1) ns have "ws \<noteq> []" by auto
    ultimately have "concat (map fst ws) \<noteq> []"
      by (rule concat_segments_nonempty[rotated])
    with ws(3) show ?thesis by blast
  qed
  then obtain seg1 where "seg1 \<noteq> []" "in_place i xs seg1 st1" by blast
  from Cons.IH[OF rest sos this(2,1)] show ?case .
qed

lemma run_xcallback_splicing:
  assumes wln: "walks_leave_nodes rec" and i: "i < length xs"
    and cb: "splicing_callback cb"
    and r: "run_xcallback rec cb ph (AtIndex q i c0) ast st = Done st'"
    and ip: "in_place i xs seg st" and seg: "seg \<noteq> []"
  shows "\<exists>seg'. seg' \<noteq> [] \<and> in_place i xs seg' st'"
proof (cases cb)
  case None
  with r ip seg show ?thesis by (auto simp: run_xcallback_def)
next
  case (Some f)
  obtain acts s' where f: "f (path_view (AtIndex q i c0) ast st) (ustate st) = (acts, s')"
    by (cases "f (path_view (AtIndex q i c0) ast st) (ustate st)")
  from cb Some
  have "list_all splices_only (fst (f (path_view (AtIndex q i c0) ast st) (ustate st)))"
    by (simp add: splicing_callback_def)
  with f have so: "list_all splices_only acts" by simp
  from r Some f have
    "apply_xactions rec (AtIndex q i c0)
       (st\<lparr>ustate := s',
           calls := calls st @ [Called ph (path_node st) (key_of (AtIndex q i c0))]\<rparr>) acts
     = Done st'"
    by (simp add: run_xcallback_def)
  from apply_xactions_splicing[OF wln i this so _ seg] ip show ?thesis by simp
qed

lemma store_kids_in_place:
  assumes i: "i < length xs" and ip: "in_place i xs seg st" and seg: "seg \<noteq> []"
  shows "\<exists>seg'. seg' \<noteq> [] \<and> in_place i xs seg' (store_kids (AtIndex q i c0) st (n, s', evs))"
proof -
  define C where "C = take i xs @ seg @ drop (Suc i) xs"
  from ip have c: "cont st = Some C"
    and k: "keyShift st = int (length seg) - 1"
    by (simp_all add: in_place_def C_def)
  note cu = in_place_cursor[OF ip seg]
  have up: "C[i + length seg - 1 := n] = take i xs @ (butlast seg @ [n]) @ drop (Suc i) xs"
    unfolding C_def by (rule update_segment[OF i seg])
  have "cont (store_kids (AtIndex q i c0) st (n, s', evs))
          = Some (C[i + length seg - 1 := n])"
    and "keyShift (store_kids (AtIndex q i c0) st (n, s', evs)) = keyShift st"
    by (simp_all add: store_kids_def Let_def c cu)
  then have "in_place i xs (butlast seg @ [n]) (store_kids (AtIndex q i c0) st (n, s', evs))"
    using seg k unfolding up by (cases seg rule: rev_cases) (auto simp: in_place_def)
  then show ?thesis by blast
qed

lemma x_walk_kids_in_place:
  assumes i: "i < length xs"
    and w: "x_walk_kids rec ra (AtIndex q i c0) st = Done st'"
    and ip: "in_place i xs seg st" and seg: "seg \<noteq> []"
  shows "\<exists>seg'. seg' \<noteq> [] \<and> in_place i xs seg' st'"
proof (cases "skipTraversingKidsOfPath st")
  case True
  with w ip seg show ?thesis by (auto simp: x_walk_kids_def)
next
  case False
  show ?thesis
  proof (cases "kids_of (cur st)")
    case NoKids
    with False w ip seg show ?thesis by (auto simp: x_walk_kids_def)
  next
    case (ArrayKids ys)
    with False w obtain n s' evs where "st' = store_kids (AtIndex q i c0) st (n, s', evs)"
      by (auto simp: x_walk_kids_def obind_Done)
    with store_kids_in_place[OF i ip seg] show ?thesis by simp
  next
    case (SlotKids ks)
    with False w obtain r where "st' = store_kids (AtIndex q i c0) st r"
      by (auto simp: x_walk_kids_def obind_Done)
    with store_kids_in_place[OF i ip seg] show ?thesis by (cases r) auto
  qed
qed

lemma splicing_walks:
  assumes cls: "splicing v"
  shows "walks_leave_nodes (traverseNodeX fuel v ast)"
proof (induction fuel)
  case 0
  show ?case by (simp add: walks_leave_nodes_def)
next
  case (Suc f)
  let ?rec = "traverseNodeX f v ast"
  show ?case
    unfolding walks_leave_nodes_def
  proof (intro allI impI)
    fix m q a c u r
    assume a: "a < length c"
      and t: "traverseNodeX (Suc f) v ast m (AtIndex q a c) u = Done r"
    from t obtain st1 st2 st3 st4 where
      e1: "run_xcallback ?rec (x_enter (x_any_type v)) EnterAny (AtIndex q a c) ast
             (init_state m (AtIndex q a c) u) = Done st1" and
      e2: "run_xcallback ?rec (x_enter (x_this_type v (type_of m))) EnterThis
             (AtIndex q a c) ast st1 = Done st2" and
      k: "x_walk_kids ?rec (traverseArrayX f v ast) (AtIndex q a c) st2 = Done st3" and
      x1: "run_xcallback ?rec (x_exit (x_any_type v)) ExitAny (AtIndex q a c) ast st3
             = Done st4" and
      x2: "run_xcallback ?rec (x_exit (x_this_type v (type_of m))) ExitThis
             (AtIndex q a c) ast st4 = Done r"
      unfolding traverseNodeX_Suc visit_node_def x_enter_node_def x_exit_node_def obind_Done
      by blast
    from cls have c1: "splicing_callback (x_enter (x_any_type v))"
      and c2: "splicing_callback (x_enter (x_this_type v (type_of m)))"
      and c3: "splicing_callback (x_exit (x_any_type v))"
      and c4: "splicing_callback (x_exit (x_this_type v (type_of m)))"
      by (simp_all add: splicing_def)
    from run_xcallback_splicing[OF Suc a c1 e1 in_place_init[OF a]]
    obtain s1 where "s1 \<noteq> []" "in_place a c s1 st1" by blast
    from run_xcallback_splicing[OF Suc a c2 e2 this(2,1)]
    obtain s2 where "s2 \<noteq> []" "in_place a c s2 st2" by blast
    from x_walk_kids_in_place[OF a k this(2,1)]
    obtain s3 where "s3 \<noteq> []" "in_place a c s3 st3" by blast
    from run_xcallback_splicing[OF Suc a c3 x1 this(2,1)]
    obtain s4 where "s4 \<noteq> []" "in_place a c s4 st4" by blast
    from run_xcallback_splicing[OF Suc a c4 x2 this(2,1)]
    show "\<exists>seg. seg \<noteq> [] \<and> in_place a c seg r" .
  qed
qed


lemma replace_at_node:
  assumes i: "i < length xs"
    and st: "in_place i xs [n] st"
    and wip: "trav \<Longrightarrow> walks_in_place rec"
    and r: "replaceWithMultiple rec (AtIndex q i c0) st ns trav = Done r"
  shows "\<exists>ws. length ws = length ns
        \<and> (if trav
            then walked_in_order rec q (take i xs) ns (drop (Suc i) xs) (ustate st) ws
            else map fst ws = map (\<lambda>n. [n]) ns)
        \<and> in_place i xs (concat (map fst ws)) r
        \<and> calls r = calls st @ (if trav then concat (map (\<lambda>w. calls (snd w)) ws) else [])
        \<and> skipTraversingKidsOfPath r
        \<and> cur r = cur st \<and> path_node r = path_node st \<and> same r = same st"
proof -
  have ne: "[n] \<noteq> []" by simp
  from replaceWithMultiple_walks[OF st ne i wip r] show ?thesis
    by (auto split: if_splits)
qed

lemma x_enter_replace:
  assumes i: "i < length xs"
    and en: "x_enter_actions rec v ast (xs ! i) (AtIndex q i xs) s
               = [ReplaceWithMultiple ns trav]"
    and st2: "x_enter_node rec v ast (xs ! i) (AtIndex q i xs) s = Done st2"
    and wip: "trav \<Longrightarrow> walks_in_place rec"
  shows "\<exists>ws ev1 ev2. length ws = length ns
      \<and> (if trav
          then walked_in_order rec q (take i xs) ns (drop (Suc i) xs)
                 (x_enter_caller_state v ast (xs ! i) (AtIndex q i xs) s) ws
          else map fst ws = map (\<lambda>n. [n]) ns)
      \<and> in_place i xs (concat (map fst ws)) st2
      \<and> ev1 \<noteq> [] \<and> ev1 @ ev2 = x_enter_events v (xs ! i) (AtIndex q i xs)
      \<and> calls st2 = ev1 @ (if trav then concat (map (\<lambda>w. calls (snd w)) ws) else []) @ ev2
      \<and> skipTraversingKidsOfPath st2"
proof -
  let ?n = "xs ! i" and ?pos = "AtIndex q i xs"
  let ?init = "init_state ?n ?pos s"
  have ip0: "in_place i xs [?n] ?init" by (rule in_place_init[OF i])
  have pn: "path_node ?init = ?n" "calls ?init = []" "ustate ?init = s"
    by (simp_all add: init_state_def)
  show ?thesis
  proof (cases "x_enter (x_any_type v)")
    case None
    note anyNone = this
    show ?thesis
    proof (cases "x_enter (x_this_type v (type_of ?n))")
      case None
      with anyNone en show ?thesis by (simp add: x_enter_actions_def)
    next
      case (Some g)
      obtain acts s' where g: "g (path_view ?pos ast ?init) s = (acts, s')"
        by (cases "g (path_view ?pos ast ?init) s")
      from en anyNone Some g have acts: "acts = [ReplaceWithMultiple ns trav]"
        by (simp add: x_enter_actions_def)
      let ?st = "?init\<lparr>ustate := s', calls := [Called EnterThis ?n (key_of ?pos)]\<rparr>"
      from st2 anyNone Some g acts
      have r: "replaceWithMultiple rec ?pos ?st ns trav = Done st2"
        by (simp add: x_enter_node_def run_xcallback_def pn obind_simps)
      have ip: "in_place i xs [?n] ?st" using ip0 by simp
      from replace_at_node[OF i ip wip r] obtain ws where
        ws: "length ws = length ns"
          "if trav
           then walked_in_order rec q (take i xs) ns (drop (Suc i) xs) (ustate ?st) ws
           else map fst ws = map (\<lambda>n. [n]) ns"
          "in_place i xs (concat (map fst ws)) st2"
          "calls st2 = calls ?st @ (if trav then concat (map (\<lambda>w. calls (snd w)) ws) else [])"
          "skipTraversingKidsOfPath st2"
        by blast
      have ev: "x_enter_events v ?n ?pos
                  = [Called EnterThis ?n (key_of ?pos)] @ []"
        by (simp add: x_enter_events_def anyNone Some)
      have u: "x_enter_caller_state v ast ?n ?pos s = ustate ?st"
        by (simp add: x_enter_caller_state_def anyNone Some g)
      from ws ev show ?thesis
        apply -
        apply (rule exI[of _ ws])
        apply (rule exI[of _ "[Called EnterThis ?n (key_of ?pos)]"])
        apply (rule exI[of _ "[]"])
        apply (auto simp: u split: if_splits)
        done
    qed
  next
    case (Some f)
    note anySome = this
    obtain acts1 s1 where f: "f (path_view ?pos ast ?init) s = (acts1, s1)"
      by (cases "f (path_view ?pos ast ?init) s")
    let ?init1 = "?init\<lparr>ustate := s1, calls := [Called EnterAny ?n (key_of ?pos)]\<rparr>"
    have ip1: "in_place i xs [?n] ?init1" using ip0 by simp
    from st2 anySome f obtain st1 where
      a1: "apply_xactions rec ?pos ?init1 acts1 = Done st1" and
      t2: "run_xcallback rec (x_enter (x_this_type v (type_of ?n))) EnterThis ?pos ast st1
             = Done st2"
      by (auto simp: x_enter_node_def run_xcallback_def pn obind_Done)
    show ?thesis
    proof (cases "x_enter (x_this_type v (type_of ?n))")
      case None
      from en anySome None f a1 have acts: "acts1 = [ReplaceWithMultiple ns trav]"
        by (simp add: x_enter_actions_def)
      from t2 None have e: "st2 = st1" by (simp add: run_xcallback_def)
      from a1 acts e have r: "replaceWithMultiple rec ?pos ?init1 ns trav = Done st2"
        by (simp add: obind_simps)
      from replace_at_node[OF i ip1 wip r] obtain ws where
        ws: "length ws = length ns"
          "if trav
           then walked_in_order rec q (take i xs) ns (drop (Suc i) xs) (ustate ?init1) ws
           else map fst ws = map (\<lambda>n. [n]) ns"
          "in_place i xs (concat (map fst ws)) st2"
          "calls st2 = calls ?init1
                         @ (if trav then concat (map (\<lambda>w. calls (snd w)) ws) else [])"
          "skipTraversingKidsOfPath st2"
        by blast
      have ev: "x_enter_events v ?n ?pos
                  = [Called EnterAny ?n (key_of ?pos)] @ []"
        by (simp add: x_enter_events_def anySome None)
      have u: "x_enter_caller_state v ast ?n ?pos s = ustate ?init1"
        by (simp add: x_enter_caller_state_def anySome None f acts)
      from ws ev show ?thesis
        apply -
        apply (rule exI[of _ ws])
        apply (rule exI[of _ "[Called EnterAny ?n (key_of ?pos)]"])
        apply (rule exI[of _ "[]"])
        apply (auto simp: u split: if_splits)
        done
    next
      case (Some g)
      note thisSome = this
      obtain acts2 s2 where g: "g (path_view ?pos ast st1) (ustate st1) = (acts2, s2)"
        by (cases "g (path_view ?pos ast st1) (ustate st1)")
      from en anySome thisSome f a1 g have acts: "acts1 @ acts2 = [ReplaceWithMultiple ns trav]"
        by (simp add: x_enter_actions_def)
      have ev: "x_enter_events v ?n ?pos
                  = [Called EnterAny ?n (key_of ?pos)]
                    @ [Called EnterThis ?n (key_of ?pos)]"
        by (simp add: x_enter_events_def anySome thisSome)
      from acts consider
        (first) "acts1 = [ReplaceWithMultiple ns trav]" "acts2 = []"
        | (second) "acts1 = []" "acts2 = [ReplaceWithMultiple ns trav]"
        by (cases acts1) auto
      then show ?thesis
      proof cases
        case first
        from a1 first have r: "replaceWithMultiple rec ?pos ?init1 ns trav = Done st1"
          by (simp add: obind_simps)
        from replace_at_node[OF i ip1 wip r] obtain ws where
          ws: "length ws = length ns"
            "if trav
             then walked_in_order rec q (take i xs) ns (drop (Suc i) xs) (ustate ?init1) ws
             else map fst ws = map (\<lambda>n. [n]) ns"
            "in_place i xs (concat (map fst ws)) st1"
            "calls st1 = calls ?init1
                           @ (if trav then concat (map (\<lambda>w. calls (snd w)) ws) else [])"
            "skipTraversingKidsOfPath st1" "path_node st1 = path_node ?init1"
          by blast
        from t2 thisSome g first have
          e: "st2 = st1\<lparr>ustate := s2,
                        calls := calls st1 @ [Called EnterThis (path_node st1) (key_of ?pos)]\<rparr>"
          by (simp add: run_xcallback_def)
        have u: "x_enter_caller_state v ast ?n ?pos s = ustate ?init1"
          by (simp add: x_enter_caller_state_def anySome thisSome f first)
        from ws ev show ?thesis
          apply -
          apply (rule exI[of _ ws])
          apply (rule exI[of _ "[Called EnterAny ?n (key_of ?pos)]"])
          apply (rule exI[of _ "[Called EnterThis ?n (key_of ?pos)]"])
          apply (auto simp: e pn u split: if_splits)
          done
      next
        case second
        from a1 second have s1: "st1 = ?init1" by simp
        let ?st = "?init1\<lparr>ustate := s2,
                     calls := [Called EnterAny ?n (key_of ?pos),
                               Called EnterThis ?n (key_of ?pos)]\<rparr>"
        from t2 thisSome g second s1
        have r: "replaceWithMultiple rec ?pos ?st ns trav = Done st2"
          by (simp add: run_xcallback_def pn obind_simps)
        have ip: "in_place i xs [?n] ?st" using ip0 by simp
        from replace_at_node[OF i ip wip r] obtain ws where
          ws: "length ws = length ns"
            "if trav
             then walked_in_order rec q (take i xs) ns (drop (Suc i) xs) (ustate ?st) ws
             else map fst ws = map (\<lambda>n. [n]) ns"
            "in_place i xs (concat (map fst ws)) st2"
            "calls st2 = calls ?st
                           @ (if trav then concat (map (\<lambda>w. calls (snd w)) ws) else [])"
            "skipTraversingKidsOfPath st2"
          by blast
        from g s1 have g': "g (path_view ?pos ast ?init) s1 = (acts2, s2)"
          by simp
        have u: "x_enter_caller_state v ast ?n ?pos s = ustate ?st"
          by (simp add: x_enter_caller_state_def anySome thisSome f second g')
        from ws ev show ?thesis
          apply -
          apply (rule exI[of _ ws])
          apply (rule exI[of _ "[Called EnterAny ?n (key_of ?pos),
                                 Called EnterThis ?n (key_of ?pos)]"])
          apply (rule exI[of _ "[]"])
          apply (auto simp: u split: if_splits)
          done
      qed
    qed
  qed
qed

lemma walk_inserted_calls:
  fixes st :: "'s tstate"
  shows "walk_inserted rec q a ms st = Done r \<Longrightarrow> \<exists>ev. calls r = calls st @ ev"
proof (induction ms arbitrary: a st)
  case Nil
  then show ?case by simp
next
  case (Cons m ms)
  from Cons.prems obtain r0 :: "'s tstate" where
    "walk_inserted rec q (nat (int a + 1 + keyShift r0)) ms
       (st\<lparr>cont := cont r0, ustate := ustate r0, calls := calls st @ calls r0,
           keyShift := keyShift st + keyShift r0\<rparr>) = Done r"
    by (auto simp: obind_Done split: option.splits)
  from Cons.IH[OF this] show ?case by auto
qed

lemma replaceWithMultiple_calls:
  assumes "replaceWithMultiple rec pos st ns trav = Done r"
  shows "\<exists>ev. calls r = calls st @ ev"
proof (cases trav)
  case True
  with assms obtain q a st1 where
    "walk_inserted rec q a ns st1 = Done r" "calls st1 = calls st"
    by (auto simp: replaceWithMultiple_def Let_def split: position.splits option.splits)
  with walk_inserted_calls[of rec q a ns st1 r] show ?thesis by simp
next
  case False
  with assms show ?thesis
    by (auto simp: replaceWithMultiple_def Let_def split: position.splits option.splits)
qed

lemma apply_xactions_calls:
  "apply_xactions rec pos st acts = Done st' \<Longrightarrow> \<exists>ev. calls st' = calls st @ ev"
proof (induction acts arbitrary: st)
  case Nil
  then show ?case by simp
next
  case (Cons a acts)
  from Cons.prems obtain st1 where
    step: "(case a of
              Plain b \<Rightarrow> lift (apply_action pos st b)
            | ReplaceWithMultiple ns trav \<Rightarrow> replaceWithMultiple rec pos st ns trav) = Done st1"
    and rest: "apply_xactions rec pos st1 acts = Done st'"
    by (auto simp: obind_Done)
  have "\<exists>ev. calls st1 = calls st @ ev"
  proof (cases a)
    case (Plain b)
    with step have "apply_action pos st b = Inr st1" by (simp add: lift_Done)
    from apply_action_keeps[OF this] show ?thesis by simp
  next
    case (ReplaceWithMultiple ns trav)
    with step replaceWithMultiple_calls show ?thesis by fastforce
  qed
  with Cons.IH[OF rest] show ?case by auto
qed

lemma run_xcallback_calls_extend:
  assumes "run_xcallback rec cb ph pos ast st = Done st'"
  shows "\<exists>ev. calls st' = calls st @ ev"
proof (cases cb)
  case None
  with assms show ?thesis by (simp add: run_xcallback_def)
next
  case (Some f)
  obtain acts s' where f: "f (path_view pos ast st) (ustate st) = (acts, s')"
    by (cases "f (path_view pos ast st) (ustate st)")
  from assms Some f apply_xactions_calls[of rec pos
      "st\<lparr>ustate := s', calls := calls st @ [Called ph (path_node st) (key_of pos)]\<rparr>"
      acts st']
  show ?thesis by (auto simp: run_xcallback_def)
qed

lemma x_exit_node_calls:
  assumes "x_exit_node rec v ast n pos st = Done st'"
  shows "\<exists>ev. calls st' = calls st @ ev"
proof -
  from assms obtain st4 where
    a: "run_xcallback rec (x_exit (x_any_type v)) ExitAny pos ast st = Done st4" and
    b: "run_xcallback rec (x_exit (x_this_type v (type_of n))) ExitThis pos ast st4 = Done st'"
    by (auto simp: x_exit_node_def obind_Done)
  from run_xcallback_calls_extend[OF a] run_xcallback_calls_extend[OF b]
  show ?thesis by auto
qed

lemma splice_in_take:
  "i < length xs \<Longrightarrow> take (i + length seg) (splice_in i seg xs) = take i xs @ seg"
  by (simp add: splice_in_def)

lemma splice_in_drop:
  "i < length xs \<Longrightarrow> drop (i + length seg) (splice_in i seg xs) = drop (Suc i) xs"
  by (simp add: splice_in_def)

lemma splice_in_length:
  "i < length xs \<Longrightarrow> length (splice_in i seg xs) = i + length seg + (length xs - Suc i)"
  by (simp add: splice_in_def)

lemma splice_in_nth:
  "Suc i < length xs \<Longrightarrow> splice_in i seg xs ! (i + length seg) = xs ! Suc i"
  by (simp add: splice_in_def nth_append)

lemma concat_singletons: "map fst ws = map (\<lambda>n. [n]) ns \<Longrightarrow> concat (map fst ws) = ns"
  by (induction ns arbitrary: ws) auto

lemmas xtraverser_defs =
  xfuel_numeral traverseNodeX_Suc traverseArrayX_Suc visit_node_def x_enter_node_def
  x_walk_kids_def x_exit_node_def run_xcallback_def
  replaceWithMultiple_def splice_in_def obind_def lift_def prepend_calls_def init_state_def
  apply_action_def remove_def removeAllNextSiblings_def removeAllPrevSiblings_def
  replaceWith_def skip_def js_set_def splice1_def cursor_def next_index_def container_of_def
  key_of_def path_view_def kids_of_def with_array_def with_slot_def store_kids_def
  no_xhandlers_def

lemma unwrapping_splicing: "splicing unwrapping"
  by (simp add: splicing_def splicing_callback_def unwrapping_def look_def
      unwrap_nonempty_def no_xhandlers_def splices_only_def
      split: node.splits list.splits)

text \<open>
  C4, on the traverser with \<^verbatim>\<open>replaceWithMultiple\<close> modelled from the specification: when
  the enter callbacks of the node at index \<open>i\<close> of an array container call
  \<^verbatim>\<open>replaceWithMultiple(ns, {traverse})\<close> and no other path method (and the exit callbacks
  leave the container and the shift alone), some nodes \<open>seg\<close> take the place of the node, its
  kids are not walked, and the loop goes on behind \<open>seg\<close>: the node visited next is the one
  formerly at index \<open>i + 1\<close>; the siblings before the cursor stay as they are and those from
  the cursor on are exactly the ones still to be visited, so each sibling is visited once.
  Without traversal \<open>seg\<close> is \<open>ns\<close> and no callback is invoked for an inserted node.  With
  traversal, provided the walks of the visitor edit only their own place, every node of \<open>ns\<close>
  is walked by the same visitor, once and in order, each at the index it has by then and with
  the user state its predecessor left, the first with the state the calling callback left;
  \<open>seg\<close> is what these walks leave; their callbacks come after those of the calling callback
  and before everything the loop does next.
\<close>

theorem replaceWithMultiple_cursor:
  assumes i: "i < length xs"
    and pos: "pos = AtIndex (with_array p xs) i xs"
    and en: "x_enter_actions (traverseNodeX fuel v ast) v ast (xs ! i) pos s
               = [ReplaceWithMultiple ns trav]"
    and st2: "x_enter_node (traverseNodeX fuel v ast) v ast (xs ! i) pos s = Done st2"
    and ex: "x_exit_node (traverseNodeX fuel v ast) v ast (xs ! i) pos st2 = Done st3"
    and same_cont: "cont st3 = cont st2"
    and same_shift: "keyShift st3 = keyShift st2"
    and wip: "trav \<Longrightarrow> walks_in_place (traverseNodeX fuel v ast)"
  shows "\<exists>seg. cont st2 = Some (splice_in i seg xs) \<and> keyShift st2 = int (length seg) - 1
       \<and> skipTraversingKidsOfPath st2
       \<and> x_walk_kids (traverseNodeX fuel v ast) (traverseArrayX fuel v ast) pos st2 = Done st2
       \<and> traverseNodeX (Suc fuel) v ast (xs ! i) pos s = Done st3
       \<and> (\<exists>ev3. calls st3 = calls st2 @ ev3)
       \<and> (\<not> trav \<longrightarrow> seg = ns \<and> calls st2 = x_enter_events v (xs ! i) pos)
       \<and> (trav \<longrightarrow>
            (\<exists>ws ev1 ev2. length ws = length ns
               \<and> walked_in_order (traverseNodeX fuel v ast) (with_array p xs)
                   (take i xs) ns (drop (Suc i) xs)
                   (x_enter_caller_state v ast (xs ! i) pos s) ws
               \<and> seg = concat (map fst ws)
               \<and> ev1 \<noteq> [] \<and> ev1 @ ev2 = x_enter_events v (xs ! i) pos
               \<and> calls st2 = ev1 @ concat (map (\<lambda>w. calls (snd w)) ws) @ ev2))
       \<and> traverseArrayX (Suc (Suc fuel)) v ast p i xs s =
           prepend_calls (calls st3)
             (traverseArrayX (Suc fuel) v ast p (i + length seg) (splice_in i seg xs)
                (ustate st3))
       \<and> traverseArrayX (Suc fuel) v ast p (i + length seg) (splice_in i seg xs) (ustate st3) =
           (if Suc i < length xs then
              obind (traverseNodeX fuel v ast (xs ! Suc i)
                       (AtIndex (with_array p (splice_in i seg xs)) (i + length seg)
                          (splice_in i seg xs)) (ustate st3))
                (\<lambda>st. prepend_calls (calls st)
                   (traverseArrayX fuel v ast p (next_index (i + length seg) (keyShift st))
                      (case cont st of Some c \<Rightarrow> c | None \<Rightarrow> splice_in i seg xs)
                      (ustate st)))
            else Done (splice_in i seg xs, ustate st3, []))
       \<and> take (i + length seg) (splice_in i seg xs) = take i xs @ seg
       \<and> drop (i + length seg) (splice_in i seg xs) = drop (Suc i) xs"
proof -
  let ?rec = "traverseNodeX fuel v ast"
  let ?n = "xs ! i"
  from x_enter_replace[OF i en[unfolded pos] st2[unfolded pos] wip]
  obtain ws ev1 ev2 where
    ws: "length ws = length ns"
      "if trav
       then walked_in_order ?rec (with_array p xs) (take i xs) ns (drop (Suc i) xs)
              (x_enter_caller_state v ast ?n pos s) ws
       else map fst ws = map (\<lambda>n. [n]) ns"
      "in_place i xs (concat (map fst ws)) st2"
      "ev1 @ ev2 = x_enter_events v ?n pos"
      "calls st2 = ev1 @ (if trav then concat (map (\<lambda>w. calls (snd w)) ws) else []) @ ev2"
      "skipTraversingKidsOfPath st2"
      "ev1 \<noteq> []"
    unfolding pos by blast
  define seg where "seg = concat (map fst ws)"
  define C where "C = splice_in i seg xs"
  from ws(3) have a: "cont st2 = Some C" "keyShift st2 = int (length seg) - 1"
    by (simp_all add: in_place_def seg_def C_def splice_in_def)
  have b: "x_walk_kids ?rec (traverseArrayX fuel v ast) pos st2 = Done st2"
    using ws(6) by (simp add: x_walk_kids_def)
  have c: "traverseNodeX (Suc fuel) v ast ?n pos s = Done st3"
    by (simp add: traverseNodeX_Suc visit_node_def st2 b ex obind_simps)
  have f: "\<not> trav \<longrightarrow> seg = ns \<and> calls st2 = x_enter_events v ?n pos"
    using ws(2,4,5) by (auto simp: seg_def concat_singletons)
  have h: "\<exists>ev3. calls st3 = calls st2 @ ev3"
    by (rule x_exit_node_calls[OF ex])
  have t: "trav \<longrightarrow>
            (\<exists>ws ev1 ev2. length ws = length ns
               \<and> walked_in_order ?rec (with_array p xs) (take i xs) ns (drop (Suc i) xs)
                   (x_enter_caller_state v ast ?n pos s) ws
               \<and> seg = concat (map fst ws)
               \<and> ev1 \<noteq> [] \<and> ev1 @ ev2 = x_enter_events v ?n pos
               \<and> calls st2 = ev1 @ concat (map (\<lambda>w. calls (snd w)) ws) @ ev2)"
  proof
    assume trav
    with ws(1,2,4,5,7) seg_def show
      "\<exists>ws ev1 ev2. length ws = length ns
         \<and> walked_in_order ?rec (with_array p xs) (take i xs) ns (drop (Suc i) xs)
             (x_enter_caller_state v ast ?n pos s) ws
         \<and> seg = concat (map fst ws)
         \<and> ev1 \<noteq> [] \<and> ev1 @ ev2 = x_enter_events v ?n pos
         \<and> calls st2 = ev1 @ concat (map (\<lambda>w. calls (snd w)) ws) @ ev2"
      apply -
      apply (rule exI[of _ ws])
      apply (rule exI[of _ ev1])
      apply (rule exI[of _ ev2])
      apply simp
      done
  qed
  have ni: "next_index i (int (length seg) - 1) = i + length seg"
    by (simp add: next_index_def)
  have d: "traverseArrayX (Suc (Suc fuel)) v ast p i xs s =
           prepend_calls (calls st3)
             (traverseArrayX (Suc fuel) v ast p (i + length seg) C (ustate st3))"
    using i c[unfolded pos]
    by (subst traverseArrayX_Suc) (simp add: obind_simps same_cont same_shift a ni)
  have len: "length C = i + length seg + (length xs - Suc i)"
    unfolding C_def by (rule splice_in_length[OF i])
  have e: "traverseArrayX (Suc fuel) v ast p (i + length seg) C (ustate st3) =
           (if Suc i < length xs then
              obind (traverseNodeX fuel v ast (xs ! Suc i)
                       (AtIndex (with_array p C) (i + length seg) C) (ustate st3))
                (\<lambda>st. prepend_calls (calls st)
                   (traverseArrayX fuel v ast p (next_index (i + length seg) (keyShift st))
                      (case cont st of Some c \<Rightarrow> c | None \<Rightarrow> C) (ustate st)))
            else Done (C, ustate st3, []))"
  proof (cases "Suc i < length xs")
    case True
    then have "i + length seg < length C" by (simp add: len)
    moreover have "C ! (i + length seg) = xs ! Suc i"
      unfolding C_def by (rule splice_in_nth[OF True])
    ultimately show ?thesis using True by (subst traverseArrayX_Suc) simp
  next
    case False
    with i have "\<not> i + length seg < length C" by (simp add: len)
    then show ?thesis using False by (subst traverseArrayX_Suc) simp
  qed
  have g: "take (i + length seg) C = take i xs @ seg"
    "drop (i + length seg) C = drop (Suc i) xs"
    unfolding C_def by (rule splice_in_take[OF i], rule splice_in_drop[OF i])
  from a ws(6) b c h f t d e g show ?thesis
    unfolding C_def apply -
 apply (rule exI[of _ seg])
 apply (blast)
 done
qed

theorem replaceWithMultiple_cursor_witness:
  "0 < length groups_d
   \<and> x_enter_actions (traverseNodeX 3 unwrapping (Alternative groups_d)) unwrapping
        (Alternative groups_d) (groups_d ! 0)
        (AtIndex (with_array (Alternative groups_d) groups_d) 0 groups_d) ()
      = [ReplaceWithMultiple [Character 97, group_bc] True]
   \<and> x_enter_node (traverseNodeX 3 unwrapping (Alternative groups_d)) unwrapping
        (Alternative groups_d) (groups_d ! 0)
        (AtIndex (with_array (Alternative groups_d) groups_d) 0 groups_d) ()
      = Done group_unwrapped
   \<and> x_exit_node (traverseNodeX 3 unwrapping (Alternative groups_d)) unwrapping
        (Alternative groups_d) (groups_d ! 0)
        (AtIndex (with_array (Alternative groups_d) groups_d) 0 groups_d) group_unwrapped
      = Done group_left
   \<and> walks_in_place (traverseNodeX 3 unwrapping (Alternative groups_d))
   \<and> traverseArrayX (Suc (Suc 3)) unwrapping (Alternative groups_d) (Alternative groups_d)
        0 groups_d ()
      = prepend_calls (calls group_left)
          (traverseArrayX (Suc 3) unwrapping (Alternative groups_d) (Alternative groups_d)
             3 abcd ())
   \<and> traverseArrayX 5 unwrapping (Alternative groups_d) (Alternative groups_d) 0 groups_d ()
      = Done (abcd, (),
              calls group_left
              @ [Called EnterAny (Character 100) (Some (Idx 3)),
                 Called ExitAny (Character 100) (Some (Idx 3))])
   \<and> Suc 0 < length abc
   \<and> x_enter_actions (traverseNodeX 3 b_to_xy_visitor (Alternative abc)) b_to_xy_visitor
        (Alternative abc) (abc ! Suc 0)
        (AtIndex (with_array (Alternative abc) abc) (Suc 0) abc) ()
      = [ReplaceWithMultiple [Character 120, Character 121] False]
   \<and> x_enter_node (traverseNodeX 3 b_to_xy_visitor (Alternative abc)) b_to_xy_visitor
        (Alternative abc) (abc ! Suc 0)
        (AtIndex (with_array (Alternative abc) abc) (Suc 0) abc) ()
      = Done b_replaced
   \<and> x_exit_node (traverseNodeX 3 b_to_xy_visitor (Alternative abc)) b_to_xy_visitor
        (Alternative abc) (abc ! Suc 0)
        (AtIndex (with_array (Alternative abc) abc) (Suc 0) abc) b_replaced
      = Done b_replaced
   \<and> traverseArrayX (Suc (Suc 3)) b_to_xy_visitor (Alternative abc) (Alternative abc)
        (Suc 0) abc ()
      = prepend_calls (calls b_replaced)
          (traverseArrayX (Suc 3) b_to_xy_visitor (Alternative abc) (Alternative abc)
             3 [Character 97, Character 120, Character 121, Character 99] ())
   \<and> traverseArrayX 5 b_to_xy_visitor (Alternative abc) (Alternative abc) 0 abc ()
      = Done ([Character 97, Character 120, Character 121, Character 99], (),
              [Called EnterThis (Character 97) (Some (Idx 0)),
               Called EnterThis (Character 98) (Some (Idx 1)),
               Called EnterThis (Character 99) (Some (Idx 3))])
   \<and> outcome_node (traverseNodeX 12 unwrap_groups nested_groups_ast nested_groups_ast AtRoot ())
      = Some (Regex (Pattern [Alternative [Character 97, Character 98]]) (Flags default_flags))"
proof -
  let ?A = "Alternative groups_d"
  let ?pos = "AtIndex (with_array ?A groups_d) 0 groups_d"
  let ?rec = "traverseNodeX 3 unwrapping ?A"
  have h1: "0 < length groups_d"
    by (simp add: groups_d_def)
  have h2: "x_enter_actions ?rec unwrapping ?A (groups_d ! 0) ?pos ()
              = [ReplaceWithMultiple [Character 97, group_bc] True]"
    by (simp add: x_enter_actions_def unwrapping_def look_def unwrap_nonempty_def
        groups_d_def group_a_group_bc_def path_view_def init_state_def)
  have h3: "x_enter_node ?rec unwrapping ?A (groups_d ! 0) ?pos () = Done group_unwrapped"
    by (simp add: unwrapping_def look_def unwrap_nonempty_def groups_d_def
        group_a_group_bc_def group_bc_def group_unwrapped_def unwrapping_calls_def abcd_def
        xtraverser_defs)
  have h4: "x_exit_node ?rec unwrapping ?A (groups_d ! 0) ?pos group_unwrapped
              = Done group_left"
    by (simp add: unwrapping_def look_def groups_d_def group_a_group_bc_def
        group_unwrapped_def group_left_def xtraverser_defs)
  have h5: "cont group_left = cont group_unwrapped"
    and h6: "keyShift group_left = keyShift group_unwrapped"
    by (simp_all add: group_left_def)
  have h7: "walks_in_place ?rec"
    by (rule walks_leave_nodes_in_place[OF splicing_walks[OF unwrapping_splicing]])
  from replaceWithMultiple_cursor[OF h1 refl h2 h3 h4 h5 h6 h7]
  obtain seg where
    c: "cont group_unwrapped = Some (splice_in 0 seg groups_d)" and
    l: "traverseArrayX (Suc (Suc 3)) unwrapping ?A ?A 0 groups_d () =
          prepend_calls (calls group_left)
            (traverseArrayX (Suc 3) unwrapping ?A ?A (0 + length seg)
               (splice_in 0 seg groups_d) (ustate group_left))"
    by blast
  from c have seg: "seg = [Character 97, Character 98, Character 99]"
    by (simp add: group_unwrapped_def abcd_def splice_in_def groups_d_def)
  have sp: "splice_in 0 seg groups_d = abcd"
    by (simp add: seg splice_in_def groups_d_def abcd_def)
  have loop: "traverseArrayX (Suc (Suc 3)) unwrapping ?A ?A 0 groups_d () =
          prepend_calls (calls group_left) (traverseArrayX (Suc 3) unwrapping ?A ?A 3 abcd ())"
  proof -
    have ls: "0 + length seg = 3" by (simp add: seg)
    from l[unfolded sp ls] show ?thesis by simp
  qed
  have run: "traverseArrayX 5 unwrapping ?A ?A 0 groups_d ()
      = Done (abcd, (),
              calls group_left
              @ [Called EnterAny (Character 100) (Some (Idx 3)),
                 Called ExitAny (Character 100) (Some (Idx 3))])"
    by (simp add: unwrapping_def look_def unwrap_nonempty_def groups_d_def
        group_a_group_bc_def group_bc_def group_unwrapped_def group_left_def
        unwrapping_calls_def abcd_def xtraverser_defs)
  let ?B = "Alternative abc"
  let ?posb = "AtIndex (with_array ?B abc) (Suc 0) abc"
  let ?recb = "traverseNodeX 3 b_to_xy_visitor ?B"
  have k1: "Suc 0 < length abc"
    by (simp add: abc_def)
  have k2: "x_enter_actions ?recb b_to_xy_visitor ?B (abc ! Suc 0) ?posb ()
              = [ReplaceWithMultiple [Character 120, Character 121] False]"
    by (simp add: x_enter_actions_def b_to_xy_visitor_def b_to_xy_def no_xhandlers_def
        abc_def path_view_def init_state_def)
  have k3: "x_enter_node ?recb b_to_xy_visitor ?B (abc ! Suc 0) ?posb () = Done b_replaced"
    by (simp add: b_to_xy_visitor_def b_to_xy_def abc_def b_replaced_def xtraverser_defs)
  have k4: "x_exit_node ?recb b_to_xy_visitor ?B (abc ! Suc 0) ?posb b_replaced
              = Done b_replaced"
    by (simp add: b_to_xy_visitor_def abc_def xtraverser_defs)
  from replaceWithMultiple_cursor[OF k1 refl k2 k3 k4 refl refl]
  obtain segb where
    sb: "segb = [Character 120, Character 121]" and
    lb: "traverseArrayX (Suc (Suc 3)) b_to_xy_visitor ?B ?B (Suc 0) abc () =
          prepend_calls (calls b_replaced)
            (traverseArrayX (Suc 3) b_to_xy_visitor ?B ?B (Suc 0 + length segb)
               (splice_in (Suc 0) segb abc) (ustate b_replaced))"
    by auto
  have loopb: "traverseArrayX (Suc (Suc 3)) b_to_xy_visitor ?B ?B (Suc 0) abc () =
          prepend_calls (calls b_replaced)
            (traverseArrayX (Suc 3) b_to_xy_visitor ?B ?B 3
               [Character 97, Character 120, Character 121, Character 99] ())"
  proof -
    have ls: "Suc 0 + length segb = 3" by (simp add: sb)
    have sp: "splice_in (Suc 0) segb abc
                = [Character 97, Character 120, Character 121, Character 99]"
      by (simp add: sb splice_in_def abc_def)
    from lb[unfolded sp ls] show ?thesis by simp
  qed
  have runb: "traverseArrayX 5 b_to_xy_visitor ?B ?B 0 abc ()
      = Done ([Character 97, Character 120, Character 121, Character 99], (),
              [Called EnterThis (Character 97) (Some (Idx 0)),
               Called EnterThis (Character 98) (Some (Idx 1)),
               Called EnterThis (Character 99) (Some (Idx 3))])"
    by (simp add: b_to_xy_visitor_def b_to_xy_def abc_def xtraverser_defs)
  have test: "outcome_node
        (traverseNodeX 12 unwrap_groups nested_groups_ast nested_groups_ast AtRoot ())
      = Some (Regex (Pattern [Alternative [Character 97, Character 98]]) (Flags default_flags))"
    by (simp add: outcome_node_def unwrap_groups_def unwrap_group_def nested_groups_ast_def
        group_a_group_b_def group_b_def xtraverser_defs)
  from h1 h2 h3 h4 h7 loop run k1 k2 k3 k4 loopb runb test
  show ?thesis by blast
qed

end
